(* ===== verification/Prelude.thy ===== *)
theory Prelude
  imports Main "HOL-Library.Word"
begin

text \<open>
  Shared vocabulary of the development: bytes, NUL-terminated strings and the functions of
  \<open>string.h\<close> the sources call, fixed-size character arrays, byte/character conversion, and
  the collections of rewrite rules the component theories extend.

  A C string argument (\<open>const char *\<close>) is a \<open>string\<close>, its characters without the
  terminator; a \<open>char[n]\<close> array is a \<open>string\<close> of length \<open>n\<close> that holds every
  byte of the array, the NUL bytes included.
\<close>

named_theorems cstring_simps \<open>rewriting with the string.h functions\<close>
named_theorems world_simps \<open>effects of the file operations on the world\<close>

type_synonym byte = "8 word"
type_synonym word32 = "32 word"

section \<open>Strings of C\<close>

definition NUL :: char where
  "NUL = CHR 0x00"

definition NL :: char where
  "NL = CHR 0x0A"

definition nonul :: "string \<Rightarrow> bool" where
  "nonul s \<longleftrightarrow> list_all (\<lambda>c. c \<noteq> NUL) s"

text \<open>The string a character array holds: its characters before the first NUL.\<close>

definition cstr :: "string \<Rightarrow> string" where
  "cstr a = takeWhile (\<lambda>c. c \<noteq> NUL) a"

text \<open>
  \<open>strncmp(a, b, n) == 0\<close>. The end of a list stands for the terminator, so the same function
  compares arrays and strings.
\<close>

fun strncmp_eq :: "nat \<Rightarrow> string \<Rightarrow> string \<Rightarrow> bool" where
  "strncmp_eq 0 a b = True"
| "strncmp_eq (Suc n) [] [] = True"
| "strncmp_eq (Suc n) [] (d # b) = (d = NUL)"
| "strncmp_eq (Suc n) (c # a) [] = (c = NUL)"
| "strncmp_eq (Suc n) (c # a) (d # b) = (c = d \<and> (c = NUL \<or> strncmp_eq n a b))"

text \<open>
  \<open>strncpy(dst, src, n)\<close>: exactly \<open>n\<close> bytes of \<open>dst\<close> are written, the string first and
  NUL bytes after it; the rest of the array keeps its bytes.
\<close>

definition strncpy :: "string \<Rightarrow> string \<Rightarrow> nat \<Rightarrow> string" where
  "strncpy dst src n = take n (cstr src @ replicate n NUL) @ drop n dst"

definition zeros :: "nat \<Rightarrow> string" where
  "zeros n = replicate n NUL"

text \<open>A read of one character; behind the last character of a string stands its terminator.\<close>

definition char_at :: "string \<Rightarrow> nat \<Rightarrow> char" where
  "char_at s i = (if i < length s then s ! i else NUL)"

lemma nonul_simps [simp]:
  "nonul []" "nonul (c # s) \<longleftrightarrow> c \<noteq> NUL \<and> nonul s" "nonul (s @ t) \<longleftrightarrow> nonul s \<and> nonul t"
  by (simp_all add: nonul_def)

lemma nonul_take [simp]: "nonul s \<Longrightarrow> nonul (take n s)"
  by (auto simp: nonul_def list_all_iff dest: in_set_takeD)

lemma cstr_Nil [simp]: "cstr [] = []"
  by (simp add: cstr_def)

lemma cstr_Cons [simp]: "cstr (c # a) = (if c = NUL then [] else c # cstr a)"
  by (simp add: cstr_def)

lemma nonul_cstr [simp]: "nonul (cstr a)"
  by (induction a) auto

lemma cstr_id [simp]: "nonul s \<Longrightarrow> cstr s = s"
  by (induction s) auto

lemma cstr_append_nonul: "nonul s \<Longrightarrow> cstr (s @ t) = s @ cstr t"
  by (induction s) auto

lemma cstr_replicate [simp]: "cstr (replicate n NUL) = []"
  by (cases n) auto

lemma cstr_zeros [simp]: "cstr (zeros n) = []"
  by (simp add: zeros_def)

lemma length_zeros [simp]: "length (zeros n) = n"
  by (simp add: zeros_def)

lemma length_cstr: "length (cstr a) \<le> length a"
  by (simp add: cstr_def length_takeWhile_le)

lemma strncmp_eq_iff [cstring_simps]:
  "strncmp_eq n a b \<longleftrightarrow> take n (cstr a) = take n (cstr b)"
  by (induction n a b rule: strncmp_eq.induct) auto

lemma strncmp_eq_refl [simp]: "strncmp_eq n a a"
  by (simp add: strncmp_eq_iff)

lemma strncmp_eq_sym: "strncmp_eq n a b = strncmp_eq n b a"
  by (auto simp: strncmp_eq_iff)

lemma length_strncpy [simp]:
  "length (strncpy dst src n) = n + (length dst - n)"
  by (simp add: strncpy_def)

lemma take_strncpy_src: "take n (s @ replicate n c) = take n s @ replicate (n - length s) c"
  by simp

text \<open>
  Copying a string into an array cleared by \<open>memset\<close>, with room left for the terminator, stores
  the string cut to the room there is.
\<close>

lemma cstr_append_zeros: "nonul s \<Longrightarrow> cstr (s @ replicate k NUL) = s"
  by (simp add: cstr_append_nonul)

lemma cstr_strncpy_zeros [cstring_simps]:
  assumes "nonul src" "n < m"
  shows "cstr (strncpy (zeros m) src n) = take n src"
proof -
  have "strncpy (zeros m) src n = take n src @ replicate (n - length src + (m - n)) NUL"
    using assms by (simp only: strncpy_def zeros_def replicate_add) simp
  then show ?thesis
    using assms by (simp add: cstr_append_zeros)
qed

lemma strncpy_full: "length src = n \<Longrightarrow> nonul src \<Longrightarrow> strncpy dst src n = src @ drop n dst"
  by (simp add: strncpy_def)

section \<open>Numbers as text\<close>

text \<open>\<open>%d\<close> and \<open>%ld\<close>.\<close>

fun decimal :: "nat \<Rightarrow> string" where
  "decimal n = (if n < 10 then [''0123456789'' ! n] else decimal (n div 10) @ [''0123456789'' ! (n mod 10)])"

declare decimal.simps [simp del]

definition int_text :: "int \<Rightarrow> string" where
  "int_text x = (if x < 0 then CHR ''-'' # decimal (nat (- x)) else decimal (nat x))"

section \<open>Bytes and characters\<close>

text \<open>
  \<open>char\<close> arrays reinterpreted as \<open>unsigned char\<close> arrays and back: the same eight bits.
\<close>

definition byte_of_char :: "char \<Rightarrow> byte" where
  "byte_of_char c = of_nat (of_char c)"

definition char_of_byte :: "byte \<Rightarrow> char" where
  "char_of_byte b = char_of (unat b)"

lemma char_of_byte_of_char [simp]: "char_of_byte (byte_of_char c) = c"
proof -
  have "of_char c < (256::nat)" by simp
  then show ?thesis
    by (simp add: char_of_byte_def byte_of_char_def unat_of_nat)
qed

lemma byte_of_char_of_byte [simp]: "byte_of_char (char_of_byte b) = b"
proof -
  have "unat b < 256"
    using unsigned_less[of b, where ?'a = nat] by simp
  then have "of_char (char_of (unat b) :: char) = unat b"
    by (simp only: of_char_of) simp
  then show ?thesis
    by (simp add: char_of_byte_def byte_of_char_def)
qed

lemma byte_of_char_inj [simp]: "byte_of_char c = byte_of_char d \<longleftrightarrow> c = d"
  by (metis char_of_byte_of_char)

definition bytes_of :: "string \<Rightarrow> byte list" where
  "bytes_of s = map byte_of_char s"

definition chars_of :: "byte list \<Rightarrow> string" where
  "chars_of bs = map char_of_byte bs"

lemma length_bytes_of [simp]: "length (bytes_of s) = length s"
  by (simp add: bytes_of_def)

lemma length_chars_of [simp]: "length (chars_of bs) = length bs"
  by (simp add: chars_of_def)

lemma chars_of_bytes_of [simp]: "chars_of (bytes_of s) = s"
  by (simp add: chars_of_def bytes_of_def comp_def)

lemma bytes_of_chars_of [simp]: "bytes_of (chars_of bs) = bs"
  by (simp add: chars_of_def bytes_of_def comp_def)

lemma bytes_of_append [simp]: "bytes_of (s @ t) = bytes_of s @ bytes_of t"
  by (simp add: bytes_of_def)

lemma chars_of_append [simp]: "chars_of (s @ t) = chars_of s @ chars_of t"
  by (simp add: chars_of_def)

lemma bytes_of_inj [simp]: "bytes_of s = bytes_of t \<longleftrightarrow> s = t"
  by (metis chars_of_bytes_of)

lemma nth_bytes_of [simp]: "i < length s \<Longrightarrow> bytes_of s ! i = byte_of_char (s ! i)"
  by (simp add: bytes_of_def)

section \<open>Lists\<close>

lemma find_None_all: "find P xs = None \<longleftrightarrow> (\<forall>x\<in>set xs. \<not> P x)"
  by (induction xs) auto

lemma find_append: "find P (xs @ ys) = (case find P xs of None \<Rightarrow> find P ys | Some x \<Rightarrow> Some x)"
  by (induction xs) auto

lemma find_Some_P: "find P xs = Some x \<Longrightarrow> x \<in> set xs \<and> P x"
  by (induction xs) (auto split: if_splits)

lemma find_map: "find P (map f xs) = map_option f (find (P \<circ> f) xs)"
  by (induction xs) auto

lemma find_cong_on: "(\<And>x. x \<in> set xs \<Longrightarrow> P x = Q x) \<Longrightarrow> find P xs = find Q xs"
  by (induction xs) auto

end
