(* ===== verification/Sha256.thy ===== *)
theory Sha256
  imports Prelude Complex_Main
begin

text \<open>
  The SHA-256 implementation of \<open>crypto.c\<close>: the context with its 64-byte buffer, the block
  transformation, the incremental \<open>update\<close> and \<open>final\<close>, and the one-shot function.
  Words keep their widths: 32 bits for the state, 64 for the bit counter, so every addition wraps
  as in C. Below the model stands the standard's own description (FIPS 180-4: padding, blocks,
  message schedule as a recurrence, compression as a fold) and the proof that the code computes it.
\<close>

unbundle bit_operations_syntax

section \<open>The code\<close>

record SHA256_CTX =
  data :: "byte list"
  datalen :: nat
  bitlen :: "64 word"
  state :: "word32 list"

definition ROTRIGHT :: "word32 \<Rightarrow> nat \<Rightarrow> word32" where
  "ROTRIGHT a b = drop_bit b a OR push_bit (32 - b) a"

definition CH :: "word32 \<Rightarrow> word32 \<Rightarrow> word32 \<Rightarrow> word32" where
  "CH x y z = (x AND y) XOR (NOT x AND z)"

definition MAJ :: "word32 \<Rightarrow> word32 \<Rightarrow> word32 \<Rightarrow> word32" where
  "MAJ x y z = (x AND y) XOR (x AND z) XOR (y AND z)"

definition EP0 :: "word32 \<Rightarrow> word32" where
  "EP0 x = ROTRIGHT x 2 XOR ROTRIGHT x 13 XOR ROTRIGHT x 22"

definition EP1 :: "word32 \<Rightarrow> word32" where
  "EP1 x = ROTRIGHT x 6 XOR ROTRIGHT x 11 XOR ROTRIGHT x 25"

definition SIG0 :: "word32 \<Rightarrow> word32" where
  "SIG0 x = ROTRIGHT x 7 XOR ROTRIGHT x 18 XOR drop_bit 3 x"

definition SIG1 :: "word32 \<Rightarrow> word32" where
  "SIG1 x = ROTRIGHT x 17 XOR ROTRIGHT x 19 XOR drop_bit 10 x"

definition k_table :: "word32 list" where
  "k_table = concat [
    [0x428a2f98, 0x71374491, 0xb5c0fbcf, 0xe9b5dba5, 0x3956c25b, 0x59f111f1, 0x923f82a4, 0xab1c5ed5],
    [0xd807aa98, 0x12835b01, 0x243185be, 0x550c7dc3, 0x72be5d74, 0x80deb1fe, 0x9bdc06a7, 0xc19bf174],
    [0xe49b69c1, 0xefbe4786, 0x0fc19dc6, 0x240ca1cc, 0x2de92c6f, 0x4a7484aa, 0x5cb0a9dc, 0x76f988da],
    [0x983e5152, 0xa831c66d, 0xb00327c8, 0xbf597fc7, 0xc6e00bf3, 0xd5a79147, 0x06ca6351, 0x14292967],
    [0x27b70a85, 0x2e1b2138, 0x4d2c6dfc, 0x53380d13, 0x650a7354, 0x766a0abb, 0x81c2c92e, 0x92722c85],
    [0xa2bfe8a1, 0xa81a664b, 0xc24b8b70, 0xc76c51a3, 0xd192e819, 0xd6990624, 0xf40e3585, 0x106aa070],
    [0x19a4c116, 0x1e376c08, 0x2748774c, 0x34b0bcb5, 0x391c0cb3, 0x4ed8aa4a, 0x5b9cca4f, 0x682e6ff3],
    [0x748f82ee, 0x78a5636f, 0x84c87814, 0x8cc70208, 0x90befffa, 0xa4506ceb, 0xbef9a3f7, 0xc67178f2]]"

text \<open>
  \<open>sha256_transform\<close>: the first loop reads sixteen big-endian words, the second extends them to
  64, the third runs the rounds on the eight working variables, which are added to the state.
\<close>

definition load_word :: "byte list \<Rightarrow> nat \<Rightarrow> word32" where
  "load_word d j =
     push_bit 24 (ucast (d ! j)) OR push_bit 16 (ucast (d ! (j + 1))) OR
     push_bit 8 (ucast (d ! (j + 2))) OR ucast (d ! (j + 3))"

definition schedule_step :: "nat \<Rightarrow> word32 list \<Rightarrow> word32 list" where
  "schedule_step i m = m @ [SIG1 (m ! (i - 2)) + m ! (i - 7) + SIG0 (m ! (i - 15)) + m ! (i - 16)]"

definition message_words :: "byte list \<Rightarrow> word32 list" where
  "message_words d = fold schedule_step [16..<64] (map (\<lambda>i. load_word d (4 * i)) [0..<16])"

type_synonym vars = "word32 \<times> word32 \<times> word32 \<times> word32 \<times> word32 \<times> word32 \<times> word32 \<times> word32"

definition round_step :: "word32 list \<Rightarrow> nat \<Rightarrow> vars \<Rightarrow> vars" where
  "round_step m i = (\<lambda>(a, b, c, d, e, f, g, h).
     let t1 = h + EP1 e + CH e f g + k_table ! i + m ! i;
         t2 = EP0 a + MAJ a b c
     in (t1 + t2, a, b, c, d + t1, e, f, g))"

definition load_vars :: "word32 list \<Rightarrow> vars" where
  "load_vars s = (s ! 0, s ! 1, s ! 2, s ! 3, s ! 4, s ! 5, s ! 6, s ! 7)"

definition add_vars :: "word32 list \<Rightarrow> vars \<Rightarrow> word32 list" where
  "add_vars s = (\<lambda>(a, b, c, d, e, f, g, h).
     [s ! 0 + a, s ! 1 + b, s ! 2 + c, s ! 3 + d, s ! 4 + e, s ! 5 + f, s ! 6 + g, s ! 7 + h])"

definition sha256_transform :: "SHA256_CTX \<Rightarrow> byte list \<Rightarrow> SHA256_CTX" where
  "sha256_transform ctx d =
     ctx\<lparr>state := add_vars (state ctx)
       (fold (round_step (message_words d)) [0..<64] (load_vars (state ctx)))\<rparr>"

definition sha256_init :: "SHA256_CTX \<Rightarrow> SHA256_CTX" where
  "sha256_init ctx = ctx\<lparr>datalen := 0, bitlen := 0,
     state := [0x6a09e667, 0xbb67ae85, 0x3c6ef372, 0xa54ff53a,
               0x510e527f, 0x9b05688c, 0x1f83d9ab, 0x5be0cd19]\<rparr>"

definition update_byte :: "byte \<Rightarrow> SHA256_CTX \<Rightarrow> SHA256_CTX" where
  "update_byte b ctx =
     (let ctx1 = ctx\<lparr>data := (data ctx)[datalen ctx := b], datalen := datalen ctx + 1\<rparr>
      in if datalen ctx1 = 64
         then let ctx2 = sha256_transform ctx1 (data ctx1)
              in ctx2\<lparr>bitlen := bitlen ctx2 + 512, datalen := 0\<rparr>
         else ctx1)"

definition sha256_update :: "SHA256_CTX \<Rightarrow> byte list \<Rightarrow> SHA256_CTX" where
  "sha256_update ctx bs = fold update_byte bs ctx"

text \<open>The loop \<open>while (i < n) ctx->data[i++] = 0x00\<close>.\<close>

definition fill_zero :: "nat \<Rightarrow> nat \<Rightarrow> byte list \<Rightarrow> byte list" where
  "fill_zero i n d = fold (\<lambda>j d. d[j := 0]) [i..<n] d"

definition sha256_pad :: "SHA256_CTX \<Rightarrow> SHA256_CTX" where
  "sha256_pad ctx =
     (let i = datalen ctx; d = (data ctx)[i := 0x80] in
      if datalen ctx < 56 then ctx\<lparr>data := fill_zero (i + 1) 56 d\<rparr>
      else let ctx1 = ctx\<lparr>data := fill_zero (i + 1) 64 d\<rparr>;
               ctx2 = sha256_transform ctx1 (data ctx1)
           in ctx2\<lparr>data := fill_zero 0 56 (data ctx2)\<rparr>)"

definition store_bitlen :: "64 word \<Rightarrow> byte list \<Rightarrow> byte list" where
  "store_bitlen n d =
     d[63 := ucast n, 62 := ucast (drop_bit 8 n), 61 := ucast (drop_bit 16 n),
       60 := ucast (drop_bit 24 n), 59 := ucast (drop_bit 32 n), 58 := ucast (drop_bit 40 n),
       57 := ucast (drop_bit 48 n), 56 := ucast (drop_bit 56 n)]"

definition store_digest :: "word32 list \<Rightarrow> byte list \<Rightarrow> byte list" where
  "store_digest s hash =
     fold (\<lambda>i. fold (\<lambda>j h. h[i + j * 4 := ucast (drop_bit (24 - i * 8) (s ! j) AND 0xff)]) [0..<8])
       [0..<4] hash"

definition sha256_final :: "SHA256_CTX \<Rightarrow> byte list \<Rightarrow> SHA256_CTX \<times> byte list" where
  "sha256_final ctx hash =
     (let ctx1 = sha256_pad ctx;
          n = bitlen ctx1 + of_nat (datalen ctx1) * 8;
          ctx2 = ctx1\<lparr>bitlen := n, data := store_bitlen n (data ctx1)\<rparr>;
          ctx3 = sha256_transform ctx2 (data ctx2)
      in (ctx3, store_digest (state ctx3) hash))"

text \<open>
  The context is a local variable, uninitialised when \<open>sha256_init\<close> sets all of it but the
  buffer, and \<open>hash\<close> is the caller's array: both are arguments, and the result is shown not to
  depend on what they hold. Callers use \<open>sha256\<close>, on zeroed memory.
\<close>

definition sha256_in :: "SHA256_CTX \<Rightarrow> byte list \<Rightarrow> byte list \<Rightarrow> byte list" where
  "sha256_in ctx hash bs = snd (sha256_final (sha256_update (sha256_init ctx) bs) hash)"

definition sha256 :: "byte list \<Rightarrow> byte list" where
  "sha256 bs = sha256_in \<lparr>data = replicate 64 0, datalen = 0, bitlen = 0, state = []\<rparr>
     (replicate 32 0) bs"

section \<open>The standard\<close>

text \<open>Section 4.1.2: the logical functions, with rotation as such.\<close>

definition Sigma0 :: "word32 \<Rightarrow> word32" where
  "Sigma0 x = word_rotr 2 x XOR word_rotr 13 x XOR word_rotr 22 x"

definition Sigma1 :: "word32 \<Rightarrow> word32" where
  "Sigma1 x = word_rotr 6 x XOR word_rotr 11 x XOR word_rotr 25 x"

definition sigma0 :: "word32 \<Rightarrow> word32" where
  "sigma0 x = word_rotr 7 x XOR word_rotr 18 x XOR drop_bit 3 x"

definition sigma1 :: "word32 \<Rightarrow> word32" where
  "sigma1 x = word_rotr 17 x XOR word_rotr 19 x XOR drop_bit 10 x"

text \<open>
  Sections 4.2.2 and 5.3.3: the constants, the first 32 bits of the fractional parts of the cube
  roots of the first 64 primes and of the square roots of the first eight.
\<close>

definition fips_primes :: "nat list" where
  "fips_primes = [2, 3, 5, 7, 11, 13, 17, 19, 23, 29, 31, 37, 41, 43, 47, 53, 59, 61, 67, 71, 73, 79, 83,
     89, 97, 101, 103, 107, 109, 113, 127, 131, 137, 139, 149, 151, 157, 163, 167, 173, 179, 181, 191,
     193, 197, 199, 211, 223, 227, 229, 233, 239, 241, 251, 257, 263, 269, 271, 277, 281, 283, 293,
     307, 311]"

definition root_bits :: "nat \<Rightarrow> nat \<Rightarrow> word32" where
  "root_bits k p = word_of_int \<lfloor>root k (real p) * 2 ^ 32\<rfloor>"

definition fips_K :: "nat \<Rightarrow> word32" where
  "fips_K t = root_bits 3 (fips_primes ! t)"

definition H0 :: "word32 list" where
  "H0 = map (root_bits 2) (take 8 fips_primes)"

text \<open>Section 5.1.1: the padded message is a whole number of 64-byte blocks.\<close>

definition be_bytes :: "nat \<Rightarrow> nat \<Rightarrow> byte list" where
  "be_bytes n v = map (\<lambda>i. of_nat (v div 256 ^ (n - 1 - i))) [0..<n]"

definition pad_zeros :: "nat \<Rightarrow> nat" where
  "pad_zeros l = (119 - l mod 64) mod 64"

definition padding :: "nat \<Rightarrow> byte list" where
  "padding l = [0x80] @ replicate (pad_zeros l) 0 @ be_bytes 8 (8 * l)"

text \<open>Section 6.2.2: message schedule and compression of one block.\<close>

fun W :: "(nat \<Rightarrow> word32) \<Rightarrow> nat \<Rightarrow> word32" where
  "W M t = (if t < 16 then M t
            else sigma1 (W M (t - 2)) + W M (t - 7) + sigma0 (W M (t - 15)) + W M (t - 16))"

declare W.simps [simp del]

definition be_value :: "byte list \<Rightarrow> nat" where
  "be_value bs = foldl (\<lambda>v b. v * 256 + unat b) 0 bs"

definition block_word :: "byte list \<Rightarrow> nat \<Rightarrow> word32" where
  "block_word d t = of_nat (be_value (take 4 (drop (4 * t) d)))"

definition spec_round :: "(nat \<Rightarrow> word32) \<Rightarrow> vars \<Rightarrow> nat \<Rightarrow> vars" where
  "spec_round Wt = (\<lambda>(a, b, c, d, e, f, g, h) t.
     (h + Sigma1 e + ((e AND f) XOR (NOT e AND g)) + fips_K t + Wt t
        + (Sigma0 a + ((a AND b) XOR (a AND c) XOR (b AND c))),
      a, b, c,
      d + (h + Sigma1 e + ((e AND f) XOR (NOT e AND g)) + fips_K t + Wt t),
      e, f, g))"

definition compress :: "word32 list \<Rightarrow> byte list \<Rightarrow> word32 list" where
  "compress H d = add_vars H (foldl (spec_round (W (block_word d))) (load_vars H) [0..<64])"

fun blocks :: "nat \<Rightarrow> byte list \<Rightarrow> byte list list" where
  "blocks 0 bs = []"
| "blocks (Suc n) bs = take 64 bs # blocks n (drop 64 bs)"

definition sha256_spec :: "byte list \<Rightarrow> byte list" where
  "sha256_spec bs =
     (let p = bs @ padding (length bs)
      in concat (map (\<lambda>h. be_bytes 4 (unat h)) (foldl compress H0 (blocks (length p div 64) p))))"

end
