(* ===== verification/Sha256_Correct.thy ===== *)
theory Sha256_Correct
  imports Sha256
begin

text \<open>
  The code of \<open>crypto.c\<close> computes the standard's SHA-256: the shift-and-or rotations are
  rotations, the message schedule loop computes the recurrence, one call of the transformation is
  one compression, the context absorbs a message incrementally (\<open>absorbed\<close> is the invariant of
  the update loop) and the final block or two blocks are the standard's padding. The result does not
  depend on the uninitialised context or the contents of the caller's hash array.
\<close>

unbundle bit_operations_syntax

section \<open>Words and rotations\<close>

lemma ROTRIGHT_word_rotr: "0 < n \<Longrightarrow> n < 32 \<Longrightarrow> ROTRIGHT x n = word_rotr n x"
proof (rule bit_word_eqI)
  fix i :: nat
  assume n: "0 < n" "n < 32" and i: "i < LENGTH(32)"
  show "bit (ROTRIGHT x n) i = bit (word_rotr n x) i"
  proof (cases "i + n < 32")
    case True
    then show ?thesis
      using n i by (auto simp: ROTRIGHT_def bit_simps add.commute)
  next
    case False
    then have "(i + n) mod 32 = i + n - 32" "i - (32 - n) = i + n - 32" "\<not> bit x (n + i)"
      using n i by (auto simp: mod_if dest: bit_imp_le_length)
    then show ?thesis
      using n i False by (auto simp: ROTRIGHT_def bit_simps le_diff_conv2)
  qed
qed

lemma sigma_eqs:
  "EP0 x = Sigma0 x" "EP1 x = Sigma1 x" "SIG0 x = sigma0 x" "SIG1 x = sigma1 x"
  by (simp_all add: EP0_def EP1_def SIG0_def SIG1_def Sigma0_def Sigma1_def sigma0_def sigma1_def
      ROTRIGHT_word_rotr)

lemma bit_byteD: "bit (b :: byte) n \<Longrightarrow> n < 8"
  using bit_imp_le_length[of b n] by simp

lemma or_bytes:
  fixes a b c d :: byte
  shows "push_bit 24 (ucast a) OR push_bit 16 (ucast b) OR push_bit 8 (ucast c) OR ucast d =
    (push_bit 24 (ucast a) + (push_bit 16 (ucast b) + (push_bit 8 (ucast c) + ucast d)) :: word32)"
proof -
  have 1: "push_bit 8 (ucast c) AND ucast d = (0 :: word32)"
    by (rule bit_word_eqI) (auto simp: bit_simps dest!: bit_byteD)
  have 2: "push_bit 16 (ucast b) AND (push_bit 8 (ucast c) OR ucast d) = (0 :: word32)"
    by (rule bit_word_eqI) (auto simp: bit_simps dest!: bit_byteD)
  have 3: "push_bit 24 (ucast a) AND (push_bit 16 (ucast b) OR push_bit 8 (ucast c) OR ucast d) = (0 :: word32)"
    by (rule bit_word_eqI) (auto simp: bit_simps dest!: bit_byteD)
  show ?thesis
    by (simp only: disjunctive_add_eq_or[OF 1] disjunctive_add_eq_or[OF 2] disjunctive_add_eq_or[OF 3])
qed

lemma load_word_value:
  assumes "j + 3 < length d"
  shows "load_word d j = of_nat (be_value (take 4 (drop j d)))"
proof -
  have "take 4 (drop j d) = [d ! j, d ! (j + 1), d ! (j + 2), d ! (j + 3)]"
    using assms by (simp add: take_Suc_conv_app_nth numeral_eq_Suc)
  then have "be_value (take 4 (drop j d)) =
    ((unat (d ! j) * 256 + unat (d ! (j + 1))) * 256 + unat (d ! (j + 2))) * 256 + unat (d ! (j + 3))"
    by (simp only: be_value_def foldl.simps) simp
  then show ?thesis
    unfolding load_word_def or_bytes unfolding push_bit_eq_mult by (simp add: algebra_simps)
qed
lemma ucast_byte: "(ucast (drop_bit n x AND 0xff :: word32) :: byte) = of_nat (unat x div 2 ^ n)"
proof -
  have "drop_bit n x AND 0xff = take_bit 8 (drop_bit n x)"
    by (simp add: take_bit_eq_mask mask_eq_exp_minus_1)
  then have "(ucast (drop_bit n x AND 0xff) :: byte) = ucast (drop_bit n x)"
    by (simp only:) (rule bit_word_eqI, auto simp: bit_simps)
  also have "\<dots> = of_nat (unat (drop_bit n x))"
    by simp
  also have "unat (drop_bit n x) = unat x div 2 ^ n"
    by (simp add: unat_drop_bit_eq flip: drop_bit_eq_div)
  finally show ?thesis .
qed

section \<open>Message schedule and compression\<close>

lemma upt_snoc: "[a..<a + Suc n] = [a..<a + n] @ [a + n]"
  by simp

lemma schedule_snoc:
  "fold schedule_step [16..<16 + Suc n] m = schedule_step (16 + n) (fold schedule_step [16..<16 + n] m)"
  by (simp only: upt_snoc fold_append) simp

lemma length_schedule_step [simp]: "length (schedule_step i m) = Suc (length m)"
  by (simp add: schedule_step_def)

lemma nth_schedule_step:
  "j \<le> length m \<Longrightarrow> schedule_step i m ! j =
     (if j < length m then m ! j
      else sigma1 (m ! (i - 2)) + m ! (i - 7) + sigma0 (m ! (i - 15)) + m ! (i - 16))"
  by (simp add: schedule_step_def sigma_eqs nth_append)

lemma length_schedule: "length (fold schedule_step [16..<16 + n] m) = length m + n"
proof (induction n)
  case (Suc n)
  then show ?case
    by (simp only: schedule_snoc length_schedule_step)
qed simp

lemma schedule_W:
  assumes "length m = 16" "\<And>t. t < 16 \<Longrightarrow> m ! t = M t"
  shows "\<forall>t < 16 + n. fold schedule_step [16..<16 + n] m ! t = W M t"
proof (induction n)
  case 0
  then show ?case
    using assms by (simp add: W.simps)
next
  case (Suc n)
  define f where "f = fold schedule_step [16..<16 + n] m"
  have len: "length f = 16 + n" and f: "t < 16 + n \<Longrightarrow> f ! t = W M t" for t
    using assms Suc.IH by (simp_all add: length_schedule f_def)
  have new: "fold schedule_step [16..<16 + Suc n] m = schedule_step (16 + n) f"
    unfolding f_def by (rule schedule_snoc)
  have "schedule_step (16 + n) f ! t = W M t" if "t < 16 + Suc n" for t
    using that len f
    by (cases "t = 16 + n") (simp_all add: nth_schedule_step W.simps[of M "16 + n"])
  then show ?case
    unfolding new by blast
qed

lemma message_words_W:
  assumes "length d = 64" "t < 64"
  shows "message_words d ! t = W (block_word d) t"
proof -
  have "load_word d (4 * i) = block_word d i" if "i < 16" for i
    using that assms by (simp add: block_word_def load_word_value)
  then have "\<forall>t < 16 + 48. message_words d ! t = W (block_word d) t"
    unfolding message_words_def
    using schedule_W[of "map (\<lambda>i. load_word d (4 * i)) [0..<16]" "block_word d" 48] by simp
  then show ?thesis
    using assms by simp
qed

section \<open>The constants\<close>

text \<open>An integer between the scaled root and its successor is the root's integer part.\<close>

lemma root_bits_eq:
  assumes "0 < k" "y ^ k \<le> p * 2 ^ (32 * k)" "p * 2 ^ (32 * k) < (y + 1) ^ k"
  shows "root_bits k p = word_of_nat y"
proof -
  have e: "root k (real p) * 2 ^ 32 = root k (real (p * 2 ^ (32 * k)))"
    using assms(1) by (simp add: real_root_mult power_mult real_root_power_cancel)
  have "real y \<le> root k (real (p * 2 ^ (32 * k)))"
  proof -
    have "root k (real (y ^ k)) \<le> root k (real (p * 2 ^ (32 * k)))"
      using assms(1,2) by (intro real_root_le_mono) (simp_all only: of_nat_le_iff)
    then show ?thesis using assms(1) by (simp add: real_root_power_cancel)
  qed
  moreover have "root k (real (p * 2 ^ (32 * k))) < real (y + 1)"
  proof -
    have "root k (real (p * 2 ^ (32 * k))) < root k (real ((y + 1) ^ k))"
      using assms(1,3) by (intro real_root_less_mono) (simp_all only: of_nat_less_iff)
    then show ?thesis using assms(1) by (simp only: of_nat_power real_root_power_cancel of_nat_0_le_iff)
  qed
  ultimately have "\<lfloor>root k (real p) * 2 ^ 32\<rfloor> = int y"
    unfolding e by (intro floor_unique) simp_all
  then show ?thesis
    by (simp add: root_bits_def)
qed

text \<open>A table is right when its entries, with the integer parts of the roots, are such integers.\<close>

definition root_of :: "nat \<Rightarrow> nat \<Rightarrow> nat \<times> word32 \<Rightarrow> bool" where
  "root_of k p rx = (let y = fst rx * 2 ^ 32 + unat (snd rx); n = p * 2 ^ (32 * k) in y ^ k \<le> n \<and> n < (y + 1) ^ k)"

lemma root_of_bits: "0 < k \<Longrightarrow> root_of k p rx \<Longrightarrow> root_bits k p = snd rx"
proof -
  assume "0 < k" "root_of k p rx"
  then have "root_bits k p = word_of_nat (fst rx * 2 ^ 32 + unat (snd rx))"
    by (intro root_bits_eq) (simp_all add: root_of_def Let_def)
  moreover have "(2 :: word32) ^ 32 = 0"
    by simp
  ultimately show ?thesis
    by (simp only: of_nat_add of_nat_mult of_nat_power of_nat_numeral mult_zero_right add_0 of_nat_unat ucast_id)
qed

lemma roots_table:
  assumes "0 < k" "list_all2 (root_of k) ps rxs"
  shows "map (root_bits k) ps = map snd rxs"
  using assms(2) by induction (simp_all add: root_of_bits[OF assms(1)])

lemma H0_eq: "H0 = [0x6a09e667, 0xbb67ae85, 0x3c6ef372, 0xa54ff53a, 0x510e527f, 0x9b05688c, 0x1f83d9ab, 0x5be0cd19]"
proof -
  have "list_all2 (root_of 2) (take 8 fips_primes)
     [(1, 0x6a09e667), (1, 0xbb67ae85), (2, 0x3c6ef372), (2, 0xa54ff53a), (3, 0x510e527f), (3, 0x9b05688c), (4, 0x1f83d9ab), (4, 0x5be0cd19)]"
    by (simp add: fips_primes_def root_of_def)
  from roots_table[OF _ this] show ?thesis
    by (simp add: H0_def)
qed

lemma k_table_roots: "list_all2 (root_of 3) fips_primes
    (zip [1, 1, 1, 1, 2, 2, 2, 2, 2, 3, 3, 3, 3, 3, 3, 3, 3, 3, 4, 4, 4, 4, 4, 4, 4, 4, 4,
      4, 4, 4, 5, 5, 5, 5, 5, 5, 5, 5, 5, 5, 5, 5, 5, 5, 5, 5, 5, 6, 6, 6, 6, 6, 6, 6,
      6, 6, 6, 6, 6, 6, 6, 6, 6, 6] k_table)"
  by (simp add: fips_primes_def k_table_def root_of_def)

lemma length_k_table: "length k_table = 64"
  by (simp add: k_table_def)

lemma K_table: "t < 64 \<Longrightarrow> k_table ! t = fips_K t"
proof -
  have "map (root_bits 3) fips_primes = k_table"
    using roots_table[OF _ k_table_roots] length_k_table by simp
  moreover have "length fips_primes = 64"
    by (simp add: fips_primes_def)
  ultimately show "t < 64 \<Longrightarrow> k_table ! t = fips_K t"
    unfolding fips_K_def by (metis nth_map)
qed

section \<open>Rounds\<close>

lemma round_step_spec:
  "m ! i = Wt i \<Longrightarrow> i < 64 \<Longrightarrow> round_step m i v = spec_round Wt v i"
  by (simp add: round_step_def spec_round_def Let_def sigma_eqs CH_def MAJ_def K_table split: prod.splits)

lemma transform_compress:
  assumes "length d = 64"
  shows "sha256_transform ctx d = ctx\<lparr>state := compress (state ctx) d\<rparr>"
proof -
  have "fold (round_step (message_words d)) [0..<64] v =
    foldl (spec_round (W (block_word d))) v [0..<64]" for v
    unfolding foldl_conv_fold
    by (rule fold_cong) (use assms in \<open>auto intro!: ext round_step_spec message_words_W\<close>)
  then show ?thesis
    by (simp add: sha256_transform_def compress_def)
qed

section \<open>The buffer\<close>

lemma length_fill_zero [simp]: "length (fill_zero i n d) = length d"
proof -
  have "length (fold (\<lambda>j d. d[j := 0]) js d) = length d" for js
    by (induction js arbitrary: d) auto
  then show ?thesis by (simp add: fill_zero_def)
qed

lemma fill_zero_eq:
  "i \<le> n \<Longrightarrow> n \<le> length d \<Longrightarrow> fill_zero i n d = take i d @ replicate (n - i) 0 @ drop n d"
proof (induction n)
  case (Suc n)
  show ?case
  proof (cases "i = Suc n")
    case False
    with Suc.prems have "i \<le> n" by simp
    then have "fill_zero i (Suc n) d = (fill_zero i n d)[n := 0]"
      by (simp add: fill_zero_def)
    also have "\<dots> = take i d @ replicate (n - i) 0 @ (drop n d)[0 := 0]"
      using Suc \<open>i \<le> n\<close> by (simp add: list_update_append)
    also have "(drop n d)[0 := 0] = 0 # drop (Suc n) d"
      using Suc.prems by (simp add: Cons_nth_drop_Suc[symmetric])
    finally show ?thesis
      using \<open>i \<le> n\<close> by (simp add: Suc_diff_le replicate_app_Cons_same)
  qed (simp add: fill_zero_def)
qed (simp add: fill_zero_def)

lemma ucast_drop_of_nat:
  "i \<le> 56 \<Longrightarrow> (ucast (drop_bit i (of_nat v :: 64 word)) :: byte) = of_nat (v div 2 ^ i)"
  by (rule bit_word_eqI) (auto simp: bit_simps simp flip: drop_bit_eq_div)

lemma update_last8:
  "length h = 56 \<Longrightarrow> length t = 8 \<Longrightarrow>
    (h @ t)[63 := x7, 62 := x6, 61 := x5, 60 := x4, 59 := x3, 58 := x2, 57 := x1, 56 := x0] =
    h @ [x0, x1, x2, x3, x4, x5, x6, x7]"
  by (auto simp: list_update_append length_Suc_conv numeral_eq_Suc)

lemma store_bitlen_eq:
  assumes "length d = 64"
  shows "store_bitlen (of_nat v) d = take 56 d @ be_bytes 8 v"
proof -
  define x where "x i = (ucast (drop_bit i (of_nat v :: 64 word)) :: byte)" for i
  have "[0..<8] = [0, 1, 2, 3, 4, 5, 6, 7 :: nat]"
    by (simp add: upt_rec)
  then have be: "be_bytes 8 v = [x 56, x 48, x 40, x 32, x 24, x 16, x 8, x 0]"
    by (simp add: be_bytes_def ucast_drop_of_nat x_def del: drop_bit_0)
  have "store_bitlen (of_nat v) (take 56 d @ drop 56 d) =
    take 56 d @ [x 56, x 48, x 40, x 32, x 24, x 16, x 8, x 0]"
    unfolding store_bitlen_def
    using assms by (subst update_last8) (simp_all add: x_def)
  then show ?thesis
    by (simp only: be append_take_drop_id)
qed

lemma blocks_append: "64 * n \<le> length bs \<Longrightarrow> blocks n (bs @ x) = blocks n bs"
  by (induction n bs rule: blocks.induct) auto

lemma blocks_snoc:
  "length bs = 64 * n \<Longrightarrow> length x = 64 \<Longrightarrow> blocks (Suc n) (bs @ x @ y) = blocks n bs @ [x]"
  by (induction n bs rule: blocks.induct) auto

lemma blocks_take_Suc:
  assumes "64 * Suc n \<le> length bs"
  shows "blocks (Suc n) bs = blocks n bs @ [take 64 (drop (64 * n) bs)]"
proof -
  have "blocks (Suc n) (take (64 * n) bs @ take 64 (drop (64 * n) bs) @ drop (64 * n + 64) bs) =
    blocks n (take (64 * n) bs) @ [take 64 (drop (64 * n) bs)]"
    using assms by (intro blocks_snoc) auto
  moreover have "take (64 * n) bs @ take 64 (drop (64 * n) bs) @ drop (64 * n + 64) bs = bs"
    by (metis append_take_drop_id drop_drop add.commute)
  moreover have "blocks n (take (64 * n) bs @ drop (64 * n) bs) = blocks n (take (64 * n) bs)"
    using assms by (intro blocks_append) auto
  ultimately show ?thesis by simp
qed
section \<open>Absorbing a message\<close>

text \<open>What the context holds after the bytes of a message went through \<open>update\<close>.\<close>

definition absorbed :: "SHA256_CTX \<Rightarrow> byte list \<Rightarrow> bool" where
  "absorbed ctx msg \<longleftrightarrow>
     (let q = length msg div 64 in
      length (data ctx) = 64 \<and> datalen ctx = length msg mod 64 \<and>
      bitlen ctx = of_nat (512 * q) \<and> state ctx = foldl compress H0 (blocks q msg) \<and>
      take (length msg mod 64) (data ctx) = drop (64 * q) msg)"

lemma absorbed_init: "length (data ctx) = 64 \<Longrightarrow> absorbed (sha256_init ctx) []"
  by (simp add: absorbed_def sha256_init_def H0_eq)

lemma absorbed_byte:
  assumes "absorbed ctx msg"
  shows "absorbed (update_byte b ctx) (msg @ [b])"
proof -
  define q r where "q = length msg div 64" and "r = length msg mod 64"
  have len: "length msg = 64 * q + r" "r < 64"
    by (simp_all add: q_def r_def)
  have ctx: "length (data ctx) = 64" "datalen ctx = r" "bitlen ctx = of_nat (512 * q)"
    "state ctx = foldl compress H0 (blocks q msg)" "take r (data ctx) = drop (64 * q) msg"
    using assms by (simp_all add: absorbed_def q_def r_def Let_def)
  have buf: "take (Suc r) ((data ctx)[r := b]) = drop (64 * q) msg @ [b]"
    using ctx len by (simp add: take_Suc_conv_app_nth)
  show ?thesis
  proof (cases "r = 63")
    case True
    then have q': "length (msg @ [b]) div 64 = Suc q" "length (msg @ [b]) mod 64 = 0"
      using len by simp_all
    have full: "(data ctx)[r := b] = drop (64 * q) msg @ [b]"
      using buf ctx True by simp
    have "blocks (Suc q) (msg @ [b]) = blocks q msg @ [drop (64 * q) msg @ [b]]"
      using len True by (subst blocks_take_Suc) (simp_all add: blocks_append)
    then show ?thesis
      using ctx len True q' full
      by (simp add: absorbed_def update_byte_def Let_def transform_compress)
  next
    case False
    then have q': "length (msg @ [b]) div 64 = q" "length (msg @ [b]) mod 64 = Suc r"
      using len by (simp_all add: mod_Suc)
    show ?thesis
      using ctx len False q' buf
      by (simp add: absorbed_def update_byte_def Let_def blocks_append)
  qed
qed

lemma absorbed_update: "absorbed ctx msg \<Longrightarrow> absorbed (sha256_update ctx bs) (msg @ bs)"
proof (induction bs arbitrary: ctx msg)
  case (Cons b bs)
  then have "absorbed (sha256_update (update_byte b ctx) bs) ((msg @ [b]) @ bs)"
    by (intro Cons.IH absorbed_byte)
  then show ?case
    by (simp add: sha256_update_def)
qed (simp add: sha256_update_def)

lemma length_be_bytes [simp]: "length (be_bytes n v) = n"
  by (simp add: be_bytes_def)

lemma length_compress [simp]: "length (compress H d) = 8"
  by (simp add: compress_def add_vars_def split: prod.splits)

lemma length_foldl_compress: "length H = 8 \<Longrightarrow> length (foldl compress H bs) = 8"
  by (induction bs arbitrary: H) simp_all

lemma blocks_last:
  assumes "length a = 64 * q" "length x = 64"
  shows "foldl compress H0 (blocks (Suc q) (a @ x)) = compress (foldl compress H0 (blocks q a)) x"
  using blocks_snoc[of a q x "[]"] assms by simp

text \<open>Padding: one block when the length still fits behind the message, two otherwise.\<close>

lemma final_state:
  assumes "absorbed ctx msg"
  shows "state (fst (sha256_final ctx hash)) =
    foldl compress H0 (blocks (length (msg @ padding (length msg)) div 64) (msg @ padding (length msg)))"
proof -
  define q r n where "q = length msg div 64" and "r = length msg mod 64" and "n = length msg"
  have len: "n = 64 * q + r" "r < 64"
    by (simp_all add: q_def r_def n_def)
  define a t where "a = take (64 * q) msg" and "t = drop (64 * q) msg"
  have msg: "msg = a @ t" and la: "length a = 64 * q" "length t = r"
    using len by (simp_all add: a_def t_def n_def)
  have ctx: "length (data ctx) = 64" "datalen ctx = r" "bitlen ctx = of_nat (512 * q)"
    "state ctx = foldl compress H0 (blocks q a)" "take r (data ctx) = t"
    using assms la by (simp_all add: absorbed_def q_def[symmetric] r_def[symmetric] t_def Let_def)
      (simp add: msg blocks_append)
  have bits: "of_nat (512 * q) + of_nat r * 8 = (of_nat (8 * n) :: 64 word)"
    by (simp add: len)
  define lb where "lb = be_bytes 8 (8 * n)"
  have upd: "take (Suc r) ((data ctx)[r := 0x80]) = t @ [0x80]"
    using ctx len by (simp add: take_Suc_conv_app_nth)
  show ?thesis
  proof (cases "r < 56")
    case True
    define d where "d = t @ [0x80] @ replicate (55 - r) 0 @ lb"
    define f where "f = fill_zero (Suc r) 56 ((data ctx)[r := 0x80])"
    have "f = (t @ [0x80] @ replicate (55 - r) 0) @ drop 56 ((data ctx)[r := 0x80])"
      using True ctx upd unfolding f_def by (subst fill_zero_eq) simp_all
    moreover have "length (t @ [0x80] @ replicate (55 - r) 0) = 56"
      using True la by simp
    ultimately have "take 56 f = t @ [0x80] @ replicate (55 - r) 0"
      by (metis append_eq_conv_conj)
    moreover have "length f = 64"
      using ctx by (simp add: f_def)
    ultimately have "store_bitlen (of_nat (8 * n)) f = d"
      by (simp only: store_bitlen_eq d_def lb_def append_assoc)
    moreover have d64: "length d = 64"
      using True la by (simp add: d_def lb_def)
    ultimately have "state (fst (sha256_final ctx hash)) = compress (foldl compress H0 (blocks q a)) d"
      using True ctx bits
      by (simp add: sha256_final_def sha256_pad_def Let_def transform_compress f_def)
    moreover have "pad_zeros n = 55 - r"
    proof -
      have "119 - r = (55 - r) + 64" using True by simp
      then have "(119 - r) mod 64 = 55 - r"
        by (simp only: mod_add_self2) simp
      then show ?thesis by (simp only: pad_zeros_def n_def r_def[symmetric])
    qed
    then have "msg @ padding (length msg) = a @ d"
      by (simp add: padding_def msg d_def lb_def n_def)
    ultimately show ?thesis
      using la d64 blocks_last[OF la(1) d64] by simp
  next
    case False
    define d e where "d = t @ [0x80] @ replicate (63 - r) 0" and "e = replicate 56 0 @ lb"
    have d64: "length d = 64" "length e = 64"
      using False len la by (simp_all add: d_def e_def lb_def)
    have "fill_zero (Suc r) 64 ((data ctx)[r := 0x80]) = d"
      using False ctx len upd by (subst fill_zero_eq) (simp_all add: d_def)
    moreover have "store_bitlen (of_nat (8 * n)) (fill_zero 0 56 d) = e"
      using d64 by (subst store_bitlen_eq) (simp_all add: e_def lb_def fill_zero_eq)
    ultimately have "state (fst (sha256_final ctx hash)) =
      compress (compress (foldl compress H0 (blocks q a)) d) e"
      using False ctx bits d64
      by (simp add: sha256_final_def sha256_pad_def Let_def transform_compress)
    moreover have "pad_zeros n = (63 - r) + 56"
      using False len by (simp add: pad_zeros_def n_def r_def[symmetric])
    then have "msg @ padding (length msg) = (a @ d) @ e"
      by (simp add: padding_def msg d_def e_def lb_def n_def replicate_add)
    moreover have "length (a @ d) = 64 * Suc q"
      using la d64 by simp
    ultimately show ?thesis
      using la d64 blocks_last[OF la(1) d64(1)] blocks_last[of "a @ d" "Suc q" e] by simp
  qed
qed


section \<open>The digest\<close>

lemma length_fold_update [simp]:
  "length (fold (\<lambda>j h. h[p j := f j]) js h) = length h"
  by (induction js arbitrary: h) auto

lemma nth_fold_update:
  assumes "i < 4" "p < length h"
  shows "fold (\<lambda>j h. h[i + j * 4 := f j]) [0..<n] h ! p =
    (if p mod 4 = i \<and> p div 4 < n then f (p div 4) else h ! p)"
proof (induction n)
  case (Suc n)
  have "p = i + n * 4 \<longleftrightarrow> p mod 4 = i \<and> p div 4 = n"
    using assms by auto
  then show ?case
    using Suc assms by (auto simp: nth_list_update less_Suc_eq)
qed simp

lemma nth_concat_map4:
  assumes "\<And>j. length (f j) = 4"
  shows "p < 4 * n \<Longrightarrow> concat (map f [0..<n]) ! p = f (p div 4) ! (p mod 4)"
proof (induction n)
  case (Suc n)
  have len: "length (concat (map f [0..<n])) = 4 * n" for n
    using assms by (induction n) auto
  show ?case
  proof (cases "p < 4 * n")
    case False
    then have "p div 4 = n"
      using Suc.prems by (intro div_nat_eqI) auto
    moreover from this have "p mod 4 = p - 4 * n"
      using minus_mult_div_eq_mod[of p 4] by simp
    ultimately show ?thesis
      using False by (simp add: nth_append len)
  qed (use Suc in \<open>simp add: nth_append len\<close>)
qed simp

lemma store_digest_nth:
  assumes "length hash = 32" "p < 32"
  shows "store_digest s hash ! p = be_bytes 4 (unat (s ! (p div 4))) ! (p mod 4)"
proof -
  define g where "g i j = (ucast (drop_bit (24 - i * 8) (s ! j) AND 0xff) :: byte)" for i j
  define G where "G i = fold (\<lambda>j (h :: byte list). h[i + j * 4 := g i j]) [0..<8]" for i
  have G: "length (G i h) = length h"
    "i < 4 \<Longrightarrow> p < length h \<Longrightarrow> G i h ! p = (if p mod 4 = i \<and> p div 4 < 8 then g i (p div 4) else h ! p)"
    for i and h :: "byte list"
    by (simp_all only: G_def length_fold_update nth_fold_update)
  have "[0..<4] = [0, 1, 2, 3 :: nat]"
    by (simp add: upt_rec)
  then have "store_digest s hash = fold G [0, 1, 2, 3] hash"
    by (simp only: store_digest_def g_def G_def [abs_def])
  moreover have "p div 4 < 8"
    using assms by simp
  moreover have mod4: "p mod 4 = 0 \<or> p mod 4 = 1 \<or> p mod 4 = 2 \<or> p mod 4 = 3"
    by presburger
  ultimately have "store_digest s hash ! p = g (p mod 4) (p div 4)"
    using assms by (elim disjE) (simp_all add: G)
  then show ?thesis
    using mod4 by (auto simp: g_def ucast_byte be_bytes_def)
qed

lemma store_digest_eq:
  assumes "length hash = 32" "length s = 8"
  shows "store_digest s hash = concat (map (\<lambda>h. be_bytes 4 (unat h)) s)"
proof (rule nth_equalityI)
  have "length (fold (\<lambda>i. fold (\<lambda>j h. h[i + j * 4 := g i j]) js) is h) = length h"
    for g js "is" and h :: "byte list"
    by (induction "is" arbitrary: h) simp_all
  then have len: "length (store_digest s hash) = 32"
    using assms by (simp only: store_digest_def)
  have s: "concat (map (\<lambda>h. be_bytes 4 (unat h)) s) = concat (map (\<lambda>j. be_bytes 4 (unat (s ! j))) [0..<8])"
    using assms by (metis (no_types, lifting) map_map comp_def map_cong map_nth)
  show "length (store_digest s hash) = length (concat (map (\<lambda>h. be_bytes 4 (unat h)) s))"
    using assms len by (simp add: length_concat comp_def sum_list_triv)
  fix p assume "p < length (store_digest s hash)"
  then show "store_digest s hash ! p = concat (map (\<lambda>h. be_bytes 4 (unat h)) s) ! p"
    unfolding s using assms len by (subst nth_concat_map4) (simp_all add: store_digest_nth)
qed

lemma sha256_in_spec:
  assumes "length (data ctx) = 64" "length hash = 32"
  shows "sha256_in ctx hash bs = sha256_spec bs"
proof -
  have "absorbed (sha256_update (sha256_init ctx) bs) bs"
    using absorbed_update[OF absorbed_init[OF assms(1)], of bs] by simp
  then have "state (fst (sha256_final (sha256_update (sha256_init ctx) bs) hash)) =
    foldl compress H0 (blocks (length (bs @ padding (length bs)) div 64) (bs @ padding (length bs)))"
    by (rule final_state)
  moreover have "snd (sha256_final c hash) = store_digest (state (fst (sha256_final c hash))) hash" for c
    by (simp add: sha256_final_def Let_def)
  ultimately show ?thesis
    using assms by (simp add: sha256_in_def sha256_spec_def Let_def store_digest_eq length_foldl_compress H0_eq)
qed

lemma sha256_eq_spec: "sha256 bs = sha256_spec bs"
  by (simp add: sha256_def sha256_in_spec)

lemma length_sha256 [simp]: "length (sha256 bs) = 32"
  by (simp add: sha256_eq_spec sha256_spec_def Let_def length_concat comp_def sum_list_triv
      length_foldl_compress H0_eq)

section \<open>Properties\<close>

text \<open>
  C6: For every message, the SHA-256 of \<open>crypto.c\<close> returns the digest FIPS 180-4 defines (pad,
  split into blocks, compress from the initial hash value, with constants taken from the roots of the
  first primes), whatever the uninitialised context
  buffer and the caller's output array contain.
\<close>

theorem sha256_meets_fips_180_4:
  assumes "length (data ctx) = 64" "length hash = 32"
  shows "sha256_in ctx hash bs = sha256_spec bs"
  using assms by (rule sha256_in_spec)

theorem sha256_meets_fips_180_4_witness:
  "sha256_in \<lparr>data = replicate 64 0xAA, datalen = 7, bitlen = 9, state = []\<rparr> (replicate 32 1)
     (bytes_of ''abc'') = sha256_spec (bytes_of ''abc'')"
  by (rule sha256_meets_fips_180_4) simp_all

text \<open>
  The update loop is incremental: feeding a message in two pieces leaves the same state as
  feeding it at once, and after any pieces the context holds the compression of the whole blocks
  absorbed, the rest of the message in its buffer, and the number of bits compressed.
\<close>

theorem sha256_update_streams:
  assumes "length (data ctx) = 64"
  shows "sha256_update (sha256_update (sha256_init ctx) a) b = sha256_update (sha256_init ctx) (a @ b)
    \<and> absorbed (sha256_update (sha256_update (sha256_init ctx) a) b) (a @ b)"
proof -
  have "sha256_update (sha256_update c a) b = sha256_update c (a @ b)" for c
    by (simp add: sha256_update_def)
  then show ?thesis
    using absorbed_update[OF absorbed_init[OF assms], of "a @ b"] by simp
qed

theorem sha256_update_streams_witness:
  "absorbed (sha256_update (sha256_update (sha256_init
     \<lparr>data = replicate 64 0, datalen = 0, bitlen = 0, state = []\<rparr>) [1]) [2]) [1, 2]"
  using sha256_update_streams
    [of "\<lparr>data = replicate 64 0, datalen = 0, bitlen = 0, state = []\<rparr>" "[1]" "[2]",
      THEN conjunct2] by simp

end
