(* ===== verification/Disk.thy ===== *)
theory Disk
  imports Prelude
begin

text \<open>
  The operating system as the file-management program (\<open>task3_filesystem_security\<close>) sees it:
  files as byte strings, \<open>fopen\<close> in its three modes, \<open>fread\<close> of fixed-size records,
  \<open>remove\<close>, \<open>mkdir\<close>, the process's \<open>rand\<close> sequence and its clock. What the
  environment decides (whether an \<open>fopen\<close> or a \<open>malloc\<close> succeeds, the values of
  \<open>rand\<close>, the formatted local time) are fields of the world that no operation changes, so
  every theorem holds for every environment.

  A path is resolved to its components, with \<open>.\<close>, empty components and \<open>..\<close> treated
  as the system treats them, because file names typed by a user become part of a path. The paths are
  those of POSIX: only \<open>/\<close> separates components. (In the \<open>_WIN32\<close> build of \<open>storage_path\<close> a backslash
  separates them too, so there names with a backslash leave the storage directory as well.)
\<close>

section \<open>Paths\<close>

fun split_on :: "char \<Rightarrow> string \<Rightarrow> string list" where
  "split_on d [] = [[]]"
| "split_on d (c # cs) =
     (if c = d then [] # split_on d cs
      else (case split_on d cs of [] \<Rightarrow> [[c]] | w # ws \<Rightarrow> (c # w) # ws))"

text \<open>The stack of components walked so far, innermost first.\<close>

fun walk :: "string \<Rightarrow> string list \<Rightarrow> string list" where
  "walk seg acc =
     (if seg = '''' \<or> seg = ''.'' then acc
      else if seg = ''..'' then
        (case acc of [] \<Rightarrow> [''..''] | d # ds \<Rightarrow> if d = ''..'' then ''..'' # acc else ds)
      else seg # acc)"

type_synonym path = "string list"

definition resolve :: "string \<Rightarrow> path" where
  "resolve p = rev (fold walk (split_on (CHR ''/'') p) [])"

text \<open>A name that is one ordinary path component.\<close>

definition plain_name :: "string \<Rightarrow> bool" where
  "plain_name n \<longleftrightarrow> n \<noteq> '''' \<and> n \<noteq> ''.'' \<and> n \<noteq> ''..'' \<and> list_all (\<lambda>c. c \<noteq> CHR ''/'') n"

lemma split_on_no_sep: "list_all (\<lambda>c. c \<noteq> d) n \<Longrightarrow> split_on d n = [n]"
  by (induction n) auto

lemma split_on_not_Nil: "split_on d p \<noteq> []"
  by (induction p) (auto split: list.splits)

lemma split_on_append:
  "list_all (\<lambda>c. c \<noteq> d) a \<Longrightarrow> split_on d (a @ d # b) = a # split_on d b"
  by (induction a) auto

lemma resolve_plain: "plain_name n \<Longrightarrow> resolve n = [n]"
  by (simp add: resolve_def plain_name_def split_on_no_sep)

lemma resolve_dir_plain:
  assumes "plain_name d" "plain_name n"
  shows "resolve (d @ ''/'' @ n) = [d, n]"
  using assms by (simp add: resolve_def plain_name_def split_on_no_sep split_on_append)

section \<open>The world\<close>

record world =
  disk :: "path \<Rightarrow> string option"
  dirs :: "path set"
  can_read :: "string \<Rightarrow> bool"
  can_write :: "string \<Rightarrow> bool"
  can_alloc :: "nat \<Rightarrow> bool"
  clock :: string
  rand_seq :: "nat \<Rightarrow> nat"
  rand_pos :: nat
  stderr :: "string list"

text \<open>
  \<open>fopen(path, "rb")\<close> gives the content of the file; \<open>"wb"\<close> leaves it empty, \<open>"ab"\<close>
  leaves what it has. \<open>fwrite\<close> on a stream opened in one of the writing modes puts its bytes
  at the end; once a stream is open, writing and closing it succeed.
\<close>

definition fopen_r :: "world \<Rightarrow> string \<Rightarrow> string option" where
  "fopen_r w p = (if can_read w p then disk w (resolve p) else None)"

definition fopen_w :: "world \<Rightarrow> string \<Rightarrow> world option" where
  "fopen_w w p =
     (if can_write w p \<and> resolve p \<notin> dirs w
      then Some (w\<lparr>disk := (disk w)(resolve p \<mapsto> [])\<rparr>) else None)"

definition content :: "world \<Rightarrow> path \<Rightarrow> string" where
  "content w r = (case disk w r of None \<Rightarrow> [] | Some bs \<Rightarrow> bs)"

definition fopen_a :: "world \<Rightarrow> string \<Rightarrow> world option" where
  "fopen_a w p =
     (if can_write w p \<and> resolve p \<notin> dirs w
      then Some (w\<lparr>disk := (disk w)(resolve p \<mapsto> content w (resolve p))\<rparr>) else None)"

definition fwrite :: "world \<Rightarrow> string \<Rightarrow> string \<Rightarrow> world" where
  "fwrite w p bs = w\<lparr>disk := (disk w)(resolve p \<mapsto> content w (resolve p) @ bs)\<rparr>"

definition remove_file :: "world \<Rightarrow> string \<Rightarrow> world" where
  "remove_file w p =
     (if can_write w p \<and> resolve p \<notin> dirs w then w\<lparr>disk := (disk w)(resolve p := None)\<rparr> else w)"

definition mkdir :: "world \<Rightarrow> string \<Rightarrow> world" where
  "mkdir w p = (if disk w (resolve p) = None then w\<lparr>dirs := insert (resolve p) (dirs w)\<rparr> else w)"

definition rand :: "world \<Rightarrow> nat \<times> world" where
  "rand w = (rand_seq w (rand_pos w), w\<lparr>rand_pos := Suc (rand_pos w)\<rparr>)"

text \<open>The world a program can tell apart from another by its environment only.\<close>

definition same_env :: "world \<Rightarrow> world \<Rightarrow> bool" where
  "same_env w w' \<longleftrightarrow>
     can_read w' = can_read w \<and> can_write w' = can_write w \<and> can_alloc w' = can_alloc w \<and>
     clock w' = clock w \<and> rand_seq w' = rand_seq w"

lemma same_env_refl [simp]: "same_env w w"
  by (simp add: same_env_def)

lemma same_env_trans [trans]: "same_env a b \<Longrightarrow> same_env b c \<Longrightarrow> same_env a c"
  by (simp add: same_env_def)

lemma content_Some [simp]: "disk w r = Some bs \<Longrightarrow> content w r = bs"
  by (simp add: content_def)

lemma content_None [simp]: "disk w r = None \<Longrightarrow> content w r = []"
  by (simp add: content_def)

lemma fwrite_twice [simp]: "fwrite (fwrite w p a) p b = fwrite w p (a @ b)"
  by (simp add: fwrite_def)

text \<open>A machine on which the program has never run and no call of the system fails.\<close>

definition fresh_world :: world where
  "fresh_world = \<lparr>disk = Map.empty, dirs = {}, can_read = (\<lambda>_. True), can_write = (\<lambda>_. True),
     can_alloc = (\<lambda>_. True), clock = ''2026-01-31 12:00:00'', rand_seq = (\<lambda>i. 7 * i),
     rand_pos = 0, stderr = []\<rparr>"

section \<open>Files of fixed-size records\<close>

text \<open>
  The records a loop \<open>while (fread(&r, size, 1, fp) == 1)\<close> sees: consecutive blocks of
  \<open>size\<close> bytes, a shorter rest at the end of the file being ignored.
\<close>

function fread_blocks :: "nat \<Rightarrow> string \<Rightarrow> string list" where
  "fread_blocks n bs =
     (if n = 0 \<or> length bs < n then [] else take n bs # fread_blocks n (drop n bs))"
  by pat_completeness auto
termination
  by (relation "measure (\<lambda>(n, bs). length bs)") auto

declare fread_blocks.simps [simp del]

lemma fread_blocks_Nil [simp]: "fread_blocks n [] = []"
  by (subst fread_blocks.simps) auto

lemma fread_blocks_Cons:
  "0 < n \<Longrightarrow> length a = n \<Longrightarrow> fread_blocks n (a @ bs) = a # fread_blocks n bs"
  by (subst fread_blocks.simps) auto

lemma length_fread_blocks: "bs' \<in> set (fread_blocks n bs) \<Longrightarrow> length bs' = n"
proof (induction n bs rule: fread_blocks.induct)
  case (1 n bs)
  then show ?case
    by (subst (asm) fread_blocks.simps) (auto split: if_splits)
qed

lemma fread_blocks_append:
  "0 < n \<Longrightarrow> n dvd length a \<Longrightarrow> fread_blocks n (a @ b) = fread_blocks n a @ fread_blocks n b"
proof (induction n a rule: fread_blocks.induct)
  case (1 n a)
  show ?case
  proof (cases "a = []")
    case False
    with "1.prems" have le: "n \<le> length a"
      by (auto dest: dvd_imp_le)
    then obtain h t where a: "a = h @ t" and h: "length h = n"
      by (metis append_take_drop_id length_take min.absorb2)
    have "n dvd length t"
      using "1.prems" a h by simp
    moreover have "drop n a = t"
      using a h by simp
    ultimately have "fread_blocks n (t @ b) = fread_blocks n t @ fread_blocks n b"
      using "1.IH" "1.prems" le by (simp add: not_less)
    then show ?thesis
      using a h "1.prems" by (simp add: fread_blocks_Cons)
  qed simp
qed

text \<open>
  The contract between the layout of a record and the code that keeps a file of such records:
  every block of the right size is a record and the two directions are inverse.
\<close>

locale record_file =
  fixes enc :: "'r \<Rightarrow> string" and dec :: "string \<Rightarrow> 'r" and size :: nat and wf :: "'r \<Rightarrow> bool"
  assumes size_pos: "0 < size"
    and enc_len: "wf r \<Longrightarrow> length (enc r) = size"
    and dec_enc: "wf r \<Longrightarrow> dec (enc r) = r"
    and wf_dec: "length b = size \<Longrightarrow> wf (dec b)"
    and enc_dec: "length b = size \<Longrightarrow> enc (dec b) = b"
begin

lemma wf_read: "r \<in> set (map dec (fread_blocks size bs)) \<Longrightarrow> wf r"
  by (auto dest: length_fread_blocks intro: wf_dec)

lemma concat_len: "list_all wf rs \<Longrightarrow> size dvd length (concat (map enc rs))"
  by (induction rs) (auto simp: enc_len)

lemma read_concat: "list_all wf rs \<Longrightarrow> map dec (fread_blocks size (concat (map enc rs))) = rs"
  by (induction rs) (auto simp: enc_len dec_enc size_pos fread_blocks_Cons)

lemma read_append:
  assumes "size dvd length bs" "wf r"
  shows "map dec (fread_blocks size (bs @ enc r)) = map dec (fread_blocks size bs) @ [r]"
proof -
  have "fread_blocks size (enc r) = [enc r]"
    using assms fread_blocks_Cons[OF size_pos, of "enc r" "[]"] by (simp add: enc_len)
  then show ?thesis
    using assms by (simp add: fread_blocks_append size_pos dec_enc)
qed

lemma write_read:
  assumes "size dvd length bs"
  shows "concat (map enc (map dec (fread_blocks size bs))) = bs"
  using assms
proof (induction bs rule: length_induct)
  case (1 bs)
  show ?case
  proof (cases "bs = []")
    case False
    then have le: "size \<le> length bs"
      using "1.prems" by (auto dest: dvd_imp_le)
    have "concat (map enc (map dec (fread_blocks size (drop size bs)))) = drop size bs"
      using "1" le size_pos by simp
    then show ?thesis
      using le size_pos by (subst fread_blocks.simps) (simp add: enc_dec)
  qed simp
qed

end

end
