(* ===== verification/Crypto.thy ===== *)
theory Crypto
  imports Sha256_Correct Disk
begin

text \<open>
  The rest of \<open>crypto.c\<close>: salts from the process's \<open>rand\<close> sequence, salted password hashes,
  the XOR cipher with its repeating 32-byte key, and hexadecimal output. The cipher's laws are
  stated once, for any cipher that XORs a position-dependent key stream (\<open>keystream_cipher\<close>),
  and read off its interpretation.
\<close>

unbundle bit_operations_syntax

definition SALT_LEN :: nat where "SALT_LEN = 16"
definition HASH_LEN :: nat where "HASH_LEN = 32"
definition MAX_PASSWORD :: nat where "MAX_PASSWORD = 64"

section \<open>Salts and password hashes\<close>

fun salt_loop :: "nat \<Rightarrow> world \<Rightarrow> byte list \<times> world" where
  "salt_loop 0 w = ([], w)"
| "salt_loop (Suc n) w =
     (let (r, w1) = rand w; (bs, w2) = salt_loop n w1 in (of_nat (r mod 256) # bs, w2))"

definition generate_salt :: "world \<Rightarrow> byte list \<times> world" where
  "generate_salt w = salt_loop SALT_LEN w"

text \<open>
  \<open>hash_password\<close> copies the password behind the salt into a buffer of
  \<open>SALT_LEN + MAX_PASSWORD\<close> bytes without checking its length; \<open>None\<close> is the write beyond the
  buffer, whose effect C does not define.
\<close>

definition hash_password :: "string \<Rightarrow> byte list \<Rightarrow> byte list option" where
  "hash_password password salt =
     (let pass_len = length password in
      if SALT_LEN + pass_len \<le> SALT_LEN + MAX_PASSWORD
      then Some (sha256 (take SALT_LEN salt @ bytes_of password)) else None)"

lemma salt_loop_shape:
  "length (fst (salt_loop n w)) = n \<and> disk (snd (salt_loop n w)) = disk w \<and>
   dirs (snd (salt_loop n w)) = dirs w \<and> stderr (snd (salt_loop n w)) = stderr w \<and>
   same_env w (snd (salt_loop n w))"
  by (induction n arbitrary: w) (simp_all add: rand_def Let_def same_env_def split_beta)

lemma generate_salt_world [world_simps]:
  "length (fst (generate_salt w)) = SALT_LEN"
  "disk (snd (generate_salt w)) = disk w" "dirs (snd (generate_salt w)) = dirs w"
  "stderr (snd (generate_salt w)) = stderr w" "same_env w (snd (generate_salt w))"
  using salt_loop_shape[of SALT_LEN w] by (simp_all add: generate_salt_def)

lemma hash_password_None: "hash_password p s = None \<longleftrightarrow> MAX_PASSWORD < length p"
  by (simp add: hash_password_def Let_def not_le)

lemma length_hash_password: "hash_password p s = Some h \<Longrightarrow> length h = HASH_LEN"
  by (auto simp: hash_password_def HASH_LEN_def Let_def split: if_splits)

section \<open>The cipher\<close>

definition xor_cipher :: "byte list \<Rightarrow> nat \<Rightarrow> string \<Rightarrow> byte list" where
  "xor_cipher buffer len passphrase =
     (let key = sha256 (bytes_of passphrase)
      in fold (\<lambda>i b. b[i := b ! i XOR key ! (i mod HASH_LEN)]) [0..<len] buffer)"

locale keystream_cipher =
  fixes ks :: "'k \<Rightarrow> nat \<Rightarrow> byte" and crypt :: "'k \<Rightarrow> byte list \<Rightarrow> byte list"
  assumes crypt_len: "length (crypt p b) = length b"
    and crypt_nth: "i < length b \<Longrightarrow> crypt p b ! i = b ! i XOR ks p i"
begin

lemma crypt_two_keys: "i < length b \<Longrightarrow> crypt q (crypt p b) ! i = b ! i XOR ks p i XOR ks q i"
  by (simp add: crypt_nth crypt_len xor.assoc)

lemma crypt_inverse: "crypt p (crypt p b) = b"
  by (rule nth_equalityI) (simp_all add: crypt_len crypt_nth xor.assoc)

lemma crypt_inj: "crypt p a = crypt p b \<longleftrightarrow> a = b"
  by (metis crypt_inverse)

text \<open>Deciphering with another key gives the text back exactly when the two key streams agree on it.\<close>

lemma crypt_wrong_key:
  "crypt q (crypt p b) = b \<longleftrightarrow> (\<forall>i < length b. ks p i = ks q i)"
proof -
  have cancel: "(x XOR y XOR z = x) = (y = z)" for x y z :: byte
    by (metis xor.assoc xor.left_neutral xor_self_eq)
  show ?thesis
    by (auto simp: list_eq_iff_nth_eq crypt_len crypt_two_keys cancel)
qed

lemma crypt_take: "crypt p (take k b) = take k (crypt p b)"
  by (rule nth_equalityI) (simp_all add: crypt_len crypt_nth)

text \<open>A piece ciphered on its own, from position 0, and put behind ciphered text.\<close>

lemma crypt_pieces_nth:
  assumes "i < length b"
  shows "crypt p (crypt p a @ crypt p b) ! (length a + i) = b ! i XOR ks p i XOR ks p (length a + i)"
  using assms by (simp add: crypt_nth crypt_len nth_append xor.assoc)

lemma crypt_pieces_prefix: "take (length a) (crypt p (crypt p a @ c)) = a"
  by (rule nth_equalityI) (simp_all add: crypt_len crypt_nth nth_append xor.assoc)

lemma crypt_pieces:
  "crypt p (crypt p a @ crypt p b) = a @ b \<longleftrightarrow> (\<forall>i < length b. ks p i = ks p (length a + i))"
proof -
  have cancel: "(x XOR y XOR z = x) = (y = z)" for x y z :: byte
    by (metis xor.assoc xor.left_neutral xor_self_eq)
  define l where "l = crypt p (crypt p a @ crypt p b)"
  have len: "length l = length a + length b"
    by (simp add: l_def crypt_len)
  have pre: "take (length a) l = a"
    by (simp only: l_def crypt_pieces_prefix)
  have "l = a @ b \<longleftrightarrow> drop (length a) l = b"
    by (metis append_eq_conv_conj pre)
  also have "\<dots> \<longleftrightarrow> (\<forall>i < length b. l ! (length a + i) = b ! i)"
    using len by (subst list_eq_iff_nth_eq) simp
  also have "\<dots> \<longleftrightarrow> (\<forall>i < length b. ks p i = ks p (length a + i))"
    by (auto simp only: l_def crypt_pieces_nth cancel)
  finally show ?thesis
    by (simp only: l_def)
qed

end

lemma xor_loop:
  "length (fold (\<lambda>i b. b[i := b ! i XOR f i]) [0..<len] b) = length b"
  "len \<le> length b \<Longrightarrow> i < length b \<Longrightarrow>
     fold (\<lambda>i b. b[i := b ! i XOR f i]) [0..<len] b ! i = (if i < len then b ! i XOR f i else b ! i)"
  for b :: "byte list"
  by (induction len) (auto simp: nth_list_update less_Suc_eq)

definition key_stream :: "string \<Rightarrow> nat \<Rightarrow> byte" where
  "key_stream p i = sha256 (bytes_of p) ! (i mod HASH_LEN)"

interpretation xc: keystream_cipher key_stream "\<lambda>p b. xor_cipher b (length b) p"
  by unfold_locales (simp_all add: xor_cipher_def key_stream_def Let_def xor_loop)

lemma length_xor_cipher [simp]: "length (xor_cipher b n p) = length b"
  by (simp add: xor_cipher_def Let_def xor_loop)

section \<open>Hexadecimal output\<close>

definition hex_digit :: "nat \<Rightarrow> char" where
  "hex_digit n = ''0123456789abcdef'' ! n"

text \<open>\<open>sprintf(out, "%02x", b)\<close>.\<close>

definition hex2 :: "byte \<Rightarrow> string" where
  "hex2 b = [hex_digit (unat b div 16), hex_digit (unat b mod 16)]"

definition bytes_to_hex :: "byte list \<Rightarrow> nat \<Rightarrow> string" where
  "bytes_to_hex bs len = concat (map (\<lambda>i. hex2 (bs ! i)) [0..<len])"

definition unhex_digit :: "char \<Rightarrow> nat" where
  "unhex_digit c = (if c \<in> set ''0123456789'' then of_char c - 48 else of_char c - 87)"

fun unhex :: "string \<Rightarrow> byte list" where
  "unhex (h # l # s) = of_nat (16 * unhex_digit h + unhex_digit l) # unhex s"
| "unhex s = []"

lemma unhex_hex_digit: "n < 16 \<Longrightarrow> unhex_digit (hex_digit n) = n"
  by (auto simp: less_Suc_eq numeral_eq_Suc hex_digit_def unhex_digit_def)

lemma bytes_to_hex_Cons: "bytes_to_hex (b # bs) (Suc n) = hex2 b @ bytes_to_hex bs n"
  by (simp only: bytes_to_hex_def upt_conv_Cons[OF zero_less_Suc] map_Suc_upt[symmetric] list.map map_map)
    (simp add: comp_def)

lemma unhex_hex2: "unhex (hex2 b @ s) = b # unhex s"
proof -
  have "unat b < 256"
    using unsigned_less[of b, where ?'a = nat] by simp
  then have "unat b div 16 < 16" by simp
  then show ?thesis
    by (simp add: hex2_def unhex_hex_digit)
qed

lemma unhex_bytes_to_hex: "unhex (bytes_to_hex bs (length bs)) = bs"
  by (induction bs) (simp_all add: bytes_to_hex_Cons unhex_hex2, simp add: bytes_to_hex_def)

end
