(* ===== verification/Common.thy ===== *)
theory Common
  imports Disk
begin

text \<open>
  \<open>common.h\<close>: the sizes, the file names and the two records kept on disk, \<open>User\<close> and
  \<open>FileMeta\<close>, with the layout a 64-bit little-endian compiler gives them (112 and 144 bytes; two
  bytes of padding stand between \<open>permissions\<close> and \<open>is_encrypted\<close>). A record read from
  a file is whatever bytes the file holds: only the lengths of the arrays are known.
\<close>

unbundle bit_operations_syntax

definition MAX_USERNAME :: nat where "MAX_USERNAME = 32"
definition MAX_GROUP :: nat where "MAX_GROUP = 32"
definition MAX_FILENAME :: nat where "MAX_FILENAME = 64"
definition MAX_LINE :: nat where "MAX_LINE = 512"
definition PERM_STRING_LEN :: nat where "PERM_STRING_LEN = 9"

lemmas size_defs [simp] =
  MAX_USERNAME_def MAX_GROUP_def MAX_FILENAME_def MAX_LINE_def PERM_STRING_LEN_def

definition USERS_DB :: string where "USERS_DB = ''users.dat''"
definition FILES_DB :: string where "FILES_DB = ''files_meta.dat''"
definition AUDIT_LOG :: string where "AUDIT_LOG = ''audit.log''"
definition STORAGE_DIR :: string where "STORAGE_DIR = ''storage''"

lemma resolve_db [simp]:
  "resolve USERS_DB = [''users.dat'']" "resolve FILES_DB = [''files_meta.dat'']"
  "resolve AUDIT_LOG = [''audit.log'']" "resolve STORAGE_DIR = [''storage'']"
  by (simp_all add: resolve_plain plain_name_def USERS_DB_def FILES_DB_def AUDIT_LOG_def STORAGE_DIR_def)

datatype PermType = PERM_READ | PERM_WRITE | PERM_EXECUTE

record User =
  u_username :: string
  u_group :: string
  u_salt :: "byte list"
  u_hash :: "byte list"

record FileMeta =
  m_filename :: string
  m_owner :: string
  m_group :: string
  m_permissions :: string
  m_pad :: string
  m_is_encrypted :: word32

section \<open>Layout of a user record\<close>

definition wf_user :: "User \<Rightarrow> bool" where
  "wf_user u \<longleftrightarrow> length (u_username u) = 32 \<and> length (u_group u) = 32 \<and>
     length (u_salt u) = 16 \<and> length (u_hash u) = 32"

definition user_bytes :: "User \<Rightarrow> string" where
  "user_bytes u = u_username u @ u_group u @ chars_of (u_salt u) @ chars_of (u_hash u)"

definition user_of_bytes :: "string \<Rightarrow> User" where
  "user_of_bytes b = \<lparr>u_username = take 32 b, u_group = take 32 (drop 32 b),
     u_salt = bytes_of (take 16 (drop 64 b)), u_hash = bytes_of (take 32 (drop 80 b))\<rparr>"

lemma take_drop_join: "take m (drop k b) @ drop (k + m) b = drop k b"
  by (metis append_take_drop_id drop_drop add.commute)

lemma user_enc_dec:
  assumes "length b = 112"
  shows "user_bytes (user_of_bytes b) = b"
proof -
  have "take 32 (drop 80 b) = drop 80 b"
    using assms by simp
  then show ?thesis
    using take_drop_join[of 16 64 b] take_drop_join[of 32 32 b] take_drop_join[of 32 0 b]
    by (simp add: user_bytes_def user_of_bytes_def)
qed

lemma user_dec_enc: "wf_user u \<Longrightarrow> user_of_bytes (user_bytes u) = u"
  by (cases u) (simp add: wf_user_def user_bytes_def user_of_bytes_def)

lemma wf_user_dec: "length b = 112 \<Longrightarrow> wf_user (user_of_bytes b)"
  by (simp add: wf_user_def user_of_bytes_def)

lemma length_user_bytes: "wf_user u \<Longrightarrow> length (user_bytes u) = 112"
  by (simp add: wf_user_def user_bytes_def)

interpretation user_file: record_file user_bytes user_of_bytes 112 wf_user
  by unfold_locales (simp_all add: user_dec_enc wf_user_dec length_user_bytes user_enc_dec)

section \<open>Layout of a file's metadata\<close>

text \<open>A 32-bit \<open>int\<close> in memory, least significant byte first.\<close>

definition int_bytes :: "word32 \<Rightarrow> string" where
  "int_bytes n = chars_of [ucast n, ucast (drop_bit 8 n), ucast (drop_bit 16 n), ucast (drop_bit 24 n)]"

definition int_of_bytes :: "string \<Rightarrow> word32" where
  "int_of_bytes s =
     (let b = bytes_of s in
      ucast (b ! 0) OR push_bit 8 (ucast (b ! 1)) OR push_bit 16 (ucast (b ! 2)) OR
      push_bit 24 (ucast (b ! 3)))"

lemma length_int_bytes [simp]: "length (int_bytes n) = 4"
  by (simp add: int_bytes_def)

lemma int_of_bytes_int_bytes [simp]: "int_of_bytes (int_bytes n) = n"
proof (rule bit_word_eqI)
  fix i :: nat
  assume "i < LENGTH(32)"
  then consider "i < 8" | "8 \<le> i" "i < 16" | "16 \<le> i" "i < 24" | "24 \<le> i" "i < 32"
    by fastforce
  then show "bit (int_of_bytes (int_bytes n)) i = bit n i"
    by cases (auto simp: int_of_bytes_def int_bytes_def Let_def bit_simps)
qed

lemma int_bytes_int_of_bytes:
  assumes "length s = 4"
  shows "int_bytes (int_of_bytes s) = s"
proof -
  have byte: "bit (b :: byte) i \<Longrightarrow> i < 8" for b i
    using bit_imp_le_length[of b i] by simp
  obtain a b c d where s: "bytes_of s = [a, b, c, d]"
    using assms length_bytes_of[of s] by (auto simp: length_Suc_conv numeral_eq_Suc simp del: length_bytes_of)
  let ?n = "ucast a OR push_bit 8 (ucast b) OR push_bit 16 (ucast c) OR push_bit 24 (ucast d) :: word32"
  have "ucast ?n = a" "ucast (drop_bit 8 ?n) = b" "ucast (drop_bit 16 ?n) = c" "ucast (drop_bit 24 ?n) = d"
    by (rule bit_word_eqI; auto simp: bit_simps dest: byte)+
  then have "int_bytes (int_of_bytes s) = chars_of (bytes_of s)"
    by (simp add: int_of_bytes_def int_bytes_def s Let_def)
  then show ?thesis by simp
qed

definition wf_meta :: "FileMeta \<Rightarrow> bool" where
  "wf_meta m \<longleftrightarrow> length (m_filename m) = 64 \<and> length (m_owner m) = 32 \<and> length (m_group m) = 32 \<and>
     length (m_permissions m) = 10 \<and> length (m_pad m) = 2"

definition meta_bytes :: "FileMeta \<Rightarrow> string" where
  "meta_bytes m = m_filename m @ m_owner m @ m_group m @ m_permissions m @ m_pad m @
     int_bytes (m_is_encrypted m)"

definition meta_of_bytes :: "string \<Rightarrow> FileMeta" where
  "meta_of_bytes b = \<lparr>m_filename = take 64 b, m_owner = take 32 (drop 64 b),
     m_group = take 32 (drop 96 b), m_permissions = take 10 (drop 128 b),
     m_pad = take 2 (drop 138 b), m_is_encrypted = int_of_bytes (take 4 (drop 140 b))\<rparr>"

lemma meta_enc_dec:
  assumes "length b = 144"
  shows "meta_bytes (meta_of_bytes b) = b"
proof -
  have "take 4 (drop 140 b) = drop 140 b"
    using assms by simp
  then show ?thesis
    using assms take_drop_join[of 2 138 b] take_drop_join[of 10 128 b] take_drop_join[of 32 96 b]
      take_drop_join[of 32 64 b] take_drop_join[of 64 0 b]
    by (simp add: meta_bytes_def meta_of_bytes_def int_bytes_int_of_bytes)
qed

lemma meta_dec_enc: "wf_meta m \<Longrightarrow> meta_of_bytes (meta_bytes m) = m"
  by (cases m) (simp add: wf_meta_def meta_bytes_def meta_of_bytes_def)

lemma wf_meta_dec: "length b = 144 \<Longrightarrow> wf_meta (meta_of_bytes b)"
  by (simp add: wf_meta_def meta_of_bytes_def)

lemma length_meta_bytes: "wf_meta m \<Longrightarrow> length (meta_bytes m) = 144"
  by (simp add: wf_meta_def meta_bytes_def)

interpretation meta_file: record_file meta_bytes meta_of_bytes 144 wf_meta
  by unfold_locales (simp_all add: meta_dec_enc wf_meta_dec length_meta_bytes meta_enc_dec)

end
