(* ===== verification/Audit_Log.thy ===== *)
theory Audit_Log
  imports Common
begin

text \<open>
  \<open>audit.c\<close>: \<open>log_action\<close> appends one line to \<open>audit.log\<close>, or warns on
  \<open>stderr\<close> when the log cannot be opened. A \<open>NULL\<close> argument is \<open>None\<close>.
\<close>

definition log_line :: "string \<Rightarrow> string option \<Rightarrow> string option \<Rightarrow> string option \<Rightarrow> string option \<Rightarrow> string" where
  "log_line timestr username action target result =
     (let or_dash = (\<lambda>s. case s of None \<Rightarrow> ''-'' | Some t \<Rightarrow> t) in
      ''['' @ timestr @ ''] user='' @
      (case username of None \<Rightarrow> ''-'' | Some u \<Rightarrow> if u = [] then ''-'' else u) @
      '' action='' @ or_dash action @ '' target='' @ or_dash target @ '' result='' @ or_dash result @ [NL])"

definition log_action ::
  "world \<Rightarrow> string option \<Rightarrow> string option \<Rightarrow> string option \<Rightarrow> string option \<Rightarrow> world" where
  "log_action w username action target result =
     (case fopen_a w AUDIT_LOG of
        None \<Rightarrow> w\<lparr>stderr := stderr w @ [''WARNING: could not write to audit log!'' @ [NL]]\<rparr>
      | Some w1 \<Rightarrow> fwrite w1 AUDIT_LOG (log_line (clock w1) username action target result))"

text \<open>What a log entry leaves alone: every other file, the directories, the environment.\<close>

lemma log_action_disk [world_simps]:
  "r \<noteq> [''audit.log''] \<Longrightarrow> disk (log_action w u a t x) r = disk w r"
  by (auto simp: log_action_def fopen_a_def fwrite_def)

lemma log_action_env [world_simps]:
  "same_env w (log_action w u a t x)" "dirs (log_action w u a t x) = dirs w"
  "can_read (log_action w u a t x) = can_read w" "can_write (log_action w u a t x) = can_write w"
  "can_alloc (log_action w u a t x) = can_alloc w" "clock (log_action w u a t x) = clock w"
  by (auto simp: log_action_def fopen_a_def fwrite_def same_env_def)

definition log_open :: "world \<Rightarrow> bool" where
  "log_open w \<longleftrightarrow> can_write w AUDIT_LOG \<and> [''audit.log''] \<notin> dirs w"

lemma log_action_appends:
  "content (log_action w u a t x) [''audit.log''] =
     content w [''audit.log''] @ (if log_open w then log_line (clock w) u a t x else [])"
  by (auto simp: log_action_def log_open_def fopen_a_def fwrite_def content_def split: option.splits)

lemma log_action_stderr:
  "stderr (log_action w u a t x) =
     stderr w @ (if log_open w then [] else [''WARNING: could not write to audit log!'' @ [NL]])"
  by (auto simp: log_action_def log_open_def fopen_a_def fwrite_def)

end
