(* ===== verification/Auth.thy ===== *)
theory Auth
  imports Crypto Audit_Log
begin

text \<open>
  \<open>auth.c\<close>: registration and login over \<open>users.dat\<close>, a file of \<open>User\<close> records. Results
  are \<open>None\<close> where C's behaviour is undefined (a password longer than the buffer of
  \<open>hash_password\<close>); \<open>login_user\<close> returns the user it fills in when it returns 1.
\<close>

section \<open>The code\<close>

definition fread_users :: "string \<Rightarrow> User list" where
  "fread_users bs = map user_of_bytes (fread_blocks 112 bs)"

definition user_matches :: "string \<Rightarrow> User \<Rightarrow> bool" where
  "user_matches uname u = strncmp_eq MAX_USERNAME (u_username u) uname"

definition find_user :: "world \<Rightarrow> string \<Rightarrow> User option" where
  "find_user w uname =
     (case fopen_r w USERS_DB of None \<Rightarrow> None
      | Some bs \<Rightarrow> find (user_matches uname) (fread_users bs))"

definition bad_input :: "string option \<Rightarrow> string option \<Rightarrow> string option \<Rightarrow> bool" where
  "bad_input username password grp =
     (case (username, password, grp) of
        (Some u, Some p, Some g) \<Rightarrow>
          length u = 0 \<or> length u \<ge> MAX_USERNAME \<or> length p = 0 \<or> length p \<ge> MAX_PASSWORD \<or>
          length g \<ge> MAX_GROUP
      | _ \<Rightarrow> True)"

definition new_user :: "string \<Rightarrow> string \<Rightarrow> byte list \<Rightarrow> byte list \<Rightarrow> User" where
  "new_user uname grp slt h =
     \<lparr>u_username = strncpy (zeros MAX_USERNAME) uname (MAX_USERNAME - 1),
      u_group = strncpy (zeros MAX_GROUP) grp (MAX_GROUP - 1), u_salt = slt, u_hash = h\<rparr>"

definition register_user ::
  "world \<Rightarrow> string option \<Rightarrow> string option \<Rightarrow> string option \<Rightarrow> (bool \<times> world) option" where
  "register_user w username password grp =
     (let log = (\<lambda>w result. log_action w username (Some ''REGISTER'') username (Some result)) in
      if bad_input username password grp then Some (False, log w ''FAILED_INVALID_INPUT'')
      else if find_user w (the username) \<noteq> None then Some (False, log w ''FAILED_ALREADY_EXISTS'')
      else
        let (slt, w1) = generate_salt w in
        (case hash_password (the password) slt of None \<Rightarrow> None
         | Some h \<Rightarrow>
             let u = new_user (the username) (the grp) slt h in
             (case fopen_a w1 USERS_DB of
                None \<Rightarrow> Some (False, log w1 ''FAILED_IO_ERROR'')
              | Some w2 \<Rightarrow> Some (True, log (fwrite w2 USERS_DB (user_bytes u)) ''SUCCESS''))))"

definition login_user :: "world \<Rightarrow> string \<Rightarrow> string \<Rightarrow> (User option \<times> world) option" where
  "login_user w username password =
     (let log = (\<lambda>result. log_action w (Some username) (Some ''LOGIN'') (Some username) (Some result)) in
      (case find_user w username of
         None \<Rightarrow> Some (None, log ''FAILED_UNKNOWN_USER'')
       | Some u \<Rightarrow>
           (case hash_password password (u_salt u) of None \<Rightarrow> None
            | Some attempt_hash \<Rightarrow>
                if attempt_hash \<noteq> u_hash u then Some (None, log ''FAILED_WRONG_PASSWORD'')
                else Some (Some u, log ''SUCCESS''))))"

section \<open>The user file\<close>

definition users :: "world \<Rightarrow> User list" where
  "users w = fread_users (content w [''users.dat''])"

definition uname :: "User \<Rightarrow> string" where
  "uname u = cstr (u_username u)"

text \<open>The file opens, is nothing but records, and no two records have the same name.\<close>

definition users_open :: "world \<Rightarrow> bool" where
  "users_open w \<longleftrightarrow> can_read w USERS_DB \<and> can_write w USERS_DB \<and> [''users.dat''] \<notin> dirs w"

definition users_inv :: "world \<Rightarrow> bool" where
  "users_inv w \<longleftrightarrow> 112 dvd length (content w [''users.dat'']) \<and> distinct (map uname (users w))"

lemma wf_users: "u \<in> set (users w) \<Longrightarrow> wf_user u"
  using user_file.wf_read by (simp add: users_def fread_users_def)

lemma find_user_users: "can_read w USERS_DB \<Longrightarrow> find_user w n = find (user_matches n) (users w)"
  by (simp add: find_user_def fopen_r_def users_def content_def fread_users_def split: option.splits)

lemma user_matches_uname: "wf_user u \<Longrightarrow> length n \<le> 32 \<Longrightarrow> nonul n \<Longrightarrow> user_matches n u \<longleftrightarrow> uname u = n"
  using length_cstr[of "u_username u"]
  by (simp add: user_matches_def strncmp_eq_iff uname_def wf_user_def)

lemma find_user_uname:
  "can_read w USERS_DB \<Longrightarrow> length n \<le> 32 \<Longrightarrow> nonul n \<Longrightarrow>
   find_user w n = find (\<lambda>u. uname u = n) (users w)"
  by (simp add: find_user_users) (rule find_cong_on, simp add: user_matches_uname wf_users)

lemma users_cong: "disk w' [''users.dat''] = disk w [''users.dat''] \<Longrightarrow> users w' = users w"
  by (simp add: users_def content_def)

lemma find_user_cong:
  "disk w' [''users.dat''] = disk w [''users.dat''] \<Longrightarrow> can_read w' = can_read w \<Longrightarrow>
   find_user w' n = find_user w n"
  by (simp add: find_user_def fopen_r_def)

lemma wf_new_user: "length slt = 16 \<Longrightarrow> length h = 32 \<Longrightarrow> wf_user (new_user n g slt h)"
  by (simp add: wf_user_def new_user_def)

lemma uname_new_user: "nonul n \<Longrightarrow> length n < 32 \<Longrightarrow> uname (new_user n g slt h) = n"
  by (simp add: uname_def new_user_def cstr_strncpy_zeros)

section \<open>Registration\<close>

text \<open>The hash register stores and login recomputes.\<close>

definition salted_hash :: "byte list \<Rightarrow> string \<Rightarrow> byte list" where
  "salted_hash slt p = sha256 (slt @ bytes_of p)"

lemma hash_password_eq:
  "length slt = 16 \<Longrightarrow> hash_password p slt = (if length p \<le> 64 then Some (salted_hash slt p) else None)"
  by (simp add: hash_password_def salted_hash_def SALT_LEN_def MAX_PASSWORD_def)

definition valid_registration :: "string \<Rightarrow> string \<Rightarrow> string \<Rightarrow> bool" where
  "valid_registration n p g \<longleftrightarrow> nonul n \<and> nonul p \<and> nonul g \<and>
     0 < length n \<and> length n < 32 \<and> 0 < length p \<and> length p < 64 \<and> length g < 32"

lemma bad_input_valid [simp]: "valid_registration n p g \<Longrightarrow> \<not> bad_input (Some n) (Some p) (Some g)"
  by (auto simp: bad_input_def valid_registration_def MAX_PASSWORD_def)

lemma register_user_success:
  assumes "users_open w" "valid_registration n p g" "find_user w n = None"
    and u: "u = new_user n g (fst (generate_salt w)) (salted_hash (fst (generate_salt w)) p)"
  shows "\<exists>w'. register_user w (Some n) (Some p) (Some g) = Some (True, w') \<and> same_env w w' \<and>
      dirs w' = dirs w \<and>
      disk w' [''users.dat''] = Some (content w [''users.dat''] @ user_bytes u) \<and>
      (\<forall>r. r \<noteq> [''users.dat''] \<and> r \<noteq> [''audit.log''] \<longrightarrow> disk w' r = disk w r) \<and>
      content w' [''audit.log''] = content w [''audit.log''] @
        (if log_open w then log_line (clock w) (Some n) (Some ''REGISTER'') (Some n) (Some ''SUCCESS'')
         else [])"
proof -
  obtain slt w1 where s: "generate_salt w = (slt, w1)"
    by fastforce
  have w1: "length slt = 16" "disk w1 = disk w" "dirs w1 = dirs w" "same_env w w1"
    using generate_salt_world[of w] by (simp_all add: s SALT_LEN_def)
  then have env: "can_write w1 = can_write w" "clock w1 = clock w" "can_read w1 = can_read w"
    by (auto simp: same_env_def)
  define w3 where "w3 = w1\<lparr>disk := (disk w)([''users.dat''] \<mapsto> content w [''users.dat''] @ user_bytes u)\<rparr>"
  have "length p \<le> 64"
    using assms by (simp add: valid_registration_def)
  moreover have "fopen_a w1 USERS_DB \<noteq> None"
    using assms w1 env by (simp add: fopen_a_def users_open_def)
  ultimately have "register_user w (Some n) (Some p) (Some g) =
      Some (True, log_action w3 (Some n) (Some ''REGISTER'') (Some n) (Some ''SUCCESS''))"
    using assms s w1 env
    by (simp add: register_user_def hash_password_eq fopen_a_def fwrite_def users_open_def w3_def content_def)
  moreover have "same_env w w3" "dirs w3 = dirs w" "log_open w3 = log_open w" "clock w3 = clock w"
    "content w3 [''audit.log''] = content w [''audit.log'']"
    using w1 env by (auto simp: w3_def same_env_def log_open_def content_def)
  moreover from this have "same_env w (log_action w3 a b c d)" for a b c d
    using log_action_env(1) same_env_trans by blast
  ultimately show ?thesis
    by (simp add: log_action_env log_action_disk log_action_appends) (simp add: w3_def)
qed


lemma users_append:
  assumes "users_inv w" "wf_user u" "disk w' [''users.dat''] = Some (content w [''users.dat''] @ user_bytes u)"
  shows "users w' = users w @ [u]" "112 dvd length (content w' [''users.dat''])"
  using assms user_file.read_append[of "content w [''users.dat'']" u] length_user_bytes[of u]
  by (simp_all add: users_inv_def users_def fread_users_def)

text \<open>Every outcome but success leaves the user file as it was.\<close>

lemma register_user_cases:
  assumes "register_user w nn pp gg = Some (b, w')"
  obtains "\<not> b" "disk w' [''users.dat''] = disk w [''users.dat'']"
  | n p g where "b" "nn = Some n" "pp = Some p" "gg = Some g" "\<not> bad_input nn pp gg"
      "find_user w n = None" "length p \<le> 64"
      "disk w' [''users.dat''] = Some (content w [''users.dat''] @ user_bytes
         (new_user n g (fst (generate_salt w)) (salted_hash (fst (generate_salt w)) p)))"
proof (cases "bad_input nn pp gg \<or> find_user w (the nn) \<noteq> None")
  case True
  then have "\<not> b \<and> disk w' [''users.dat''] = disk w [''users.dat'']"
    using assms by (auto simp: register_user_def Let_def log_action_disk split: if_splits)
  then show thesis
    using that(1) by blast
next
  case False
  then obtain n p g where npg: "nn = Some n" "pp = Some p" "gg = Some g"
    by (auto simp: bad_input_def split: option.splits)
  obtain slt w1 where s: "generate_salt w = (slt, w1)"
    by fastforce
  have w1: "length slt = 16" "disk w1 = disk w"
    using generate_salt_world[of w] by (simp_all add: s SALT_LEN_def)
  have len: "length p \<le> 64"
    using False npg by (auto simp: bad_input_def MAX_PASSWORD_def)
  show thesis
  proof (cases "fopen_a w1 USERS_DB")
    case None
    then show thesis
      using assms False npg s w1 len that(1)
      by (auto simp: register_user_def Let_def hash_password_eq log_action_disk)
  next
    case (Some w2)
    then have "disk w2 = (disk w)([''users.dat''] \<mapsto> content w [''users.dat''])"
      using w1 by (auto simp: fopen_a_def content_def split: if_splits)
    then show thesis
      using assms False npg s w1 len that(2)[of n p g] Some
      by (auto simp: register_user_def Let_def hash_password_eq log_action_disk fwrite_def content_def)
  qed
qed

lemma register_user_env: "register_user w nn pp gg = Some (b, w') \<Longrightarrow> same_env w w'"
  using generate_salt_world(5)[of w]
  by (auto simp: register_user_def Let_def split_beta fopen_a_def fwrite_def log_action_env
      intro!: same_env_trans[OF _ log_action_env(1)] split: if_splits option.splits)
    (auto simp: same_env_def)

lemma register_unique:
  assumes "users_inv w" "can_read w USERS_DB" "register_user w nn pp gg = Some (b, w')"
    and nonul: "\<And>n. nn = Some n \<Longrightarrow> nonul n"
  shows "users_inv w'"
  using assms(3)
proof (cases rule: register_user_cases)
  case 1
  then show ?thesis
    using assms(1) users_cong[of w' w] by (simp add: users_inv_def content_def)
next
  case (2 n p g)
  let ?u = "new_user n g (fst (generate_salt w)) (salted_hash (fst (generate_salt w)) p)"
  have n: "nonul n" "length n < 32"
    using 2 nonul by (auto simp: bad_input_def)
  have wf: "wf_user ?u"
    using generate_salt_world(1)[of w] by (intro wf_new_user) (simp_all add: SALT_LEN_def salted_hash_def)
  have "n \<notin> uname ` set (users w)"
    using 2(6) n assms(2) by (auto simp: find_user_uname find_None_all)
  then show ?thesis
    using users_append[OF assms(1) wf 2(8)] assms(1) uname_new_user[OF n]
    by (simp add: users_inv_def)
qed

section \<open>Login\<close>

lemma find_unique:
  "distinct (map f xs) \<Longrightarrow> find (\<lambda>x. f x = k) xs = Some x \<longleftrightarrow> x \<in> set xs \<and> f x = k"
  by (induction xs) auto

lemma login_user_eq:
  assumes "length p \<le> 64" "find_user w n = None \<or> wf_user (the (find_user w n))"
  shows "login_user w n p = Some
    (case find_user w n of
       None \<Rightarrow> (None, log_action w (Some n) (Some ''LOGIN'') (Some n) (Some ''FAILED_UNKNOWN_USER''))
     | Some u \<Rightarrow>
         if salted_hash (u_salt u) p = u_hash u
         then (Some u, log_action w (Some n) (Some ''LOGIN'') (Some n) (Some ''SUCCESS''))
         else (None, log_action w (Some n) (Some ''LOGIN'') (Some n) (Some ''FAILED_WRONG_PASSWORD'')))"
  using assms by (auto simp: login_user_def Let_def hash_password_eq wf_user_def split: option.split)

lemma login_iff:
  assumes "users_inv w" "can_read w USERS_DB" "nonul n" "length n \<le> 32" "length p \<le> 64"
  shows "\<exists>r. login_user w n p =
      Some (r, log_action w (Some n) (Some ''LOGIN'') (Some n) (Some
        (if find_user w n = None then ''FAILED_UNKNOWN_USER''
         else if r = None then ''FAILED_WRONG_PASSWORD'' else ''SUCCESS''))) \<and>
    (\<forall>u. r = Some u \<longleftrightarrow> u \<in> set (users w) \<and> uname u = n \<and> u_hash u = salted_hash (u_salt u) p)"
proof -
  have f: "find_user w n = Some u \<longleftrightarrow> u \<in> set (users w) \<and> uname u = n" for u
    using assms find_unique[of uname "users w" n u] by (simp add: find_user_uname users_inv_def)
  have "find_user w n = None \<or> wf_user (the (find_user w n))"
    using f wf_users by (metis option.exhaust_sel)
  note eq = login_user_eq[OF assms(5) this]
  show ?thesis
  proof (cases "find_user w n")
    case (Some a)
    have a: "u \<in> set (users w) \<and> uname u = n \<longleftrightarrow> u = a" for u
      using Some f[of u] by auto
    have "(\<forall>u. r = Some u \<longleftrightarrow> u \<in> set (users w) \<and> uname u = n \<and> u_hash u = salted_hash (u_salt u) p)"
      if "r = (if salted_hash (u_salt a) p = u_hash a then Some a else None)" for r
      using a that by (metis option.distinct(1) option.inject)
    moreover have "login_user w n p = Some (r, log_action w (Some n) (Some ''LOGIN'') (Some n) (Some
        (if find_user w n = None then ''FAILED_UNKNOWN_USER''
         else if r = None then ''FAILED_WRONG_PASSWORD'' else ''SUCCESS'')))"
      if "r = (if salted_hash (u_salt a) p = u_hash a then Some a else None)" for r
      using Some eq that by simp
    ultimately show ?thesis
      by blast
  qed (use eq f in auto)
qed

text \<open>A registered account is a record of the file, with the names and the hash registered.\<close>

lemma registered_account:
  assumes "users_open w" "users_inv w" "valid_registration n p g" "find_user w n = None"
  shows "\<exists>w' u. register_user w (Some n) (Some p) (Some g) = Some (True, w') \<and>
    uname u = n \<and> cstr (u_group u) = g \<and> u_hash u = salted_hash (u_salt u) p \<and>
    users_inv w' \<and> can_read w' USERS_DB \<and> u \<in> set (users w')"
proof -
  let ?s = "fst (generate_salt w)"
  define u where "u = new_user n g ?s (salted_hash ?s p)"
  have n: "nonul n" "length n < 32" "nonul g" "length g < 32"
    using assms by (auto simp: valid_registration_def)
  have wf: "wf_user u"
    using generate_salt_world(1)[of w]
    by (simp add: u_def wf_user_def new_user_def SALT_LEN_def salted_hash_def)
  obtain w' where w': "register_user w (Some n) (Some p) (Some g) = Some (True, w')" "same_env w w'"
      "disk w' [''users.dat''] = Some (content w [''users.dat''] @ user_bytes u)"
    using register_user_success[OF assms(1,3,4) u_def] by blast
  have inv: "can_read w' USERS_DB" "users_inv w'"
    using w'(2) assms(1,2) register_unique[OF assms(2) _ w'(1)] n(1) by (simp_all add: same_env_def users_open_def)
  have u: "uname u = n" "cstr (u_group u) = g" "u_hash u = salted_hash (u_salt u) p" "u \<in> set (users w')"
    using n users_append(1)[OF assms(2) wf w'(3)]
    by (simp_all add: u_def uname_new_user) (simp_all add: new_user_def cstr_strncpy_zeros)
  show ?thesis
    using w'(1) inv u by (intro exI[of _ w'] exI[of _ u]) simp
qed

text \<open>Login against a record of the file: only the password matters.\<close>

lemma login_account:
  assumes "users_inv w" "can_read w USERS_DB" "u \<in> set (users w)" "nonul (uname u)" "length p \<le> 64"
  shows "login_user w (uname u) p = Some
    (if salted_hash (u_salt u) p = u_hash u
     then (Some u, log_action w (Some (uname u)) (Some ''LOGIN'') (Some (uname u)) (Some ''SUCCESS''))
     else (None, log_action w (Some (uname u)) (Some ''LOGIN'') (Some (uname u)) (Some ''FAILED_WRONG_PASSWORD'')))"
proof -
  have "length (uname u) \<le> 32"
    using wf_users[OF assms(3)] length_cstr[of "u_username u"] by (simp add: uname_def wf_user_def)
  then have "find_user w (uname u) = Some u"
    using assms find_unique[of uname "users w" "uname u" u] by (simp add: find_user_uname users_inv_def)
  then show ?thesis
    using login_user_eq[OF assms(5), of w "uname u"] wf_users[OF assms(3)] by simp
qed

lemma nonul_uname: "nonul (uname u)"
  by (simp add: uname_def)

lemma registered_logs_in:
  assumes "users_open w" "users_inv w" "valid_registration n p g" "find_user w n = None"
  shows "\<exists>w' u w''. register_user w (Some n) (Some p) (Some g) = Some (True, w') \<and>
    login_user w' n p = Some (Some u, w'') \<and> u \<in> set (users w') \<and> uname u = n \<and> cstr (u_group u) = g"
proof -
  obtain w' u where u: "register_user w (Some n) (Some p) (Some g) = Some (True, w')" "uname u = n"
      "cstr (u_group u) = g" "u_hash u = salted_hash (u_salt u) p" "users_inv w'" "can_read w' USERS_DB"
      "u \<in> set (users w')"
    using registered_account[OF assms] by blast
  moreover have "length p \<le> 64"
    using assms(3) by (simp add: valid_registration_def)
  ultimately show ?thesis
    using login_account[OF u(5-7) nonul_uname, of p] by simp
qed

section \<open>Histories of the account file\<close>

text \<open>
  What can happen to the account file between two points of a run: registrations and logins, with any
  arguments (C strings, so without an inner NUL) and any outcome, and anything else that leaves the
  file and its readability alone.
\<close>

inductive account_history :: "world \<Rightarrow> world \<Rightarrow> bool" where
  now: "account_history w w"
| registered: "account_history w a \<Longrightarrow> register_user a nn pp gg = Some (ok, b) \<Longrightarrow>
    (\<And>n. nn = Some n \<Longrightarrow> nonul n) \<Longrightarrow> account_history w b"
| logged_in: "account_history w a \<Longrightarrow> login_user a n p = Some (r, b) \<Longrightarrow> account_history w b"
| elsewhere: "account_history w a \<Longrightarrow> disk b [''users.dat''] = disk a [''users.dat''] \<Longrightarrow>
    can_read b = can_read a \<Longrightarrow> account_history w b"

lemma login_user_world: "login_user w n p = Some (r, b) \<Longrightarrow> \<exists>x. b = log_action w (Some n) (Some ''LOGIN'') (Some n) (Some x)"
  by (auto simp: login_user_def Let_def split: option.splits if_splits)

lemma register_keeps_users:
  assumes "register_user w nn pp gg = Some (ok, w')" "users_inv w"
  shows "set (users w) \<subseteq> set (users w')"
  using assms(1)
proof (cases rule: register_user_cases)
  case 1
  then show ?thesis
    using users_cong[of w' w] by simp
next
  case (2 n p g)
  have "wf_user (new_user n g (fst (generate_salt w)) (salted_hash (fst (generate_salt w)) p))"
    using generate_salt_world(1)[of w] by (intro wf_new_user) (simp_all add: SALT_LEN_def salted_hash_def)
  then show ?thesis
    using users_append(1)[OF assms(2) _ 2(8)] by auto
qed

lemma account_history_keeps:
  assumes "account_history w v" "users_inv w" "can_read w USERS_DB" "u \<in> set (users w)"
  shows "users_inv v \<and> can_read v USERS_DB \<and> u \<in> set (users v)"
  using assms
proof (induction rule: account_history.induct)
  case (registered w a nn pp gg ok b)
  then show ?case
    using register_unique[OF _ _ registered.hyps(2,3)] register_user_env[OF registered.hyps(2)]
      register_keeps_users[OF registered.hyps(2)]
    by (auto simp: same_env_def)
next
  case (logged_in w a n p r b)
  then obtain x where "b = log_action a (Some n) (Some ''LOGIN'') (Some n) (Some x)"
    using login_user_world by blast
  then show ?case
    using logged_in users_cong[of b a] by (simp add: log_action_disk log_action_env users_inv_def content_def)
next
  case (elsewhere w a b)
  then show ?case
    using users_cong[of b a] by (simp add: users_inv_def content_def)
qed simp

section \<open>Properties\<close>


text \<open>
  User names stay unique and \<open>users.dat\<close> stays a sequence of whole records through every
  registration, whatever its arguments and outcome.
\<close>

theorem register_keeps_names_unique:
  assumes "users_inv w" "can_read w USERS_DB" "register_user w nn pp gg = Some (b, w')"
    and "\<And>n. nn = Some n \<Longrightarrow> nonul n"
  shows "users_inv w'"
  using assms by (rule register_unique)

text \<open>
  C19: A login succeeds exactly for a registered user whose stored hash is the salted SHA-256 of the
  password given, and appends one audit line naming the outcome; nothing else is changed.
\<close>

theorem login_sound_and_complete:
  assumes "users_inv w" "can_read w USERS_DB" "nonul n" "length n \<le> 32" "length p \<le> 64"
  shows "\<exists>r. login_user w n p =
      Some (r, log_action w (Some n) (Some ''LOGIN'') (Some n) (Some
        (if find_user w n = None then ''FAILED_UNKNOWN_USER''
         else if r = None then ''FAILED_WRONG_PASSWORD'' else ''SUCCESS''))) \<and>
    (\<forall>u. r = Some u \<longleftrightarrow> u \<in> set (users w) \<and> uname u = n \<and> u_hash u = salted_hash (u_salt u) p)"
  using assms by (rule login_iff)

text \<open>
  What registration does depends on the password only through its salted hash: the results and
  the whole new world (files, log lines, messages) for all valid passwords are one function of the
  salted SHA-256, so nothing the program writes carries the password itself.
\<close>

theorem register_reveals_hash_only:
  "\<exists>F. \<forall>p. valid_registration n p g \<longrightarrow>
     register_user w (Some n) (Some p) (Some g) = F (salted_hash (fst (generate_salt w)) p)"
proof -
  obtain slt w1 where s: "generate_salt w = (slt, w1)" "length slt = 16"
    using generate_salt_world(1)[of w] by (cases "generate_salt w") (simp add: SALT_LEN_def)
  show ?thesis
  proof (intro exI allI impI)
    fix p assume v: "valid_registration n p g"
    then show "register_user w (Some n) (Some p) (Some g) =
        (\<lambda>h. if find_user w n \<noteq> None
          then Some (False, log_action w (Some n) (Some ''REGISTER'') (Some n) (Some ''FAILED_ALREADY_EXISTS''))
          else (case fopen_a w1 USERS_DB of
             None \<Rightarrow> Some (False, log_action w1 (Some n) (Some ''REGISTER'') (Some n) (Some ''FAILED_IO_ERROR''))
           | Some w2 \<Rightarrow> Some (True, log_action (fwrite w2 USERS_DB (user_bytes (new_user n g slt h)))
               (Some n) (Some ''REGISTER'') (Some n) (Some ''SUCCESS''))))
        (salted_hash (fst (generate_salt w)) p)"
      using s bad_input_valid[OF v] hash_password_eq[OF s(2), of p]
      by (auto simp: register_user_def Let_def valid_registration_def split: option.split)
  qed
qed

section \<open>Witnesses\<close>

lemma fresh_users [simp]:
  "users_open fresh_world" "users_inv fresh_world" "find_user fresh_world n = None"
  "can_read fresh_world p"
  by (simp_all add: users_open_def users_inv_def users_def fread_users_def content_def find_user_def
      fopen_r_def fresh_world_def)

lemma ann_valid [simp]:
  "valid_registration ''ann'' ''secret'' ''dev''" "valid_registration ''ann'' ''other'' ''dev''"
  by (simp_all add: valid_registration_def NUL_def)


theorem register_keeps_names_unique_witness:
  "\<exists>w'. register_user fresh_world (Some ''ann'') (Some ''secret'') (Some ''dev'') = Some (True, w') \<and>
     users_inv w'"
proof -
  obtain w' where r: "register_user fresh_world (Some ''ann'') (Some ''secret'') (Some ''dev'') = Some (True, w')"
    using register_user_success[OF fresh_users(1) ann_valid(1) fresh_users(3) refl] by blast
  then show ?thesis
    using register_keeps_names_unique[OF fresh_users(2,4) r] by (simp add: NUL_def)
qed

theorem login_sound_and_complete_witness:
  "\<exists>w' u v. register_user fresh_world (Some ''ann'') (Some ''secret'') (Some ''dev'') = Some (True, w') \<and>
     login_user w' ''ann'' ''secret'' = Some (Some u, v)"
proof -
  define u where "u = new_user ''ann'' ''dev'' (fst (generate_salt fresh_world))
    (salted_hash (fst (generate_salt fresh_world)) ''secret'')"
  obtain w' where r: "register_user fresh_world (Some ''ann'') (Some ''secret'') (Some ''dev'') = Some (True, w')"
      "same_env fresh_world w'"
      "disk w' [''users.dat''] = Some (content fresh_world [''users.dat''] @ user_bytes u)"
    using register_user_success[OF fresh_users(1) ann_valid(1) fresh_users(3) u_def] by blast
  have inv: "users_inv w'" "can_read w' USERS_DB"
    using register_unique[OF fresh_users(2,4) r(1)] r(2) by (simp_all add: NUL_def same_env_def)
  have wf: "wf_user u"
    using generate_salt_world(1)[of fresh_world]
    by (simp add: u_def wf_user_def new_user_def SALT_LEN_def salted_hash_def)
  have "u \<in> set (users w')"
    using users_append(1)[OF fresh_users(2) wf r(3)] by simp
  moreover have "uname u = ''ann''" "u_hash u = salted_hash (u_salt u) ''secret''"
    by (simp_all add: u_def uname_new_user NUL_def) (simp add: new_user_def)
  ultimately show ?thesis
    using login_sound_and_complete[OF inv, of "''ann''" "''secret''"] r(1) by (auto simp: NUL_def)
qed

theorem register_reveals_hash_only_witness:
  "\<exists>F. register_user fresh_world (Some ''ann'') (Some ''secret'') (Some ''dev'') =
       F (salted_hash (fst (generate_salt fresh_world)) ''secret'') \<and>
     register_user fresh_world (Some ''ann'') (Some ''other'') (Some ''dev'') =
       F (salted_hash (fst (generate_salt fresh_world)) ''other'')"
  using register_reveals_hash_only[of "''ann''" "''dev''" fresh_world] ann_valid by metis

end
