(* ===== verification/Refinement.thy ===== *)
theory Refinement
  imports Main
begin

text \<open>
  Contracts shared by the components. \<open>data_refinement\<close>: operations on a concrete state that
  keep an invariant and simulate operations on an abstract state, results included; whole histories
  of operations then agree. It is interpreted for the permission table (\<open>perms.c\<close>), the
  key-value store (\<open>server.c\<close>) and both page-replacement algorithms (\<open>paging_sim.c\<close>).
\<close>

text \<open>Running a history of commands, and a condition that each command meets where it runs.\<close>

primrec run_cmds :: "('c \<Rightarrow> 's \<Rightarrow> 'r \<times> 's) \<Rightarrow> 'c list \<Rightarrow> 's \<Rightarrow> 'r list \<times> 's" where
  "run_cmds step [] s = ([], s)"
| "run_cmds step (c # cs) s =
     (let (r, s') = step c s; (rs, t) = run_cmds step cs s' in (r # rs, t))"

primrec all_ok :: "('c \<Rightarrow> 's \<Rightarrow> bool) \<Rightarrow> ('c \<Rightarrow> 's \<Rightarrow> 'r \<times> 's) \<Rightarrow> 'c list \<Rightarrow> 's \<Rightarrow> bool" where
  "all_ok ok step [] s \<longleftrightarrow> True"
| "all_ok ok step (c # cs) s \<longleftrightarrow> ok c s \<and> all_ok ok step cs (snd (step c s))"

lemma run_cmds_append:
  "run_cmds step (cs @ ds) s =
     (let (rs, s1) = run_cmds step cs s; (ts, s2) = run_cmds step ds s1 in (rs @ ts, s2))"
  by (induction cs arbitrary: s) (simp_all add: Let_def split_beta)

locale data_refinement =
  fixes inv :: "'s \<Rightarrow> bool" and abs :: "'s \<Rightarrow> 'a" and ok :: "'c \<Rightarrow> 's \<Rightarrow> bool"
    and cstep :: "'c \<Rightarrow> 's \<Rightarrow> 'r \<times> 's" and astep :: "'c \<Rightarrow> 'a \<Rightarrow> 'r \<times> 'a"
  assumes step_inv: "inv s \<Longrightarrow> ok c s \<Longrightarrow> inv (snd (cstep c s))"
    and step_sim: "inv s \<Longrightarrow> ok c s \<Longrightarrow> astep c (abs s) = (fst (cstep c s), abs (snd (cstep c s)))"
begin

lemma run_inv: "inv s \<Longrightarrow> all_ok ok cstep cs s \<Longrightarrow> inv (snd (run_cmds cstep cs s))"
  by (induction cs arbitrary: s) (auto simp: Let_def split_beta dest: step_inv)

lemma run_sim:
  "inv s \<Longrightarrow> all_ok ok cstep cs s \<Longrightarrow>
   run_cmds astep cs (abs s) = (fst (run_cmds cstep cs s), abs (snd (run_cmds cstep cs s)))"
proof (induction cs arbitrary: s)
  case (Cons c cs)
  then show ?case
    using step_inv[of s c] step_sim[of s c] by (simp add: Let_def split_beta)
qed simp

lemma all_ok_always: "(\<And>c s. c \<in> set cs \<Longrightarrow> inv s \<Longrightarrow> ok c s) \<Longrightarrow> inv s \<Longrightarrow> all_ok ok cstep cs s"
  by (induction cs arbitrary: s) (auto intro: step_inv)

end

end
