(* ===== verification/Perms.thy ===== *)
theory Perms
  imports Audit_Log Refinement
begin

text \<open>
  \<open>perms.c\<close>: the file \<open>files_meta.dat\<close> of \<open>FileMeta\<close> records and the permission check.
  A lookup that returns 1 and fills \<open>out_meta\<close> is \<open>Some\<close>; the other operations return
  whether they succeeded and the new world.
\<close>

section \<open>The code\<close>

definition is_valid_perm_string :: "string option \<Rightarrow> bool" where
  "is_valid_perm_string perm_str =
     (case perm_str of None \<Rightarrow> False
      | Some p \<Rightarrow>
          if length p \<noteq> PERM_STRING_LEN then False
          else list_all (\<lambda>i. p ! i = ''rwxrwxrwx'' ! i \<or> p ! i = CHR ''-'') [0..<PERM_STRING_LEN])"

definition fread_metas :: "string \<Rightarrow> FileMeta list" where
  "fread_metas bs = map meta_of_bytes (fread_blocks 144 bs)"

definition name_matches :: "string \<Rightarrow> FileMeta \<Rightarrow> bool" where
  "name_matches fname m = strncmp_eq MAX_FILENAME (m_filename m) fname"

definition find_file_meta :: "world \<Rightarrow> string \<Rightarrow> FileMeta option" where
  "find_file_meta w fname =
     (case fopen_r w FILES_DB of None \<Rightarrow> None
      | Some bs \<Rightarrow> find (name_matches fname) (fread_metas bs))"

text \<open>The record \<open>create_file_meta\<close> builds on memory cleared by \<open>memset\<close>.\<close>

definition new_meta :: "string \<Rightarrow> string \<Rightarrow> string \<Rightarrow> string \<Rightarrow> FileMeta" where
  "new_meta fname own grp perm_str =
     \<lparr>m_filename = strncpy (zeros MAX_FILENAME) fname (MAX_FILENAME - 1),
      m_owner = strncpy (zeros MAX_USERNAME) own (MAX_USERNAME - 1),
      m_group = strncpy (zeros MAX_GROUP) grp (MAX_GROUP - 1),
      m_permissions = (strncpy (zeros (PERM_STRING_LEN + 1)) perm_str PERM_STRING_LEN)
        [PERM_STRING_LEN := NUL],
      m_pad = zeros 2, m_is_encrypted = 0\<rparr>"

definition create_file_meta ::
  "world \<Rightarrow> string \<Rightarrow> string \<Rightarrow> string \<Rightarrow> string \<Rightarrow> bool \<times> world" where
  "create_file_meta w fname own grp perm_str =
     (if \<not> is_valid_perm_string (Some perm_str) then (False, w)
      else if find_file_meta w fname \<noteq> None then (False, w)
      else (case fopen_a w FILES_DB of
              None \<Rightarrow> (False, w)
            | Some w1 \<Rightarrow> (True, fwrite w1 FILES_DB (meta_bytes (new_meta fname own grp perm_str)))))"

text \<open>
  One record of \<open>rewrite_meta_matching\<close>'s second loop: what is written back, if anything. The
  argument \<open>set_encrypted\<close> is -1 for \<^emph>\<open>do not change\<close>.
\<close>

definition rewrite_record ::
  "string \<Rightarrow> bool \<Rightarrow> string option \<Rightarrow> int \<Rightarrow> FileMeta \<Rightarrow> FileMeta option" where
  "rewrite_record fname delete_record new_perm_str set_encrypted m =
     (if name_matches fname m then
        if delete_record then None
        else let m1 = (case new_perm_str of None \<Rightarrow> m
                       | Some p \<Rightarrow> m\<lparr>m_permissions :=
                           (strncpy (m_permissions m) p PERM_STRING_LEN)[PERM_STRING_LEN := NUL]\<rparr>)
             in Some (if set_encrypted \<noteq> -1 then m1\<lparr>m_is_encrypted := word_of_int set_encrypted\<rparr> else m1)
      else Some m)"

fun rewrite_loop ::
  "string \<Rightarrow> bool \<Rightarrow> string option \<Rightarrow> int \<Rightarrow> FileMeta list \<Rightarrow> bool \<times> world \<Rightarrow> bool \<times> world" where
  "rewrite_loop fname del perm enc [] (found, w) = (found, w)"
| "rewrite_loop fname del perm enc (m # ms) (found, w) =
     rewrite_loop fname del perm enc ms
       (found \<or> name_matches fname m,
        case rewrite_record fname del perm enc m of None \<Rightarrow> w
        | Some m1 \<Rightarrow> fwrite w FILES_DB (meta_bytes m1))"

text \<open>The result code, \<open>*found\<close>, and the world; at most 1024 records are read back.\<close>

definition rewrite_meta_matching ::
  "world \<Rightarrow> string \<Rightarrow> bool \<Rightarrow> string option \<Rightarrow> int \<Rightarrow> bool \<times> bool \<times> world" where
  "rewrite_meta_matching w fname delete_record new_perm_str set_encrypted =
     (case fopen_r w FILES_DB of None \<Rightarrow> (False, False, w)
      | Some bs \<Rightarrow>
          let records = take 1024 (fread_metas bs) in
          (case fopen_w w FILES_DB of None \<Rightarrow> (False, False, w)
           | Some w1 \<Rightarrow>
               (True, rewrite_loop fname delete_record new_perm_str set_encrypted records (False, w1))))"

definition chmod_file :: "world \<Rightarrow> string \<Rightarrow> string \<Rightarrow> bool \<times> world" where
  "chmod_file w fname perm_str =
     (if \<not> is_valid_perm_string (Some perm_str) then (False, w)
      else snd (rewrite_meta_matching w fname False (Some perm_str) (-1)))"

definition set_encrypted_flag :: "world \<Rightarrow> string \<Rightarrow> int \<Rightarrow> bool \<times> world" where
  "set_encrypted_flag w fname is_enc = snd (rewrite_meta_matching w fname False None is_enc)"

definition delete_file_meta :: "world \<Rightarrow> string \<Rightarrow> bool \<times> world" where
  "delete_file_meta w fname = snd (rewrite_meta_matching w fname True None (-1))"

fun perm_index :: "PermType \<Rightarrow> nat" where
  "perm_index PERM_READ = 0"
| "perm_index PERM_WRITE = 1"
| "perm_index PERM_EXECUTE = 2"

definition check_permission :: "string \<Rightarrow> string \<Rightarrow> FileMeta \<Rightarrow> PermType \<Rightarrow> bool" where
  "check_permission user user_group meta perm =
     (let base_index =
        (if strncmp_eq MAX_USERNAME user (m_owner meta) then 0
         else if strncmp_eq MAX_GROUP user_group (m_group meta) then 3 else 6)
      in m_permissions meta ! (base_index + perm_index perm) \<noteq> CHR ''-'')"

section \<open>Records\<close>

lemma wf_new_meta [simp]: "length perm = 9 \<Longrightarrow> wf_meta (new_meta f own g perm)"
  by (simp add: wf_meta_def new_meta_def)

lemma rewrite_record_wf: "wf_meta m \<Longrightarrow> rewrite_record f d p e m = Some m1 \<Longrightarrow> wf_meta m1"
  by (auto simp: rewrite_record_def wf_meta_def Let_def split: if_splits option.splits)

lemma wf_fread_metas: "m \<in> set (fread_metas bs) \<Longrightarrow> wf_meta m"
  using meta_file.wf_read by (simp add: fread_metas_def)

lemma fread_metas_Nil [simp]: "fread_metas [] = []"
  by (simp add: fread_metas_def)

section \<open>The file as a list of records\<close>

text \<open>
  The records the program reads, and the condition that the file is nothing but records (it holds
  when the program alone writes the file).
\<close>

definition metas :: "world \<Rightarrow> FileMeta list" where
  "metas w = (case disk w [''files_meta.dat''] of None \<Rightarrow> [] | Some bs \<Rightarrow> fread_metas bs)"

definition whole_records :: "world \<Rightarrow> bool" where
  "whole_records w \<longleftrightarrow> 144 dvd length (content w [''files_meta.dat''])"

definition db_open :: "world \<Rightarrow> bool" where
  "db_open w \<longleftrightarrow> can_read w FILES_DB \<and> can_write w FILES_DB \<and> [''files_meta.dat''] \<notin> dirs w"

lemma metas_content: "metas w = fread_metas (content w [''files_meta.dat''])"
  by (simp add: metas_def content_def split: option.splits)

lemma find_file_meta_metas:
  "can_read w FILES_DB \<Longrightarrow> find_file_meta w f = find (name_matches f) (metas w)"
  by (simp add: find_file_meta_def fopen_r_def metas_def split: option.splits)

lemma find_file_meta_cong:
  "can_read w' = can_read w \<Longrightarrow> disk w' [''files_meta.dat''] = disk w [''files_meta.dat''] \<Longrightarrow>
   find_file_meta w' f = find_file_meta w f"
  by (simp add: find_file_meta_def fopen_r_def)

text \<open>The effect of the rewriting loop: the records kept or changed are appended, in order.\<close>

definition rewritten :: "string \<Rightarrow> bool \<Rightarrow> string option \<Rightarrow> int \<Rightarrow> FileMeta list \<Rightarrow> FileMeta list" where
  "rewritten f d p e ms = List.map_filter (rewrite_record f d p e) ms"

lemma rewritten_simps [simp]:
  "rewritten f d p e [] = []"
  "rewritten f d p e (m # ms) =
     (case rewrite_record f d p e m of None \<Rightarrow> [] | Some m1 \<Rightarrow> [m1]) @ rewritten f d p e ms"
  by (simp_all add: rewritten_def List.map_filter_simps split: option.split)

lemma rewrite_loop_eq:
  "rewrite_loop f d p e ms (found, w) =
     (found \<or> list_ex (name_matches f) ms,
      if rewritten f d p e ms = [] then w
      else fwrite w FILES_DB (concat (map meta_bytes (rewritten f d p e ms))))"
  by (induction ms arbitrary: found w) (auto split: option.splits)

lemma fwrite_opened [simp]:
  "fwrite (w\<lparr>disk := (disk w)(resolve p \<mapsto> bs)\<rparr>) p cs = w\<lparr>disk := (disk w)(resolve p \<mapsto> bs @ cs)\<rparr>"
  by (simp add: fwrite_def)

lemma rewrite_meta_matching_eq:
  assumes "db_open w" "disk w [''files_meta.dat''] \<noteq> None"
  shows "rewrite_meta_matching w f d p e =
    (True, list_ex (name_matches f) (take 1024 (metas w)),
     w\<lparr>disk := (disk w)([''files_meta.dat''] \<mapsto>
       concat (map meta_bytes (rewritten f d p e (take 1024 (metas w)))))\<rparr>)"
proof -
  obtain bs where bs: "disk w [''files_meta.dat''] = Some bs"
    using assms by auto
  have fw: "fwrite (w\<lparr>disk := (disk w)([''files_meta.dat''] \<mapsto> [])\<rparr>) FILES_DB cs =
      w\<lparr>disk := (disk w)([''files_meta.dat''] \<mapsto> cs)\<rparr>" for cs
    using fwrite_opened[of w FILES_DB "[]" cs] by simp
  show ?thesis
    using assms bs
    by (simp add: rewrite_meta_matching_def db_open_def fopen_r_def fopen_w_def metas_def
        rewrite_loop_eq Let_def fw)
qed

lemma rewrite_meta_matching_absent:
  "disk w [''files_meta.dat''] = None \<or> \<not> db_open w \<Longrightarrow>
   rewrite_meta_matching w f d p e = (False, False, w)"
  by (auto simp: rewrite_meta_matching_def fopen_r_def fopen_w_def db_open_def split: option.splits)

lemma wf_rewritten: "list_all wf_meta ms \<Longrightarrow> list_all wf_meta (rewritten f d p e ms)"
  by (induction ms) (auto split: option.splits dest: rewrite_record_wf)

lemma list_all_metas: "list_all wf_meta (metas w)"
  by (auto simp: list_all_iff metas_content intro: wf_fread_metas)

lemma list_all_take: "list_all P xs \<Longrightarrow> list_all P (take n xs)"
  by (auto simp: list_all_iff dest: in_set_takeD)

lemma metas_rewritten:
  "metas (w\<lparr>disk := (disk w)([''files_meta.dat''] \<mapsto> concat (map meta_bytes ms))\<rparr>) = ms"
  if "list_all wf_meta ms"
  using meta_file.read_concat[OF that] by (simp add: metas_def fread_metas_def)

end
