(* ===== verification/Perm_Table.thy ===== *)
theory Perm_Table
  imports Perms
begin

text \<open>
  What \<open>perms.c\<close> promises: a table from file names to owner, group, permission string and
  encryption flag. The four operations on \<open>files_meta.dat\<close> implement the table's operations
  (an interpretation of \<open>data_refinement\<close>) as long as the file opens, names fit their arrays and
  there are at most 1024 records; beyond that bound a rewrite loses records. The permission check
  is the owner / group / others rule.
\<close>

section \<open>The table\<close>

record entry =
  e_owner :: string
  e_group :: string
  e_perms :: string
  e_enc :: word32

type_synonym table = "string \<Rightarrow> entry option"

definition key :: "FileMeta \<Rightarrow> string" where
  "key m = cstr (m_filename m)"

definition entry_of :: "FileMeta \<Rightarrow> entry" where
  "entry_of m = \<lparr>e_owner = cstr (m_owner m), e_group = cstr (m_group m),
     e_perms = cstr (m_permissions m), e_enc = m_is_encrypted m\<rparr>"

definition table_of :: "FileMeta list \<Rightarrow> table" where
  "table_of ms f = map_option entry_of (find (\<lambda>m. key m = f) ms)"

definition perm_table :: "world \<Rightarrow> table" where
  "perm_table w = table_of (metas w)"

datatype meta_cmd =
  Create string string string string
| Chmod string string
| Set_Encrypted string int
| Delete string

fun meta_step :: "meta_cmd \<Rightarrow> world \<Rightarrow> bool \<times> world" where
  "meta_step (Create f own grp p) w = create_file_meta w f own grp p"
| "meta_step (Chmod f p) w = chmod_file w f p"
| "meta_step (Set_Encrypted f e) w = set_encrypted_flag w f e"
| "meta_step (Delete f) w = delete_file_meta w f"

fun table_step :: "meta_cmd \<Rightarrow> table \<Rightarrow> bool \<times> table" where
  "table_step (Create f own grp p) t =
     (if is_valid_perm_string (Some p) \<and> t f = None
      then (True, t(f \<mapsto> \<lparr>e_owner = own, e_group = grp, e_perms = p, e_enc = 0\<rparr>)) else (False, t))"
| "table_step (Chmod f p) t =
     (if is_valid_perm_string (Some p)
      then (t f \<noteq> None, t(f := map_option (\<lambda>e. e\<lparr>e_perms := p\<rparr>) (t f))) else (False, t))"
| "table_step (Set_Encrypted f e) t =
     (t f \<noteq> None, t(f := map_option (\<lambda>n. n\<lparr>e_enc := word_of_int e\<rparr>) (t f)))"
| "table_step (Delete f) t = (t f \<noteq> None, t(f := None))"

definition fits :: "nat \<Rightarrow> string \<Rightarrow> bool" where
  "fits n s \<longleftrightarrow> nonul s \<and> length s < n"

fun cmd_ok :: "meta_cmd \<Rightarrow> world \<Rightarrow> bool" where
  "cmd_ok (Create f own grp p) w \<longleftrightarrow> fits MAX_FILENAME f \<and> fits MAX_USERNAME own \<and> fits MAX_GROUP grp"
| "cmd_ok (Chmod f p) w \<longleftrightarrow> fits MAX_FILENAME f \<and> length (metas w) \<le> 1024"
| "cmd_ok (Set_Encrypted f e) w \<longleftrightarrow> fits MAX_FILENAME f \<and> length (metas w) \<le> 1024 \<and> e \<noteq> -1"
| "cmd_ok (Delete f) w \<longleftrightarrow> fits MAX_FILENAME f \<and> length (metas w) \<le> 1024"

definition meta_inv :: "world \<Rightarrow> bool" where
  "meta_inv w \<longleftrightarrow> db_open w \<and> whole_records w \<and> distinct (map key (metas w))"

section \<open>Names and permission strings\<close>

lemma name_matches_key: "wf_meta m \<Longrightarrow> fits MAX_FILENAME f \<Longrightarrow> name_matches f m \<longleftrightarrow> key m = f"
  using length_cstr[of "m_filename m"]
  by (simp add: name_matches_def strncmp_eq_iff key_def wf_meta_def fits_def)

lemma valid_perm_length: "is_valid_perm_string (Some p) \<Longrightarrow> length p = 9"
  by (auto simp: is_valid_perm_string_def split: if_splits)

lemma valid_perm_nth:
  "is_valid_perm_string (Some p) \<Longrightarrow> i < 9 \<Longrightarrow> p ! i = ''rwxrwxrwx'' ! i \<or> p ! i = CHR ''-''"
  by (simp add: is_valid_perm_string_def list_all_iff split: if_splits)

lemma perm_chars: "i < 9 \<Longrightarrow> ''rwxrwxrwx'' ! i \<in> {CHR ''r'', CHR ''w'', CHR ''x''}"
  by (auto simp: less_Suc_eq numeral_eq_Suc)

lemma valid_perm_nonul: "is_valid_perm_string (Some p) \<Longrightarrow> nonul p"
  using valid_perm_length[of p] valid_perm_nth[of p] perm_chars
  by (fastforce simp: nonul_def list_all_length NUL_def)

lemma valid_perm_stored [simp]:
  assumes "is_valid_perm_string (Some p)" "length a = 10"
  shows "(strncpy a p 9)[9 := NUL] = p @ [NUL]"
proof -
  have "length (drop 9 a) = 1"
    using assms by simp
  then obtain c where "drop 9 a = [c]"
    by (metis One_nat_def length_0_conv length_Suc_conv)
  then show ?thesis
    using assms valid_perm_length valid_perm_nonul by (simp add: strncpy_full list_update_append)
qed

lemma cstr_snoc_NUL [simp]: "nonul p \<Longrightarrow> cstr (p @ [NUL]) = p"
  by (simp add: cstr_append_nonul)

lemma entry_of_new:
  assumes "is_valid_perm_string (Some p)" "fits MAX_FILENAME f" "fits MAX_USERNAME own" "fits MAX_GROUP grp"
  shows "entry_of (new_meta f own grp p) = \<lparr>e_owner = own, e_group = grp, e_perms = p, e_enc = 0\<rparr>"
    "key (new_meta f own grp p) = f"
  using assms valid_perm_nonul[OF assms(1)]
  by (simp_all add: entry_of_def key_def new_meta_def fits_def cstr_strncpy_zeros)

section \<open>Rewriting the records\<close>

definition entry_upd :: "string option \<Rightarrow> int \<Rightarrow> entry \<Rightarrow> entry" where
  "entry_upd p e n =
     (let n1 = (case p of None \<Rightarrow> n | Some q \<Rightarrow> n\<lparr>e_perms := q\<rparr>)
      in if e \<noteq> -1 then n1\<lparr>e_enc := word_of_int e\<rparr> else n1)"

lemma table_of_Nil [simp]: "table_of [] = Map.empty"
  by (rule ext) (simp add: table_of_def)

lemma table_of_Cons [simp]: "table_of (m # ms) = (table_of ms)(key m \<mapsto> entry_of m)"
  by (rule ext) (simp add: table_of_def)

lemma table_of_append: "table_of (ms @ [n]) f = (if table_of ms f = None \<and> key n = f then Some (entry_of n) else table_of ms f)"
  by (induction ms) auto

lemma table_of_None: "table_of ms f = None \<longleftrightarrow> f \<notin> key ` set ms"
  by (induction ms) auto

lemma rewrite_record_delete:
  "wf_meta m \<Longrightarrow> fits MAX_FILENAME f \<Longrightarrow>
   rewrite_record f True p e m = (if key m = f then None else Some m)"
  by (simp add: rewrite_record_def name_matches_key)

lemma rewrite_record_keep:
  assumes "wf_meta m" "fits MAX_FILENAME f" "\<And>q. p = Some q \<Longrightarrow> is_valid_perm_string (Some q)"
  shows "\<exists>m1. rewrite_record f False p e m = Some m1 \<and> key m1 = key m \<and>
    entry_of m1 = (if key m = f then entry_upd p e (entry_of m) else entry_of m)"
proof (cases p)
  case None
  then show ?thesis
    using assms by (simp add: rewrite_record_def name_matches_key entry_upd_def entry_of_def key_def)
next
  case (Some q)
  then have "is_valid_perm_string (Some q)" "nonul q" "length (m_permissions m) = 10"
    using assms valid_perm_nonul by (auto simp: wf_meta_def)
  then show ?thesis
    using assms Some
    by (simp add: rewrite_record_def name_matches_key entry_upd_def entry_of_def key_def Let_def)
qed

lemma table_of_delete:
  "list_all wf_meta ms \<Longrightarrow> fits MAX_FILENAME f \<Longrightarrow>
   table_of (rewritten f True p e ms) = (table_of ms)(f := None)"
  by (induction ms) (auto simp: rewrite_record_delete fun_upd_twist)

lemma table_of_keep:
  assumes "list_all wf_meta ms" "fits MAX_FILENAME f" "\<And>q. p = Some q \<Longrightarrow> is_valid_perm_string (Some q)"
  shows "table_of (rewritten f False p e ms) =
    (table_of ms)(f := map_option (entry_upd p e) (table_of ms f))"
  using assms(1)
proof (induction ms)
  case (Cons m ms)
  then obtain m1 where "rewrite_record f False p e m = Some m1" "key m1 = key m"
      "entry_of m1 = (if key m = f then entry_upd p e (entry_of m) else entry_of m)"
    using rewrite_record_keep[of m f p e, OF _ assms(2,3)] by auto
  then show ?case
    using Cons by (auto simp: fun_upd_twist)
qed simp

lemma keys_rewritten:
  assumes "list_all wf_meta ms" "fits MAX_FILENAME f"
  shows "map key (rewritten f d p e ms) =
    (if d then filter (\<lambda>k. k \<noteq> f) (map key ms) else map key ms)"
  using assms(1)
proof (induction ms)
  case (Cons m ms)
  have "\<exists>m1. rewrite_record f False p e m = Some m1 \<and> key m1 = key m"
    by (auto simp: rewrite_record_def key_def Let_def split: option.splits)
  then show ?case
    using Cons assms(2) by (cases d) (auto simp: rewrite_record_delete)
qed simp

lemma list_ex_name: 
  assumes "list_all wf_meta ms" "fits MAX_FILENAME f"
  shows "list_ex (name_matches f) ms \<longleftrightarrow> table_of ms f \<noteq> None"
  using assms(1) by (induction ms) (auto simp: name_matches_key[OF _ assms(2)])

section \<open>Creating a record\<close>

lemma find_file_meta_table:
  assumes "can_read w FILES_DB" "fits MAX_FILENAME f"
  shows "find_file_meta w f = find (\<lambda>m. key m = f) (metas w)"
  unfolding find_file_meta_metas[OF assms(1)]
  by (rule find_cong_on) (use assms list_all_metas[of w] in \<open>auto simp: list_all_iff name_matches_key\<close>)

lemma find_file_meta_None:
  "can_read w FILES_DB \<Longrightarrow> fits MAX_FILENAME f \<Longrightarrow> find_file_meta w f = None \<longleftrightarrow> perm_table w f = None"
  by (simp add: find_file_meta_table perm_table_def table_of_def)

lemma create_file_meta_eq:
  assumes "db_open w" "whole_records w" "is_valid_perm_string (Some p)" "find_file_meta w f = None"
  shows "create_file_meta w f own grp p =
      (True, w\<lparr>disk := (disk w)([''files_meta.dat''] \<mapsto>
         content w [''files_meta.dat''] @ meta_bytes (new_meta f own grp p))\<rparr>)"
    "metas (snd (create_file_meta w f own grp p)) = metas w @ [new_meta f own grp p]"
    "whole_records (snd (create_file_meta w f own grp p))"
proof -
  have wf: "wf_meta (new_meta f own grp p)"
    using assms valid_perm_length by simp
  show eq: "create_file_meta w f own grp p =
      (True, w\<lparr>disk := (disk w)([''files_meta.dat''] \<mapsto>
         content w [''files_meta.dat''] @ meta_bytes (new_meta f own grp p))\<rparr>)"
    using assms fwrite_opened[of w FILES_DB]
    by (simp add: create_file_meta_def db_open_def fopen_a_def)
  show "metas (snd (create_file_meta w f own grp p)) = metas w @ [new_meta f own grp p]"
    using meta_file.read_append[OF _ wf] assms
    by (simp add: eq metas_content whole_records_def fread_metas_def content_def)
  show "whole_records (snd (create_file_meta w f own grp p))"
    using assms length_meta_bytes[OF wf] by (simp add: eq whole_records_def content_def)
qed

section \<open>Simulation\<close>

lemma rewrite_sim:
  assumes "meta_inv w" "fits MAX_FILENAME f" "length (metas w) \<le> 1024"
    "\<And>q. p = Some q \<Longrightarrow> is_valid_perm_string (Some q)"
  shows "fst (snd (rewrite_meta_matching w f d p e)) \<longleftrightarrow> perm_table w f \<noteq> None"
    "perm_table (snd (snd (rewrite_meta_matching w f d p e))) =
      (perm_table w)(f := if d then None else map_option (entry_upd p e) (perm_table w f))"
    "meta_inv (snd (snd (rewrite_meta_matching w f d p e)))"
proof -
  have wf: "list_all wf_meta (metas w)" and take: "take 1024 (metas w) = metas w"
    using assms list_all_metas by auto
  show "fst (snd (rewrite_meta_matching w f d p e)) \<longleftrightarrow> perm_table w f \<noteq> None"
    "perm_table (snd (snd (rewrite_meta_matching w f d p e))) =
      (perm_table w)(f := if d then None else map_option (entry_upd p e) (perm_table w f))"
    "meta_inv (snd (snd (rewrite_meta_matching w f d p e)))"
  proof (atomize (full), cases "disk w [''files_meta.dat''] = None")
    case True
    then have "metas w = []"
      by (simp add: metas_def)
    then show "(fst (snd (rewrite_meta_matching w f d p e)) \<longleftrightarrow> perm_table w f \<noteq> None) \<and>
      perm_table (snd (snd (rewrite_meta_matching w f d p e))) =
        (perm_table w)(f := if d then None else map_option (entry_upd p e) (perm_table w f)) \<and>
      meta_inv (snd (snd (rewrite_meta_matching w f d p e)))"
      using True assms(1) by (auto simp: rewrite_meta_matching_absent perm_table_def)
  next
    case False
    have eq: "rewrite_meta_matching w f d p e = (True, list_ex (name_matches f) (metas w),
        w\<lparr>disk := (disk w)([''files_meta.dat''] \<mapsto> concat (map meta_bytes (rewritten f d p e (metas w))))\<rparr>)"
      using rewrite_meta_matching_eq[of w f d p e] False assms(1) by (simp add: take meta_inv_def)
    have wf2: "list_all wf_meta (rewritten f d p e (metas w))"
      by (rule wf_rewritten[OF wf])
    show "(fst (snd (rewrite_meta_matching w f d p e)) \<longleftrightarrow> perm_table w f \<noteq> None) \<and>
      perm_table (snd (snd (rewrite_meta_matching w f d p e))) =
        (perm_table w)(f := if d then None else map_option (entry_upd p e) (perm_table w f)) \<and>
      meta_inv (snd (snd (rewrite_meta_matching w f d p e)))"
      unfolding eq using assms wf wf2 meta_file.concat_len[OF wf2]
      by (cases d) (simp_all add: list_ex_name perm_table_def metas_rewritten table_of_delete
          table_of_keep meta_inv_def whole_records_def db_open_def keys_rewritten)
  qed
qed

lemma create_sim:
  assumes "meta_inv w" "fits MAX_FILENAME f" "fits MAX_USERNAME own" "fits MAX_GROUP grp"
  shows "table_step (Create f own grp p) (perm_table w) =
      (fst (create_file_meta w f own grp p), perm_table (snd (create_file_meta w f own grp p)))"
    "meta_inv (snd (create_file_meta w f own grp p))"
proof -
  have inv: "db_open w" "whole_records w" "distinct (map key (metas w))" "can_read w FILES_DB"
    using assms(1) by (auto simp: meta_inv_def db_open_def)
  note none = find_file_meta_None[OF inv(4) assms(2)]
  consider "\<not> is_valid_perm_string (Some p)" | "is_valid_perm_string (Some p)" "perm_table w f \<noteq> None"
    | "is_valid_perm_string (Some p)" "perm_table w f = None"
    by blast
  then have "table_step (Create f own grp p) (perm_table w) =
      (fst (create_file_meta w f own grp p), perm_table (snd (create_file_meta w f own grp p))) \<and>
    meta_inv (snd (create_file_meta w f own grp p))"
  proof cases
    case 3
    note cr = create_file_meta_eq[OF inv(1,2) 3(1), of f own grp]
    have "db_open (snd (create_file_meta w f own grp p))"
      using inv 3 none cr(1) by (simp add: db_open_def)
    moreover have "f \<notin> key ` set (metas w)"
      using 3 by (simp add: perm_table_def table_of_None)
    ultimately show ?thesis
      using 3 none cr inv assms entry_of_new[OF 3(1) assms(2-4)]
      by (auto simp: perm_table_def table_of_append meta_inv_def)
  qed (use none assms(1) in \<open>auto simp: create_file_meta_def\<close>)
  then show "table_step (Create f own grp p) (perm_table w) =
      (fst (create_file_meta w f own grp p), perm_table (snd (create_file_meta w f own grp p)))"
    "meta_inv (snd (create_file_meta w f own grp p))"
    by auto
qed

interpretation pt: data_refinement meta_inv perm_table cmd_ok meta_step table_step
proof
  fix w c
  assume inv: "meta_inv w" and ok: "cmd_ok c w"
  have "meta_inv (snd (meta_step c w)) \<and>
    table_step c (perm_table w) = (fst (meta_step c w), perm_table (snd (meta_step c w)))"
  proof (cases c)
    case (Create f own grp p)
    then show ?thesis
      using create_sim[OF inv, of f own grp p] ok by (simp del: table_step.simps)
  next
    case (Chmod f p)
    then show ?thesis
      using rewrite_sim[OF inv, of f "Some p" False "-1"] inv ok
      by (auto simp: chmod_file_def entry_upd_def Let_def)
  next
    case (Set_Encrypted f e)
    then show ?thesis
      using rewrite_sim[OF inv, of f None False e] ok
      by (auto simp: set_encrypted_flag_def entry_upd_def Let_def)
  next
    case (Delete f)
    then show ?thesis
      using rewrite_sim[OF inv, of f None True "-1"] ok by (auto simp: delete_file_meta_def)
  qed
  then show "meta_inv (snd (meta_step c w))"
    "table_step c (perm_table w) = (fst (meta_step c w), perm_table (snd (meta_step c w)))"
    by auto
qed

text \<open>A rewrite that deletes nothing keeps every record's key.\<close>

lemma metas_rewrite_keep:
  assumes "length (metas w) \<le> 1024" "fits MAX_FILENAME f"
  shows "map key (metas (snd (snd (rewrite_meta_matching w f False p e)))) = map key (metas w)"
proof (cases "disk w [''files_meta.dat''] = None \<or> \<not> db_open w")
  case True
  then show ?thesis
    by (simp add: rewrite_meta_matching_absent)
next
  case False
  have wf: "list_all wf_meta (metas w)" "list_all wf_meta (rewritten f False p e (metas w))"
    using list_all_metas wf_rewritten by auto
  show ?thesis
    using False assms wf rewrite_meta_matching_eq[of w f False p e]
    by (simp add: metas_rewritten keys_rewritten)
qed

section \<open>Permissions of an entry\<close>

text \<open>
  Which of the nine characters decides: the owner's three for the owner, the group's three for the
  other members of the group, the last three for everybody else.
\<close>

definition class_of :: "entry \<Rightarrow> string \<Rightarrow> string \<Rightarrow> nat" where
  "class_of e user user_group =
     (if user = e_owner e then 0 else if user_group = e_group e then 1 else 2)"

definition allowed :: "entry \<Rightarrow> string \<Rightarrow> string \<Rightarrow> PermType \<Rightarrow> bool" where
  "allowed e user user_group perm \<longleftrightarrow>
     e_perms e ! (3 * class_of e user user_group + perm_index perm) = ''rwx'' ! perm_index perm"

definition table_valid :: "table \<Rightarrow> bool" where
  "table_valid t \<longleftrightarrow> (\<forall>f e. t f = Some e \<longrightarrow> is_valid_perm_string (Some (e_perms e)))"

lemma table_step_valid: "table_valid t \<Longrightarrow> table_valid (snd (table_step c t))"
  by (cases c) (auto simp: table_valid_def)

lemma nth_cstr: "i < length (cstr a) \<Longrightarrow> cstr a ! i = a ! i"
  by (simp add: cstr_def takeWhile_nth)

lemma check_permission_allowed:
  assumes "wf_meta m" "is_valid_perm_string (Some (cstr (m_permissions m)))"
    and "fits MAX_USERNAME user" "fits MAX_GROUP user_group"
  shows "check_permission user user_group m perm \<longleftrightarrow> allowed (entry_of m) user user_group perm"
proof -
  have owner: "strncmp_eq 32 user (m_owner m) \<longleftrightarrow> user = cstr (m_owner m)"
    "strncmp_eq 32 user_group (m_group m) \<longleftrightarrow> user_group = cstr (m_group m)"
    using assms length_cstr[of "m_owner m"] length_cstr[of "m_group m"]
    by (simp_all add: strncmp_eq_iff wf_meta_def fits_def)
  define c where "c = class_of (entry_of m) user user_group"
  define i where "i = 3 * c + perm_index perm"
  have c: "c < 3" and p: "perm_index perm < 3"
    by (simp_all add: c_def class_of_def) (cases perm; simp)
  then have i: "i < 9"
    by (simp add: i_def)
  have bit: "cstr (m_permissions m) ! i = m_permissions m ! i"
    using i valid_perm_length[OF assms(2)] by (simp add: nth_cstr)
  have letter: "''rwxrwxrwx'' ! i = ''rwx'' ! perm_index perm"
  proof -
    have "c = 0 \<or> c = 1 \<or> c = 2"
      using c by auto
    then show ?thesis
      by (cases perm) (auto simp: i_def)
  qed
  have dash: "''rwx'' ! perm_index perm \<noteq> CHR ''-''"
    by (cases perm) simp_all
  have "check_permission user user_group m perm \<longleftrightarrow> m_permissions m ! i \<noteq> CHR ''-''"
    using owner by (simp add: check_permission_def i_def c_def class_of_def entry_of_def)
  also have "\<dots> \<longleftrightarrow> m_permissions m ! i = ''rwx'' ! perm_index perm"
    using valid_perm_nth[OF assms(2) i] dash by (auto simp: bit letter)
  moreover have "e_perms (entry_of m) ! i = m_permissions m ! i"
    by (simp add: entry_of_def bit)
  ultimately show ?thesis
    by (simp only: allowed_def c_def[symmetric] i_def[symmetric])
qed

text \<open>What a lookup says of the table.\<close>

lemma find_file_meta_entry:
  assumes "can_read w FILES_DB" "fits MAX_FILENAME f"
  shows "find_file_meta w f = Some m \<Longrightarrow> perm_table w f = Some (entry_of m) \<and> wf_meta m"
    and "find_file_meta w f = None \<longleftrightarrow> perm_table w f = None"
proof -
  show "find_file_meta w f = None \<longleftrightarrow> perm_table w f = None"
    by (rule find_file_meta_None[OF assms])
  assume "find_file_meta w f = Some m"
  then have "find (\<lambda>m. key m = f) (metas w) = Some m"
    by (simp add: find_file_meta_table[OF assms])
  then show "perm_table w f = Some (entry_of m) \<and> wf_meta m"
    using list_all_metas[of w] by (auto simp: perm_table_def table_of_def list_all_iff dest: find_Some_P)
qed

lemma perm_table_cong: "disk w' [''files_meta.dat''] = disk w [''files_meta.dat''] \<Longrightarrow> perm_table w' = perm_table w"
  by (simp add: perm_table_def metas_def)

lemma meta_inv_cong:
  assumes "disk w' [''files_meta.dat''] = disk w [''files_meta.dat'']"
    "can_read w' = can_read w" "can_write w' = can_write w"
    "[''files_meta.dat''] \<in> dirs w' \<longleftrightarrow> [''files_meta.dat''] \<in> dirs w"
  shows "meta_inv w' \<longleftrightarrow> meta_inv w" "metas w' = metas w"
  using assms by (simp_all add: meta_inv_def db_open_def whole_records_def metas_def content_def)


section \<open>What the operations leave alone\<close>

definition meta_frame :: "world \<Rightarrow> world \<Rightarrow> bool" where
  "meta_frame w w' \<longleftrightarrow> same_env w w' \<and> dirs w' = dirs w \<and>
     (\<forall>r. r \<noteq> [''files_meta.dat''] \<longrightarrow> disk w' r = disk w r)"

lemma meta_frame_refl [simp]: "meta_frame w w"
  by (simp add: meta_frame_def)

lemma rewrite_loop_frame: "meta_frame w w0 \<Longrightarrow> meta_frame w (snd (rewrite_loop f d p e ms (b, w0)))"
  by (simp add: rewrite_loop_eq) (simp add: meta_frame_def fwrite_def same_env_def)

lemma rewrite_frame: "meta_frame w (snd (snd (rewrite_meta_matching w f d p e)))"
  by (auto simp: rewrite_meta_matching_def Let_def fopen_w_def split: option.split
      intro!: rewrite_loop_frame) (simp_all add: meta_frame_def same_env_def)

lemma meta_step_frame: "meta_frame w (snd (meta_step c w))"
proof (cases c)
  case (Create f own grp p)
  then show ?thesis
    by (auto simp: create_file_meta_def fopen_a_def fwrite_def meta_frame_def same_env_def split: option.split)
qed (simp_all add: chmod_file_def set_encrypted_flag_def delete_file_meta_def rewrite_frame)

section \<open>Histories of operations\<close>

text \<open>The bound of 1024 records holds at every step of a history that starts with room for it.\<close>

fun cmd_names :: "meta_cmd \<Rightarrow> bool" where
  "cmd_names (Create f own grp p) \<longleftrightarrow> fits MAX_FILENAME f \<and> fits MAX_USERNAME own \<and> fits MAX_GROUP grp"
| "cmd_names (Chmod f p) \<longleftrightarrow> fits MAX_FILENAME f"
| "cmd_names (Set_Encrypted f e) \<longleftrightarrow> fits MAX_FILENAME f \<and> e \<noteq> -1"
| "cmd_names (Delete f) \<longleftrightarrow> fits MAX_FILENAME f"

lemma length_rewritten: "length (rewritten f d p e ms) \<le> length ms"
  by (induction ms) (auto split: option.splits)

lemma length_metas_rewrite: "length (metas (snd (snd (rewrite_meta_matching w f d p e)))) \<le> length (metas w)"
proof (cases "disk w [''files_meta.dat''] = None \<or> \<not> db_open w")
  case True
  then show ?thesis
    by (simp add: rewrite_meta_matching_absent)
next
  case False
  have "list_all wf_meta (rewritten f d p e (take 1024 (metas w)))"
    by (intro wf_rewritten list_all_take list_all_metas)
  then show ?thesis
    using False rewrite_meta_matching_eq[of w f d p e] length_rewritten[of f d p e "take 1024 (metas w)"]
    by (simp add: metas_rewritten)
qed

lemma length_metas_step: "meta_inv w \<Longrightarrow> length (metas (snd (meta_step c w))) \<le> Suc (length (metas w))"
proof (cases c)
  case (Create f own grp p)
  assume inv: "meta_inv w"
  show ?thesis
  proof (cases "is_valid_perm_string (Some p) \<and> find_file_meta w f = None")
    case True
    then show ?thesis
      using create_file_meta_eq(2)[of w p f own grp] inv Create by (simp add: meta_inv_def)
  next
    case False
    then show ?thesis
      using Create by (auto simp: create_file_meta_def)
  qed
qed (simp_all add: chmod_file_def set_encrypted_flag_def delete_file_meta_def length_metas_rewrite le_SucI)

lemma names_ok:
  "meta_inv w \<Longrightarrow> list_all cmd_names cs \<Longrightarrow> length (metas w) + length cs \<le> 1024 \<Longrightarrow>
   all_ok cmd_ok meta_step cs w"
proof (induction cs arbitrary: w)
  case (Cons c cs)
  have ok: "cmd_ok c w"
    using Cons.prems by (cases c) auto
  then have "meta_inv (snd (meta_step c w))" "length (metas (snd (meta_step c w))) \<le> Suc (length (metas w))"
    using Cons.prems(1) by (auto intro: pt.step_inv length_metas_step)
  with Cons ok show ?case
    by simp
qed simp

text \<open>
  C3: Refinement of the permission database. Any history of creations, permission changes,
  encryption-flag changes and deletions on \<open>files_meta.dat\<close> (names that fit their arrays, room
  for at most 1024 records) returns, call by call, the results of the same history on a finite map
  from names to owner, group, permissions and flag, and ends in a file that stands for the map's
  final state, with whole records and no name twice.
\<close>

theorem metadata_file_implements_table:
  assumes "meta_inv w" "list_all cmd_names cs" "length (metas w) + length cs \<le> 1024"
  shows "run_cmds table_step cs (perm_table w) =
      (fst (run_cmds meta_step cs w), perm_table (snd (run_cmds meta_step cs w))) \<and>
    meta_inv (snd (run_cmds meta_step cs w))"
  using pt.run_sim[OF assms(1) names_ok[OF assms]] pt.run_inv[OF assms(1) names_ok[OF assms]] by simp

lemma meta_inv_fresh: "meta_inv fresh_world" "metas fresh_world = []" "perm_table fresh_world = Map.empty"
  by (simp_all add: meta_inv_def db_open_def whole_records_def metas_def content_def perm_table_def fresh_world_def)

theorem metadata_file_implements_table_witness:
  "fst (run_cmds meta_step
     [Create ''notes'' ''ann'' ''dev'' ''rw-r-----'', Create ''notes'' ''bob'' ''ops'' ''rwxrwxrwx'',
      Chmod ''notes'' ''rwxr-x---'', Delete ''draft'', Set_Encrypted ''notes'' 1, Delete ''notes''] fresh_world) =
   [True, False, True, False, True, True]"
  using metadata_file_implements_table[OF meta_inv_fresh(1), of
     "[Create ''notes'' ''ann'' ''dev'' ''rw-r-----'', Create ''notes'' ''bob'' ''ops'' ''rwxrwxrwx'',
      Chmod ''notes'' ''rwxr-x---'', Delete ''draft'', Set_Encrypted ''notes'' 1, Delete ''notes'']"]
  by (simp add: meta_inv_fresh fits_def is_valid_perm_string_def NUL_def upt_rec)

text \<open>
  The permission check is the owner, group, others rule: on a record with a valid permission
  string the check grants the permission exactly when the letter r, w or x stands at its place in
  the triple of the first class the user belongs to.
\<close>

theorem check_permission_class_rule:
  assumes "wf_meta m" "is_valid_perm_string (Some (cstr (m_permissions m)))"
    and "fits MAX_USERNAME user" "fits MAX_GROUP user_group"
  shows "check_permission user user_group m perm \<longleftrightarrow>
    cstr (m_permissions m) ! ((if user = cstr (m_owner m) then 0
      else if user_group = cstr (m_group m) then 3 else 6) + perm_index perm) = ''rwx'' ! perm_index perm"
  using check_permission_allowed[OF assms] by (simp add: allowed_def class_of_def entry_of_def)

theorem check_permission_class_rule_witness:
  "\<not> check_permission ''bob'' ''dev'' (new_meta ''notes'' ''ann'' ''dev'' ''rw-r-----'') PERM_WRITE"
  by (subst check_permission_class_rule)
    (simp_all add: new_meta_def fits_def is_valid_perm_string_def NUL_def upt_rec cstr_strncpy_zeros
      wf_meta_def strncpy_def zeros_def numeral_eq_Suc)

text \<open>
  C38: The bound of the rewriting operations. A database that holds more than 1024 records loses
  every record behind the first 1024 at the next permission change (with a valid string), encryption-flag
  change or deletion, whichever file that operation names: what is left are the first 1024, less the file
  named if it is deleted. The operation reports its usual result, whether the file is among those.
\<close>

theorem rewrite_drops_records_beyond_1024:
  assumes "db_open w" "fits MAX_FILENAME f" "1024 < length (metas w)" "first = take 1024 (map key (metas w))"
  shows "(\<forall>p. is_valid_perm_string (Some p) \<longrightarrow>
      map key (metas (snd (chmod_file w f p))) = first \<and> (fst (chmod_file w f p) \<longleftrightarrow> f \<in> set first)) \<and>
    (\<forall>x. map key (metas (snd (set_encrypted_flag w f x))) = first \<and>
      (fst (set_encrypted_flag w f x) \<longleftrightarrow> f \<in> set first)) \<and>
    map key (metas (snd (delete_file_meta w f))) = filter (\<lambda>k. k \<noteq> f) first \<and>
    (fst (delete_file_meta w f) \<longleftrightarrow> f \<in> set first)"
proof -
  have d: "disk w [''files_meta.dat''] \<noteq> None"
    using assms(3) by (auto simp: metas_def split: option.splits)
  have wf: "list_all wf_meta (take 1024 (metas w))"
    by (intro list_all_take list_all_metas)
  have "f \<in> set first \<longleftrightarrow> list_ex (name_matches f) (take 1024 (metas w))"
    using list_ex_name[OF wf assms(2)] by (auto simp: assms(4) table_of_None take_map)
  then show ?thesis
    using rewrite_meta_matching_eq[OF assms(1) d, of f] assms(2,4) wf wf_rewritten[OF wf]
    by (simp add: chmod_file_def set_encrypted_flag_def delete_file_meta_def metas_rewritten keys_rewritten take_map)
qed

theorem rewrite_drops_records_beyond_1024_witness:
  "\<exists>w. length (metas w) = 1025 \<and> length (metas (snd (chmod_file w ''notes'' ''rw-rw-r--''))) = 1024 \<and>
     length (metas (snd (delete_file_meta w ''notes''))) = 1024"
proof -
  define ms where "ms = replicate 1025 (new_meta ''old'' ''ann'' ''dev'' ''rw-r-----'')"
  define w where "w = fresh_world\<lparr>disk := (disk fresh_world)([''files_meta.dat''] \<mapsto> concat (map meta_bytes ms))\<rparr>"
  have m: "metas w = ms"
    unfolding w_def by (rule metas_rewritten) (simp add: ms_def list_all_iff)
  have v: "is_valid_perm_string (Some ''rw-rw-r--'')"
    by (simp add: is_valid_perm_string_def upt_rec)
  have r: "map key (metas w) = replicate 1025 ''old''"
    by (simp add: m ms_def key_def new_meta_def cstr_strncpy_zeros NUL_def)
  have "db_open w" "fits MAX_FILENAME ''notes''" "1024 < length (metas w)"
    by (simp_all only: m, simp_all add: ms_def w_def db_open_def fresh_world_def fits_def NUL_def)
  from rewrite_drops_records_beyond_1024[OF this refl] v
  have "map key (metas (snd (chmod_file w ''notes'' ''rw-rw-r--''))) = take 1024 (map key (metas w))"
    "map key (metas (snd (delete_file_meta w ''notes''))) = filter (\<lambda>k. k \<noteq> ''notes'') (take 1024 (map key (metas w)))"
    by blast+
  from arg_cong[OF this(1), of length] arg_cong[OF this(2), of length] show ?thesis
    using m r by (intro exI[of _ w]) (simp add: ms_def)
qed

end
