(* ===== verification/Fileops.thy ===== *)
theory Fileops
  imports Perm_Table Crypto
begin

text \<open>
  \<open>fileops.c\<close>: the permission-gated, audit-logged file operations. Contents live under
  \<open>storage/\<close>, metadata in \<open>files_meta.dat\<close>. A \<open>passphrase\<close> that may be \<open>NULL\<close> is
  an option. \<open>transform_file\<close> writes to the stream of an \<open>fopen\<close> whose failure it does not
  check; \<open>None\<close> is that undefined behaviour. \<open>fs_read_file\<close> reads \<open>buf_size - 1\<close> bytes, which for
  \<open>buf_size\<close> 0 is 0 here and the greatest \<open>size_t\<close> in C; the program's only call passes 4096.
\<close>

text \<open>The path, cut by \<open>snprintf\<close> to a buffer of \<open>MAX_FILENAME + 32\<close> bytes.\<close>

definition storage_path :: "world \<Rightarrow> string \<Rightarrow> nat \<Rightarrow> string \<times> world" where
  "storage_path w fname out_size =
     (take (out_size - 1) (STORAGE_DIR @ ''/'' @ fname), mkdir w STORAGE_DIR)"

definition path_size :: nat where
  "path_size = MAX_FILENAME + 32"

definition fs_log :: "world \<Rightarrow> string \<Rightarrow> string \<Rightarrow> string \<Rightarrow> string \<Rightarrow> world" where
  "fs_log w user action fname result =
     log_action w (Some user) (Some action) (Some fname) (Some result)"

definition fs_create_file ::
  "world \<Rightarrow> string \<Rightarrow> string \<Rightarrow> string \<Rightarrow> string \<Rightarrow> string \<Rightarrow> bool \<times> world" where
  "fs_create_file w user grp fname perm_str cont =
     (let (created, w1) = create_file_meta w fname user grp perm_str in
      if \<not> created then (False, fs_log w1 user ''CREATE'' fname ''FAILED_META_EXISTS_OR_INVALID'')
      else
        let (path, w2) = storage_path w1 fname path_size in
        (case fopen_w w2 path of
           None \<Rightarrow>
             let (_, w3) = delete_file_meta w2 fname
             in (False, fs_log w3 user ''CREATE'' fname ''FAILED_IO_ERROR'')
         | Some w3 \<Rightarrow> (True, fs_log (fwrite w3 path cont) user ''CREATE'' fname ''SUCCESS'')))"

definition fs_read_file ::
  "world \<Rightarrow> string \<Rightarrow> string \<Rightarrow> string \<Rightarrow> string option \<Rightarrow> nat \<Rightarrow> string option \<times> world" where
  "fs_read_file w user user_group fname passphrase buf_size =
     (case find_file_meta w fname of
        None \<Rightarrow> (None, fs_log w user ''READ'' fname ''FAILED_NOT_FOUND'')
      | Some meta \<Rightarrow>
          if \<not> check_permission user user_group meta PERM_READ
          then (None, fs_log w user ''READ'' fname ''FAILED_PERMISSION_DENIED'')
          else
            let (path, w1) = storage_path w fname path_size in
            (case fopen_r w1 path of
               None \<Rightarrow> (None, fs_log w1 user ''READ'' fname ''FAILED_STORAGE_MISSING'')
             | Some bs \<Rightarrow>
                 let out = take (buf_size - 1) bs; n = length out;
                     out1 = (case passphrase of
                               Some pass \<Rightarrow>
                                 if m_is_encrypted meta \<noteq> 0
                                 then chars_of (xor_cipher (bytes_of out) n pass) else out
                             | None \<Rightarrow> out)
                 in (Some out1, fs_log w1 user ''READ'' fname ''SUCCESS'')))"

definition fs_write_file ::
  "world \<Rightarrow> string \<Rightarrow> string \<Rightarrow> string \<Rightarrow> string option \<Rightarrow> string \<Rightarrow> bool \<Rightarrow> bool \<times> world" where
  "fs_write_file w user user_group fname passphrase cont app =
     (case find_file_meta w fname of
        None \<Rightarrow> (False, fs_log w user ''WRITE'' fname ''FAILED_NOT_FOUND'')
      | Some meta \<Rightarrow>
          if \<not> check_permission user user_group meta PERM_WRITE
          then (False, fs_log w user ''WRITE'' fname ''FAILED_PERMISSION_DENIED'')
          else
            let (path, w1) = storage_path w fname path_size; len = length cont in
            if \<not> can_alloc w1 (len + 1)
            then (False, fs_log w1 user ''WRITE'' fname ''FAILED_MEMORY_ERROR'')
            else
              let buf = (case passphrase of
                           Some pass \<Rightarrow>
                             if m_is_encrypted meta \<noteq> 0
                             then chars_of (xor_cipher (bytes_of cont) len pass) else cont
                         | None \<Rightarrow> cont) in
              (case (if app then fopen_a w1 path else fopen_w w1 path) of
                 None \<Rightarrow> (False, fs_log w1 user ''WRITE'' fname ''FAILED_IO_ERROR'')
               | Some w2 \<Rightarrow>
                   (True, fs_log (fwrite w2 path buf) user
                      (if app then ''APPEND'' else ''WRITE'') fname ''SUCCESS'')))"

definition fs_delete_file :: "world \<Rightarrow> string \<Rightarrow> string \<Rightarrow> string \<Rightarrow> bool \<times> world" where
  "fs_delete_file w user user_group fname =
     (case find_file_meta w fname of
        None \<Rightarrow> (False, fs_log w user ''DELETE'' fname ''FAILED_NOT_FOUND'')
      | Some meta \<Rightarrow>
          if \<not> check_permission user user_group meta PERM_WRITE
          then (False, fs_log w user ''DELETE'' fname ''FAILED_PERMISSION_DENIED'')
          else
            let (path, w1) = storage_path w fname path_size;
                w2 = remove_file w1 path;
                (_, w3) = delete_file_meta w2 fname
            in (True, fs_log w3 user ''DELETE'' fname ''SUCCESS''))"

definition transform_file ::
  "world \<Rightarrow> string \<Rightarrow> string \<Rightarrow> string \<Rightarrow> string \<Rightarrow> int \<Rightarrow> int \<Rightarrow> string \<Rightarrow> (bool \<times> world) option" where
  "transform_file w user user_group fname passphrase expect_encrypted set_to action_name =
     (case find_file_meta w fname of
        None \<Rightarrow> Some (False, fs_log w user action_name fname ''FAILED_NOT_FOUND'')
      | Some meta \<Rightarrow>
          if \<not> check_permission user user_group meta PERM_WRITE
          then Some (False, fs_log w user action_name fname ''FAILED_PERMISSION_DENIED'')
          else if m_is_encrypted meta \<noteq> word_of_int expect_encrypted
          then Some (False, fs_log w user action_name fname ''FAILED_WRONG_STATE'')
          else
            let (path, w1) = storage_path w fname path_size in
            (case fopen_r w1 path of
               None \<Rightarrow> Some (False, fs_log w1 user action_name fname ''FAILED_STORAGE_MISSING'')
             | Some bs \<Rightarrow>
                 let size = length bs in
                 if \<not> can_alloc w1 size
                 then Some (False, fs_log w1 user action_name fname ''FAILED_MEMORY_ERROR'')
                 else
                   let buf = xor_cipher (bytes_of bs) size passphrase in
                   (case fopen_w w1 path of
                      None \<Rightarrow> None
                    | Some w2 \<Rightarrow>
                        let w3 = fwrite w2 path (chars_of buf);
                            (_, w4) = set_encrypted_flag w3 fname set_to
                        in Some (True, fs_log w4 user action_name fname ''SUCCESS''))))"

definition fs_encrypt_file ::
  "world \<Rightarrow> string \<Rightarrow> string \<Rightarrow> string \<Rightarrow> string \<Rightarrow> (bool \<times> world) option" where
  "fs_encrypt_file w user user_group fname passphrase =
     transform_file w user user_group fname passphrase 0 1 ''ENCRYPT''"

definition fs_decrypt_file ::
  "world \<Rightarrow> string \<Rightarrow> string \<Rightarrow> string \<Rightarrow> string \<Rightarrow> (bool \<times> world) option" where
  "fs_decrypt_file w user user_group fname passphrase =
     transform_file w user user_group fname passphrase 1 0 ''DECRYPT''"

end
