(* ===== verification/Fileops_Correct.thy ===== *)
theory Fileops_Correct
  imports Fileops
begin

text \<open>
  Correctness of the file operations over the permission table of \<open>Perm_Table\<close> and the cipher laws
  of \<open>Crypto\<close>: what each operation does to the table, the stored bytes, the audit log and every
  other file; access control; the round trips through storage and through encryption; and the
  places where the operations lose data.
\<close>

section \<open>Vocabulary\<close>

definition spath :: "string \<Rightarrow> string" where
  "spath f = STORAGE_DIR @ ''/'' @ f"

definition sloc :: "string \<Rightarrow> path" where
  "sloc f = [''storage'', f]"

definition plain_file :: "string \<Rightarrow> bool" where
  "plain_file f \<longleftrightarrow> fits MAX_FILENAME f \<and> plain_name f"

definition fs_inv :: "world \<Rightarrow> bool" where
  "fs_inv w \<longleftrightarrow> meta_inv w \<and> table_valid (perm_table w)"

definition storage_open :: "world \<Rightarrow> string \<Rightarrow> bool" where
  "storage_open w f \<longleftrightarrow> can_read w (spath f) \<and> can_write w (spath f) \<and> sloc f \<notin> dirs w"

definition names_fit :: "string \<Rightarrow> string \<Rightarrow> bool" where
  "names_fit user grp \<longleftrightarrow> fits MAX_USERNAME user \<and> fits MAX_GROUP grp"

text \<open>
  The new world differs from the old one in its audit log, in the directory \<open>storage\<close> and in the
  files given.
\<close>

definition effect :: "world \<Rightarrow> world \<Rightarrow> (path \<Rightarrow> string option) \<Rightarrow> bool" where
  "effect w w' d \<longleftrightarrow> same_env w w' \<and> dirs w \<subseteq> dirs w' \<and> dirs w' \<subseteq> insert [''storage''] (dirs w) \<and>
     (\<forall>r. r \<noteq> [''audit.log''] \<longrightarrow> disk w' r = d r)"

text \<open>One audit line was appended, if the log can be opened.\<close>

definition logged :: "world \<Rightarrow> world \<Rightarrow> string \<Rightarrow> string \<Rightarrow> string \<Rightarrow> string \<Rightarrow> bool" where
  "logged w w' user action f result \<longleftrightarrow>
     content w' [''audit.log''] = content w [''audit.log''] @
       (if log_open w then log_line (clock w) (Some user) (Some action) (Some f) (Some result) else [])"

text \<open>The bytes of a text under a key, when the file is marked encrypted and a passphrase is given.\<close>

definition cipher :: "entry \<Rightarrow> string option \<Rightarrow> string \<Rightarrow> string" where
  "cipher e pass s =
     (case pass of None \<Rightarrow> s
      | Some p \<Rightarrow> if e_enc e \<noteq> 0 then chars_of (xor_cipher (bytes_of s) (length s) p) else s)"

section \<open>Basic facts\<close>

lemma sloc_simps [simp]:
  "sloc f \<noteq> [a]" "[a] \<noteq> sloc f" "sloc f = sloc g \<longleftrightarrow> f = g" "sloc f = [''storage'', g] \<longleftrightarrow> f = g"
  by (simp_all add: sloc_def)

lemma resolve_spath: "plain_file f \<Longrightarrow> resolve (spath f) = sloc f"
  using resolve_dir_plain[of STORAGE_DIR f]
  by (simp add: plain_file_def spath_def sloc_def STORAGE_DIR_def plain_name_def)

lemma storage_path_eq: "fits MAX_FILENAME f \<Longrightarrow> storage_path w f path_size = (spath f, mkdir w STORAGE_DIR)"
  by (simp add: storage_path_def path_size_def spath_def STORAGE_DIR_def fits_def)

lemma mkdir_simps [simp]:
  "disk (mkdir w p) = disk w" "can_read (mkdir w p) = can_read w" "can_write (mkdir w p) = can_write w"
  "can_alloc (mkdir w p) = can_alloc w" "same_env w (mkdir w p)" "content (mkdir w p) = content w"
  "clock (mkdir w p) = clock w"
  by (auto simp: mkdir_def same_env_def content_def)

lemma dirs_mkdir: "dirs w \<subseteq> dirs (mkdir w STORAGE_DIR)" "dirs (mkdir w STORAGE_DIR) \<subseteq> insert [''storage''] (dirs w)"
  by (auto simp: mkdir_def)

lemma sloc_dirs_mkdir [simp]: "sloc f \<in> dirs (mkdir w STORAGE_DIR) \<longleftrightarrow> sloc f \<in> dirs w"
  by (auto simp: mkdir_def)

lemma effect_log [simp]: "effect w w' d \<Longrightarrow> effect w (fs_log w' u a f x) d"
  using log_action_env[of w'] same_env_trans
  by (auto simp: effect_def fs_log_def log_action_disk log_action_env intro: same_env_trans)

lemma effect_self: "effect w (mkdir w STORAGE_DIR) (disk w)"
  using dirs_mkdir by (simp add: effect_def)

lemma effect_refl [simp]: "effect w w (disk w)"
  by (auto simp: effect_def)

lemma effect_frame:
  assumes "effect w w' d" "d [''files_meta.dat''] = disk w [''files_meta.dat'']"
  shows "perm_table w' = perm_table w" "fs_inv w' \<longleftrightarrow> fs_inv w" "metas w' = metas w"
    "storage_open w' f \<longleftrightarrow> storage_open w f"
proof -
  have env: "disk w' [''files_meta.dat''] = disk w [''files_meta.dat'']"
    "can_read w' = can_read w" "can_write w' = can_write w"
    "[''files_meta.dat''] \<in> dirs w' \<longleftrightarrow> [''files_meta.dat''] \<in> dirs w"
    "sloc f \<in> dirs w' \<longleftrightarrow> sloc f \<in> dirs w" for f
    using assms by (auto simp: effect_def same_env_def sloc_def)
  show "perm_table w' = perm_table w" "metas w' = metas w" "fs_inv w' \<longleftrightarrow> fs_inv w"
    using meta_inv_cong[OF env(1-4)] perm_table_cong[OF env(1)] by (auto simp: fs_inv_def)
  show "storage_open w' f \<longleftrightarrow> storage_open w f"
    using env by (simp add: storage_open_def)
qed

lemma effect_trans:
  assumes "effect w w1 d" "effect w1 w2 d2" "\<And>r. r \<noteq> [''audit.log''] \<Longrightarrow> d2 r = d' r"
  shows "effect w w2 d'"
  using assms by (auto simp: effect_def intro: same_env_trans)

lemma logged_fs_log:
  assumes "effect w w' d" "d [''audit.log''] = disk w [''audit.log'']" "disk w' [''audit.log''] = disk w [''audit.log'']"
  shows "logged w (fs_log w' u a f x) u a f x"
proof -
  have "log_open w' = log_open w" "clock w' = clock w" "content w' [''audit.log''] = content w [''audit.log'']"
    using assms by (auto simp: effect_def same_env_def log_open_def content_def)
  then show ?thesis
    by (simp add: logged_def fs_log_def log_action_appends)
qed

text \<open>The entry behind a lookup, and the decision of the permission check on it.\<close>

lemma lookup_entry:
  assumes "fs_inv w" "plain_file f \<or> fits MAX_FILENAME f" "perm_table w f = Some e"
  obtains m where "find_file_meta w f = Some m" "entry_of m = e" "wf_meta m"
    "m_is_encrypted m = e_enc e"
    "\<And>u g p. names_fit u g \<Longrightarrow> check_permission u g m p = allowed e u g p"
proof -
  have f: "fits MAX_FILENAME f" and rd: "can_read w FILES_DB"
    using assms by (auto simp: plain_file_def fs_inv_def meta_inv_def db_open_def)
  from find_file_meta_entry(2)[OF rd f] assms obtain m where m: "find_file_meta w f = Some m"
    by auto
  then have e: "entry_of m = e" "wf_meta m"
    using find_file_meta_entry(1)[OF rd f m] assms by auto
  have "is_valid_perm_string (Some (e_perms e))"
    using assms by (auto simp: fs_inv_def table_valid_def)
  then have "is_valid_perm_string (Some (cstr (m_permissions m)))"
    using e by (auto simp: entry_of_def)
  then show thesis
    using that[OF m e(1,2)] e check_permission_allowed[OF e(2)]
    by (auto simp: entry_of_def names_fit_def)
qed

lemma lookup_none:
  "fs_inv w \<Longrightarrow> fits MAX_FILENAME f \<Longrightarrow> perm_table w f = None \<Longrightarrow> find_file_meta w f = None"
  using find_file_meta_entry(2)[of w f] by (simp add: fs_inv_def meta_inv_def db_open_def)

section \<open>Effects of the operations\<close>

lemma read_effect:
  assumes "fs_inv w" "fits MAX_FILENAME f" "names_fit u g" "perm_table w f = Some e"
  shows "fs_read_file w u g f pass n =
    (if \<not> allowed e u g PERM_READ then (None, fs_log w u ''READ'' f ''FAILED_PERMISSION_DENIED'')
     else (case fopen_r w (spath f) of
             None \<Rightarrow> (None, fs_log (mkdir w STORAGE_DIR) u ''READ'' f ''FAILED_STORAGE_MISSING'')
           | Some bs \<Rightarrow> (Some (cipher e pass (take (n - 1) bs)),
                         fs_log (mkdir w STORAGE_DIR) u ''READ'' f ''SUCCESS'')))"
proof -
  obtain m where "find_file_meta w f = Some m" "m_is_encrypted m = e_enc e"
    "\<And>p. check_permission u g m p = allowed e u g p"
    using lookup_entry[OF assms(1) disjI2[OF assms(2)] assms(4)] assms(3) by metis
  then show ?thesis
    using assms
    by (simp add: fs_read_file_def storage_path_eq cipher_def Let_def fopen_r_def split: option.split)
qed

lemma write_effect:
  assumes "fs_inv w" "plain_file f" "names_fit u g" "perm_table w f = Some e" "allowed e u g PERM_WRITE"
    and "storage_open w f" "can_alloc w (length c + 1)"
  shows "fst (fs_write_file w u g f pass c app)"
    "effect w (snd (fs_write_file w u g f pass c app))
      ((disk w)(sloc f \<mapsto> (if app then content w (sloc f) else []) @ cipher e pass c))"
    "logged w (snd (fs_write_file w u g f pass c app)) u (if app then ''APPEND'' else ''WRITE'') f ''SUCCESS''"
proof -
  have f: "fits MAX_FILENAME f" "resolve (spath f) = sloc f"
    using assms by (auto simp: plain_file_def resolve_spath)
  obtain m where m: "find_file_meta w f = Some m" "m_is_encrypted m = e_enc e"
    "\<And>p. check_permission u g m p = allowed e u g p"
    using lookup_entry[OF assms(1) disjI1[OF assms(2)] assms(4)] assms(3) by metis
  define w1 where "w1 = mkdir w STORAGE_DIR"
  have op: "(if app then fopen_a w1 (spath f) else fopen_w w1 (spath f)) =
      Some (w1\<lparr>disk := (disk w)(sloc f \<mapsto> (if app then content w (sloc f) else []))\<rparr>)"
    using assms f by (simp add: fopen_a_def fopen_w_def storage_open_def w1_def)
  have fw: "fwrite (w1\<lparr>disk := (disk w)(sloc f \<mapsto> a)\<rparr>) (spath f) b = w1\<lparr>disk := (disk w)(sloc f \<mapsto> a @ b)\<rparr>" for a b
    by (simp add: fwrite_def f content_def)
  have eq: "fs_write_file w u g f pass c app =
      (True, fs_log (w1\<lparr>disk := (disk w)(sloc f \<mapsto> (if app then content w (sloc f) else []) @ cipher e pass c)\<rparr>)
        u (if app then ''APPEND'' else ''WRITE'') f ''SUCCESS'')"
    using assms m op f
    by (simp add: fs_write_file_def storage_path_eq Let_def w1_def[symmetric] cipher_def fw split: option.split)
      (simp add: w1_def)
  show "fst (fs_write_file w u g f pass c app)"
    by (simp add: eq)
  have eff: "effect w (w1\<lparr>disk := (disk w)(sloc f \<mapsto> (if app then content w (sloc f) else []) @ cipher e pass c)\<rparr>)
      ((disk w)(sloc f \<mapsto> (if app then content w (sloc f) else []) @ cipher e pass c))"
    using effect_self[of w] by (simp add: effect_def w1_def same_env_def)
  then show "effect w (snd (fs_write_file w u g f pass c app))
      ((disk w)(sloc f \<mapsto> (if app then content w (sloc f) else []) @ cipher e pass c))"
    by (simp add: eq)
  show "logged w (snd (fs_write_file w u g f pass c app)) u (if app then ''APPEND'' else ''WRITE'') f ''SUCCESS''"
    unfolding eq snd_conv by (rule logged_fs_log[OF eff]) simp_all
qed


lemma create_effect:
  assumes "fs_inv w" "plain_file f" "names_fit u g" "perm_table w f = None"
    and "is_valid_perm_string (Some p)" "storage_open w f"
  shows "fst (fs_create_file w u g f p c)"
    "perm_table (snd (fs_create_file w u g f p c)) =
       (perm_table w)(f \<mapsto> \<lparr>e_owner = u, e_group = g, e_perms = p, e_enc = 0\<rparr>)"
    "fs_inv (snd (fs_create_file w u g f p c))"
    "effect w (snd (fs_create_file w u g f p c))
       (\<lambda>r. if r = sloc f then Some c
            else if r = [''files_meta.dat''] then disk (snd (create_file_meta w f u g p)) r else disk w r)"
    "logged w (snd (fs_create_file w u g f p c)) u ''CREATE'' f ''SUCCESS''"
proof -
  define w1 where "w1 = snd (create_file_meta w f u g p)"
  have f: "fits MAX_FILENAME f" "resolve (spath f) = sloc f"
    using assms by (auto simp: plain_file_def resolve_spath)
  have inv: "meta_inv w" "table_valid (perm_table w)"
    using assms by (auto simp: fs_inv_def)
  have "table_step (Create f u g p) (perm_table w) = (fst (create_file_meta w f u g p), perm_table w1)"
    "meta_inv w1"
    using create_sim[OF inv(1) f(1), of u g p] assms by (simp_all add: names_fit_def w1_def del: table_step.simps)
  moreover from this have "table_valid (perm_table w1)"
    using table_step_valid[OF inv(2), of "Create f u g p"] by simp
  ultimately have c: "create_file_meta w f u g p = (True, w1)" "fs_inv w1"
    "perm_table w1 = (perm_table w)(f \<mapsto> \<lparr>e_owner = u, e_group = g, e_perms = p, e_enc = 0\<rparr>)"
    using assms by (auto simp: w1_def fs_inv_def prod_eq_iff)
  have fr: "meta_frame w w1"
    using meta_step_frame[of w "Create f u g p"] by (simp add: w1_def)
  define w2 where "w2 = mkdir w1 STORAGE_DIR"
  have op: "fopen_w w2 (spath f) = Some (w2\<lparr>disk := (disk w1)(sloc f \<mapsto> [])\<rparr>)"
    using assms f fr by (auto simp: fopen_w_def storage_open_def w2_def meta_frame_def same_env_def)
  define w3 where "w3 = w2\<lparr>disk := (disk w1)(sloc f \<mapsto> c)\<rparr>"
  have eq: "fs_create_file w u g f p c = (True, fs_log w3 u ''CREATE'' f ''SUCCESS'')"
    using c op f by (simp add: fs_create_file_def storage_path_eq w2_def[symmetric] Let_def w3_def fwrite_def content_def)
  show "fst (fs_create_file w u g f p c)"
    by (simp add: eq)
  have eff1: "effect w1 w3 ((disk w1)(sloc f \<mapsto> c))"
    using effect_self[of w1] by (simp add: effect_def w3_def w2_def same_env_def)
  then have eff1': "effect w1 (snd (fs_create_file w u g f p c)) ((disk w1)(sloc f \<mapsto> c))"
    by (simp add: eq)
  from effect_frame[OF eff1'] c(2,3)
  show "perm_table (snd (fs_create_file w u g f p c)) =
       (perm_table w)(f \<mapsto> \<lparr>e_owner = u, e_group = g, e_perms = p, e_enc = 0\<rparr>)"
    "fs_inv (snd (fs_create_file w u g f p c))"
    by simp_all
  have eff: "effect w w3 (\<lambda>r. if r = sloc f then Some c
            else if r = [''files_meta.dat''] then disk w1 r else disk w r)"
    using eff1 fr same_env_trans[of w w1 w3] by (auto simp: effect_def meta_frame_def)
  then show "effect w (snd (fs_create_file w u g f p c))
       (\<lambda>r. if r = sloc f then Some c
            else if r = [''files_meta.dat''] then disk (snd (create_file_meta w f u g p)) r else disk w r)"
    unfolding eq snd_conv w1_def[symmetric] by (rule effect_log)
  have "disk w3 [''audit.log''] = disk w [''audit.log'']"
    using fr by (simp add: w3_def meta_frame_def)
  then show "logged w (snd (fs_create_file w u g f p c)) u ''CREATE'' f ''SUCCESS''"
    unfolding eq snd_conv by (intro logged_fs_log[OF eff]) simp_all
qed

lemma transform_effect:
  assumes "fs_inv w" "plain_file f" "names_fit u g" "perm_table w f = Some e" "allowed e u g PERM_WRITE"
    and "storage_open w f" "disk w (sloc f) = Some bs" "can_alloc w (length bs)"
    and "e_enc e = word_of_int ex" "length (metas w) \<le> 1024" "st \<noteq> -1"
  shows "\<exists>w'. transform_file w u g f pass ex st act = Some (True, w') \<and>
    perm_table w' = (perm_table w)(f \<mapsto> e\<lparr>e_enc := word_of_int st\<rparr>) \<and> fs_inv w' \<and>
    length (metas w') = length (metas w) \<and>
    effect w w' (\<lambda>r. if r = sloc f then Some (chars_of (xor_cipher (bytes_of bs) (length bs) pass))
      else if r = [''files_meta.dat''] then disk w' r else disk w r) \<and>
    logged w w' u act f ''SUCCESS''"
proof -
  have f: "fits MAX_FILENAME f" "resolve (spath f) = sloc f"
    using assms by (auto simp: plain_file_def resolve_spath)
  obtain m where m: "find_file_meta w f = Some m" "m_is_encrypted m = e_enc e"
    "\<And>p. check_permission u g m p = allowed e u g p"
    using lookup_entry[OF assms(1) disjI1[OF assms(2)] assms(4)] assms(3) by metis
  define buf where "buf = chars_of (xor_cipher (bytes_of bs) (length bs) pass)"
  define w1 where "w1 = mkdir w STORAGE_DIR"
  define w3 where "w3 = w1\<lparr>disk := (disk w)(sloc f \<mapsto> buf)\<rparr>"
  define w4 where "w4 = snd (set_encrypted_flag w3 f st)"
  have "fopen_w w1 (spath f) = Some (w1\<lparr>disk := (disk w)(sloc f \<mapsto> [])\<rparr>)" "fopen_r w1 (spath f) = Some bs"
    using assms f by (simp_all add: fopen_r_def fopen_w_def storage_open_def w1_def)
  then have eq: "transform_file w u g f pass ex st act = Some (True, fs_log w4 u act f ''SUCCESS'')"
    using assms m f
    by (simp add: transform_file_def storage_path_eq w1_def[symmetric] Let_def split_beta fwrite_def
        content_def w4_def w3_def buf_def) (simp add: w1_def)
  have eff3: "effect w w3 ((disk w)(sloc f \<mapsto> buf))"
    using effect_self[of w] by (simp add: effect_def w3_def w1_def same_env_def)
  note fr3 = effect_frame[OF eff3]
  have t: "table_step (Set_Encrypted f st) (perm_table w) = (fst (set_encrypted_flag w3 f st), perm_table w4)"
    "meta_inv w4"
    using pt.step_sim[of w3 "Set_Encrypted f st"] pt.step_inv[of w3 "Set_Encrypted f st"] fr3 assms f
    by (simp_all add: fs_inv_def w4_def)
  have inv4: "fs_inv w4"
    using t table_step_valid[of "perm_table w" "Set_Encrypted f st"] assms(1)
    by (simp add: fs_inv_def del: table_step.simps)
  have fr: "meta_frame w3 w4"
    using meta_step_frame[of w3 "Set_Encrypted f st"] by (simp add: w4_def)
  have len: "length (metas w4) = length (metas w)"
    using arg_cong[OF metas_rewrite_keep[of w3 f None st], of length] fr3 assms f
    by (simp add: w4_def set_encrypted_flag_def)
  have eff4: "effect w w4 (\<lambda>r. if r = sloc f then Some buf
      else if r = [''files_meta.dat''] then disk w4 r else disk w r)"
    using eff3 fr by (auto simp: effect_def meta_frame_def intro: same_env_trans)
  have "effect w4 (fs_log w4 u act f ''SUCCESS'') (disk w4)"
    by simp
  note fr4 = effect_frame[OF this]
  have "disk w4 [''audit.log''] = disk w [''audit.log'']"
    using fr by (simp add: w3_def w1_def meta_frame_def)
  then have "logged w (fs_log w4 u act f ''SUCCESS'') u act f ''SUCCESS''"
    by (intro logged_fs_log[OF eff4]) simp_all
  moreover have "disk (fs_log w4 u act f ''SUCCESS'') [''files_meta.dat''] = disk w4 [''files_meta.dat'']"
    by (simp add: fs_log_def log_action_disk)
  moreover have "effect w (fs_log w4 u act f ''SUCCESS'') (\<lambda>r. if r = sloc f then Some buf
      else if r = [''files_meta.dat''] then disk (fs_log w4 u act f ''SUCCESS'') r else disk w r)"
    using effect_log[OF eff4] calculation by (simp cong: if_cong)
  ultimately show ?thesis
    unfolding buf_def[symmetric] using eq t inv4 len fr4 assms(4) by auto
qed

end
