(* ===== verification/Fileops_Props.thy ===== *)
theory Fileops_Props
  imports Fileops_Correct
begin

text \<open>
  The properties of the file operations: access control, round trips through storage and through
  the cipher, what stays untouched, and the inputs on which an operation loses data.
\<close>

section \<open>Shared lemmas\<close>

lemma cipher_simps [simp]:
  "cipher e None s = s" "e_enc e = 0 \<Longrightarrow> cipher e q s = s"
  "e_enc e \<noteq> 0 \<Longrightarrow> cipher e (Some p) s = chars_of (xor_cipher (bytes_of s) (length s) p)"
  by (simp_all add: cipher_def split: option.split)

lemma length_cipher [simp]: "length (cipher e q s) = length s"
  by (simp add: cipher_def split: option.split)

lemma cipher_take: "cipher e q (take k s) = take k (cipher e q s)"
  using xc.crypt_take[where b = "bytes_of s" and k = k]
  by (simp add: cipher_def bytes_of_def chars_of_def take_map split: option.split)

lemma cipher_twice [simp]: "cipher e q (cipher e q s) = s"
  using xc.crypt_inverse[where b = "bytes_of s"] by (simp add: cipher_def split: option.split)

lemma read_result:
  assumes "fs_inv w" "plain_file f" "names_fit u g" "perm_table w f = Some e" "allowed e u g PERM_READ"
    and "can_read w (spath f)" "disk w (sloc f) = Some bs"
  shows "fst (fs_read_file w u g f q n) = Some (take (n - 1) (cipher e q bs))"
proof -
  have "fits MAX_FILENAME f"
    using assms by (simp add: plain_file_def)
  then show ?thesis
    using read_effect[OF assms(1) _ assms(3,4)] assms
    by (simp add: fopen_r_def resolve_spath cipher_take)
qed

text \<open>What survives an operation that touches only the stored bytes of one file.\<close>

lemma stored_after:
  assumes "effect w w' ((disk w)(sloc f \<mapsto> bs))" "fs_inv w" "storage_open w f"
  shows "fs_inv w'" "perm_table w' = perm_table w" "storage_open w' f" "disk w' (sloc f) = Some bs"
    "\<And>h. h \<noteq> f \<Longrightarrow> disk w' (sloc h) = disk w (sloc h)"
    "disk w' [''users.dat''] = disk w [''users.dat'']"
  using effect_frame[OF assms(1)] assms by (auto simp: effect_def)

lemma fresh_fs [simp]:
  "fs_inv fresh_world" "perm_table fresh_world = Map.empty" "storage_open fresh_world f"
  "log_open fresh_world" "metas fresh_world = []" "content fresh_world r = []"
  by (simp_all add: fs_inv_def meta_inv_def db_open_def whole_records_def metas_def content_def
      table_valid_def perm_table_def fresh_world_def storage_open_def log_open_def)

section \<open>Access control\<close>

text \<open>
  C1: Access control of the file operations. When the permission string does not allow the
  operation to the calling user, reading, writing, appending, deleting, encrypting and decrypting
  all fail, and the only change to the whole file system is one audit line that records the denial.
\<close>

theorem access_denied_only_logs:
  assumes "fs_inv w" "fits MAX_FILENAME f" "names_fit u g" "perm_table w f = Some e"
  shows "(\<not> allowed e u g PERM_READ \<longrightarrow>
      fs_read_file w u g f q n = (None, fs_log w u ''READ'' f ''FAILED_PERMISSION_DENIED'')) \<and>
    (\<not> allowed e u g PERM_WRITE \<longrightarrow>
      fs_write_file w u g f q c app = (False, fs_log w u ''WRITE'' f ''FAILED_PERMISSION_DENIED'') \<and>
      fs_delete_file w u g f = (False, fs_log w u ''DELETE'' f ''FAILED_PERMISSION_DENIED'') \<and>
      fs_encrypt_file w u g f p = Some (False, fs_log w u ''ENCRYPT'' f ''FAILED_PERMISSION_DENIED'') \<and>
      fs_decrypt_file w u g f p = Some (False, fs_log w u ''DECRYPT'' f ''FAILED_PERMISSION_DENIED'')) \<and>
    effect w (fs_log w u act f x) (disk w) \<and> logged w (fs_log w u act f x) u act f x"
proof -
  obtain m where m: "find_file_meta w f = Some m"
    "\<And>perm. check_permission u g m perm = allowed e u g perm"
    using lookup_entry[OF assms(1) disjI2[OF assms(2)] assms(4)] assms(3) by metis
  then show ?thesis
    using logged_fs_log[OF effect_refl[of w]]
    by (simp add: fs_read_file_def fs_write_file_def fs_delete_file_def fs_encrypt_file_def
        fs_decrypt_file_def transform_file_def)
qed

section \<open>Round trips through storage\<close>

text \<open>
  Creating and reading. A new file with a valid permission string is created; it belongs to its
  creator with the permissions given and the encryption flag clear; every user those permissions
  let read gets the content back, cut to the buffer, whatever passphrase is supplied; an audit line
  is written and the accounts and the other stored files are untouched.
\<close>

theorem create_then_read:
  assumes "fs_inv w" "plain_file f" "names_fit u g" "perm_table w f = None"
    and "is_valid_perm_string (Some p)" "storage_open w f"
    and "e = \<lparr>e_owner = u, e_group = g, e_perms = p, e_enc = 0\<rparr>"
    and "fs_create_file w u g f p c = (ok, w')"
  shows "ok \<and> fs_inv w' \<and> perm_table w' = (perm_table w)(f \<mapsto> e) \<and>
    (\<forall>u2 g2 q n. names_fit u2 g2 \<longrightarrow> allowed e u2 g2 PERM_READ \<longrightarrow>
       fst (fs_read_file w' u2 g2 f q n) = Some (take (n - 1) c)) \<and>
    logged w w' u ''CREATE'' f ''SUCCESS'' \<and>
    disk w' [''users.dat''] = disk w [''users.dat''] \<and>
    (\<forall>h. h \<noteq> f \<longrightarrow> disk w' (sloc h) = disk w (sloc h))"
proof -
  note c = create_effect[OF assms(1-6), of c, unfolded assms(8) fst_conv snd_conv]
  have d: "disk w' (sloc f) = Some c" "can_read w' (spath f)"
    using c(4) assms(6) by (auto simp: effect_def same_env_def storage_open_def)
  have "fst (fs_read_file w' u2 g2 f q n) = Some (take (n - 1) c)"
    if "names_fit u2 g2" "allowed e u2 g2 PERM_READ" for u2 g2 q n
    using read_result[OF c(3) assms(2) that(1) _ that(2) d(2,1)] c(2) assms(7) by simp
  with c assms(7) show ?thesis
    by (auto simp: effect_def)
qed

text \<open>
  C25: Writing and reading. A user allowed to write replaces the content of a file; a user allowed
  to read who gives the same passphrase (or none, as the writer) gets exactly the new content, cut
  to the buffer, whether or not the file is marked encrypted; the permission table, the accounts
  and all other stored files stay as they were.
\<close>

theorem write_then_read:
  assumes "fs_inv w" "plain_file f" "names_fit u g" "perm_table w f = Some e" "allowed e u g PERM_WRITE"
    and "storage_open w f" "can_alloc w (length c + 1)"
    and "fs_write_file w u g f q c False = (ok, w')"
    and "names_fit u2 g2" "allowed e u2 g2 PERM_READ"
  shows "ok \<and> fst (fs_read_file w' u2 g2 f q n) = Some (take (n - 1) c) \<and>
    perm_table w' = perm_table w \<and> logged w w' u ''WRITE'' f ''SUCCESS'' \<and>
    disk w' [''users.dat''] = disk w [''users.dat''] \<and>
    (\<forall>h. h \<noteq> f \<longrightarrow> disk w' (sloc h) = disk w (sloc h))"
proof -
  have eff: "effect w w' ((disk w)(sloc f \<mapsto> cipher e q c))"
    using write_effect(2)[OF assms(1-7), of q False] assms(8) by simp
  note s = stored_after[OF eff assms(1,6)]
  have "fst (fs_read_file w' u2 g2 f q n) = Some (take (n - 1) c)"
    using read_result[OF s(1) assms(2,9) _ assms(10) _ s(4), of q n] s(2,3) assms(4)
    by (simp add: storage_open_def)
  then show ?thesis
    using s write_effect(1,3)[OF assms(1-7), of q False] assms(8) by simp
qed

text \<open>
  C27: Appending. On a file not marked encrypted, or without a passphrase, an append adds the text
  behind the old one. On an encrypted file the appended text is ciphered from position 0 of the key
  stream although it stands behind the old text, so that reading with the same passphrase gives
  back old and new text exactly when the key stream repeats itself at that distance; otherwise the
  appended part is garbage.
\<close>

theorem append_then_read:
  assumes "fs_inv w" "plain_file f" "names_fit u g" "perm_table w f = Some e" "allowed e u g PERM_WRITE"
    and "storage_open w f" "can_alloc w (length c + 1)"
    and "disk w (sloc f) = Some (cipher e q old)"
    and "fs_write_file w u g f q c True = (ok, w')"
    and "names_fit u2 g2" "allowed e u2 g2 PERM_READ" "length old + length c < n"
  shows "ok \<and> (fst (fs_read_file w' u2 g2 f q n) = Some (old @ c) \<longleftrightarrow>
    e_enc e = 0 \<or> (case q of None \<Rightarrow> True
      | Some p \<Rightarrow> \<forall>i < length c. key_stream p i = key_stream p (length old + i)))"
proof -
  have eff: "effect w w' ((disk w)(sloc f \<mapsto> cipher e q old @ cipher e q c))"
    using write_effect(2)[OF assms(1-7), of q True] assms(8,9) by simp
  note s = stored_after[OF eff assms(1,6)]
  have "fst (fs_read_file w' u2 g2 f q n) = Some (cipher e q (cipher e q old @ cipher e q c))"
    using read_result[OF s(1) assms(2,10) _ assms(11) _ s(4), of q n] s(2,3) assms(4,12)
    by (simp add: storage_open_def)
  moreover have "chars_of x = s \<longleftrightarrow> x = bytes_of s" for x s
    by (metis bytes_of_chars_of chars_of_bytes_of)
  ultimately show ?thesis
    using xc.crypt_pieces[where a = "bytes_of old" and b = "bytes_of c"] write_effect(1)[OF assms(1-7), of q True] assms(9)
    by (cases "e_enc e = 0"; cases q) simp_all
qed

section \<open>Round trips through the cipher\<close>

lemma allowed_enc [simp]: "allowed (e\<lparr>e_enc := x\<rparr>) u g p = allowed e u g p"
  by (simp add: allowed_def class_of_def)

lemma chars_of_eq: "chars_of x = s \<longleftrightarrow> x = bytes_of s"
  by (metis bytes_of_chars_of chars_of_bytes_of)

lemma xor_twice:
  "chars_of (xor_cipher (bytes_of (chars_of (xor_cipher (bytes_of s) (length s) p))) (length s) q) = s \<longleftrightarrow>
   (\<forall>i < length s. key_stream p i = key_stream q i)"
  using xc.crypt_wrong_key[where b = "bytes_of s" and p = p and q = q] by (simp add: chars_of_eq)

lemma effect_disk: "effect w w' d \<Longrightarrow> r \<noteq> [''audit.log''] \<Longrightarrow> disk w' r = d r"
  by (simp add: effect_def)

lemma stored_transformed:
  assumes "effect w w' (\<lambda>r. if r = sloc f then Some bs
      else if r = [''files_meta.dat''] then disk w' r else disk w r)"
  shows "disk w' (sloc f) = Some bs" "storage_open w' f = storage_open w f" "can_alloc w' = can_alloc w"
    "\<And>h. h \<noteq> f \<Longrightarrow> disk w' (sloc h) = disk w (sloc h)"
    "disk w' [''users.dat''] = disk w [''users.dat'']"
    "\<And>r. r \<notin> {sloc f, [''files_meta.dat''], [''audit.log'']} \<Longrightarrow> disk w' r = disk w r"
proof -
  have d: "disk w' r = (if r = sloc f then Some bs else disk w r)"
    if "r \<noteq> [''audit.log'']" "r \<noteq> [''files_meta.dat'']" for r
    using effect_disk[OF assms that(1)] that(2) by (simp split: if_splits)
  then show "disk w' (sloc f) = Some bs" "\<And>h. h \<noteq> f \<Longrightarrow> disk w' (sloc h) = disk w (sloc h)"
    "disk w' [''users.dat''] = disk w [''users.dat'']"
    "\<And>r. r \<notin> {sloc f, [''files_meta.dat''], [''audit.log'']} \<Longrightarrow> disk w' r = disk w r"
    by simp_all
  have "dirs w \<subseteq> dirs w'" "dirs w' \<subseteq> insert [''storage''] (dirs w)" "same_env w w'"
    using assms by (simp_all add: effect_def)
  then show "storage_open w' f = storage_open w f" "can_alloc w' = can_alloc w"
    by (auto simp: storage_open_def same_env_def sloc_def)
qed

text \<open>
  C13: Encryption and decryption. Take a plaintext file that the caller may write, whose stored bytes
  can be opened and fit into memory, in a table of at most 1024 records. Encrypting it succeeds and sets
  its flag; a reader who gives the same passphrase gets the old content. Decrypting it with some
  passphrase then succeeds too, clears the flag, and restores the stored bytes exactly when the two
  key streams agree on the length of the file, in particular for the same passphrase; with any other
  the operation still reports success. Each step leaves the rest of the table and, but for the file, the
  table and one audit line, the whole disk as it was: the accounts and all other stored files.
\<close>

theorem encrypt_then_decrypt:
  assumes "fs_inv w" "plain_file f" "names_fit u g" "perm_table w f = Some e" "allowed e u g PERM_WRITE"
    and "storage_open w f" "disk w (sloc f) = Some bs" "can_alloc w (length bs)"
    and "e_enc e = 0" "length (metas w) \<le> 1024"
  shows "\<exists>w1 w2. fs_encrypt_file w u g f p = Some (True, w1) \<and>
    perm_table w1 = (perm_table w)(f \<mapsto> e\<lparr>e_enc := 1\<rparr>) \<and>
    (\<forall>u2 g2 n. names_fit u2 g2 \<longrightarrow> allowed e u2 g2 PERM_READ \<longrightarrow>
       fst (fs_read_file w1 u2 g2 f (Some p) n) = Some (take (n - 1) bs)) \<and>
    logged w w1 u ''ENCRYPT'' f ''SUCCESS'' \<and>
    (\<forall>r. r \<notin> {sloc f, [''files_meta.dat''], [''audit.log'']} \<longrightarrow> disk w1 r = disk w r) \<and>
    fs_decrypt_file w1 u g f q = Some (True, w2) \<and> perm_table w2 = perm_table w \<and>
    (disk w2 (sloc f) = Some bs \<longleftrightarrow> (\<forall>i < length bs. key_stream p i = key_stream q i)) \<and>
    logged w1 w2 u ''DECRYPT'' f ''SUCCESS'' \<and>
    (\<forall>r. r \<notin> {sloc f, [''files_meta.dat''], [''audit.log'']} \<longrightarrow> disk w2 r = disk w r)"
proof -
  define x where "x = chars_of (xor_cipher (bytes_of bs) (length bs) p)"
  obtain w1 where w1: "fs_encrypt_file w u g f p = Some (True, w1)"
    "perm_table w1 = (perm_table w)(f \<mapsto> e\<lparr>e_enc := 1\<rparr>)" "fs_inv w1" "length (metas w1) = length (metas w)"
    "logged w w1 u ''ENCRYPT'' f ''SUCCESS''"
    and eff1: "effect w w1 (\<lambda>r. if r = sloc f then Some x
      else if r = [''files_meta.dat''] then disk w1 r else disk w r)"
    using transform_effect[OF assms(1-8), of 0 1 p "''ENCRYPT''"] assms(9,10)
    unfolding x_def fs_encrypt_file_def by auto
  note s1 = stored_transformed[OF eff1]
  have rd: "fst (fs_read_file w1 u2 g2 f (Some p) n) = Some (take (n - 1) bs)"
    if "names_fit u2 g2" "allowed e u2 g2 PERM_READ" for u2 g2 n
    using read_result[OF w1(3) assms(2) that(1) _ _ _ s1(1), of "e\<lparr>e_enc := 1\<rparr>" "Some p" n]
      cipher_twice[of "e\<lparr>e_enc := 1\<rparr>" "Some p" bs] w1(2) s1(2) assms(6) that
    by (simp add: storage_open_def x_def)
  obtain w2 where w2: "fs_decrypt_file w1 u g f q = Some (True, w2)"
    "perm_table w2 = (perm_table w1)(f \<mapsto> e\<lparr>e_enc := 0\<rparr>)" "logged w1 w2 u ''DECRYPT'' f ''SUCCESS''"
    and eff2: "effect w1 w2 (\<lambda>r. if r = sloc f then Some (chars_of (xor_cipher (bytes_of x) (length x) q))
      else if r = [''files_meta.dat''] then disk w2 r else disk w1 r)"
    using transform_effect[OF w1(3) assms(2,3), of "e\<lparr>e_enc := 1\<rparr>" x 1 0 q "''DECRYPT''"]
      w1 s1 assms(5,6,8,10) unfolding fs_decrypt_file_def by (auto simp: x_def)
  note s2 = stored_transformed[OF eff2]
  have t: "perm_table w2 = perm_table w"
    using w2(2) w1(2) assms(4,9) by (intro ext) (auto simp: fun_upd_def)
  have d: "disk w2 (sloc f) = Some bs \<longleftrightarrow> (\<forall>i < length bs. key_stream p i = key_stream q i)"
    using s2(1) xor_twice[of bs p q] by (simp add: x_def)
  have "disk w1 r = disk w r" "disk w2 r = disk w r" if "r \<notin> {sloc f, [''files_meta.dat''], [''audit.log'']}" for r
    using s1(6)[OF that] s2(6)[OF that] by simp_all
  then show ?thesis
    by (intro exI[of _ w1] exI[of _ w2] conjI allI impI rd) (use w1(1,2,5) w2(1,3) t d in simp_all)
qed

section \<open>Deleting\<close>

text \<open>Every access to a file without an entry in the table fails, and is logged as not found.\<close>

definition not_found :: "world \<Rightarrow> string \<Rightarrow> bool" where
  "not_found w f \<longleftrightarrow> (\<forall>u g q n c p app.
     fs_read_file w u g f q n = (None, fs_log w u ''READ'' f ''FAILED_NOT_FOUND'') \<and>
     fs_write_file w u g f q c app = (False, fs_log w u ''WRITE'' f ''FAILED_NOT_FOUND'') \<and>
     fs_delete_file w u g f = (False, fs_log w u ''DELETE'' f ''FAILED_NOT_FOUND'') \<and>
     fs_encrypt_file w u g f p = Some (False, fs_log w u ''ENCRYPT'' f ''FAILED_NOT_FOUND'') \<and>
     fs_decrypt_file w u g f p = Some (False, fs_log w u ''DECRYPT'' f ''FAILED_NOT_FOUND''))"

lemma not_foundI: "find_file_meta w f = None \<Longrightarrow> not_found w f"
  by (simp add: not_found_def fs_read_file_def fs_write_file_def fs_delete_file_def fs_encrypt_file_def
      fs_decrypt_file_def transform_file_def)

text \<open>
  C26: Deleting. Take a file that the caller may write, whose stored bytes can be opened, in a table of
  at most 1024 records. Deleting it succeeds and removes both its stored bytes and its entry of the
  table; the other entries, the other stored files and the accounts stay. From then on, for as long as
  the table has no entry for the name, reading, writing, appending, deleting, encrypting and decrypting
  it all fail as not found, whoever asks, and change nothing but the audit log; and right after the
  deletion anybody can create the name again, with any content and valid permissions.
\<close>

theorem delete_then_gone:
  assumes "fs_inv w" "plain_file f" "names_fit u g" "perm_table w f = Some e" "allowed e u g PERM_WRITE"
    and "storage_open w f" "length (metas w) \<le> 1024"
    and "fs_delete_file w u g f = (ok, w')"
  shows "ok \<and> fs_inv w' \<and> perm_table w' = (perm_table w)(f := None) \<and> disk w' (sloc f) = None \<and>
    logged w w' u ''DELETE'' f ''SUCCESS'' \<and>
    disk w' [''users.dat''] = disk w [''users.dat''] \<and>
    (\<forall>h. h \<noteq> f \<longrightarrow> disk w' (sloc h) = disk w (sloc h)) \<and>
    (\<forall>v. fs_inv v \<longrightarrow> perm_table v f = None \<longrightarrow> not_found v f) \<and>
    (\<forall>u2 g2 p c. names_fit u2 g2 \<longrightarrow> is_valid_perm_string (Some p) \<longrightarrow>
       (case fs_create_file w' u2 g2 f p c of (ok2, w2) \<Rightarrow>
          ok2 \<and> disk w2 (sloc f) = Some c \<and>
          perm_table w2 = (perm_table w)(f \<mapsto> \<lparr>e_owner = u2, e_group = g2, e_perms = p, e_enc = 0\<rparr>)))"
proof -
  have f: "fits MAX_FILENAME f" "resolve (spath f) = sloc f"
    using assms by (auto simp: plain_file_def resolve_spath)
  obtain m where m: "find_file_meta w f = Some m"
    "\<And>p. check_permission u g m p = allowed e u g p"
    using lookup_entry[OF assms(1) disjI1[OF assms(2)] assms(4)] assms(3) by metis
  define w2 where "w2 = (mkdir w STORAGE_DIR)\<lparr>disk := (disk w)(sloc f := None)\<rparr>"
  define w3 where "w3 = snd (delete_file_meta w2 f)"
  have w': "ok" "w' = fs_log w3 u ''DELETE'' f ''SUCCESS''"
    using assms m f
    by (simp_all add: fs_delete_file_def storage_path_eq Let_def split_beta remove_file_def storage_open_def
        w2_def w3_def)
  have eff2: "effect w w2 ((disk w)(sloc f := None))"
    using effect_self[of w] by (simp add: effect_def w2_def same_env_def)
  note fr2 = effect_frame[OF eff2]
  have t: "table_step (Delete f) (perm_table w) = (fst (delete_file_meta w2 f), perm_table w3)" "meta_inv w3"
    using pt.step_sim[of w2 "Delete f"] pt.step_inv[of w2 "Delete f"] fr2 assms f
    by (simp_all add: fs_inv_def w3_def)
  have inv3: "fs_inv w3"
    using t table_step_valid[of "perm_table w" "Delete f"] assms(1) by (simp add: fs_inv_def)
  have fr: "meta_frame w2 w3"
    using meta_step_frame[of w2 "Delete f"] by (simp add: w3_def)
  have eff3: "effect w w3 (\<lambda>r. if r = sloc f then None
      else if r = [''files_meta.dat''] then disk w3 r else disk w r)"
    using eff2 fr by (auto simp: effect_def meta_frame_def intro: same_env_trans)
  have lg: "logged w w' u ''DELETE'' f ''SUCCESS''"
    unfolding w'(2) using fr by (intro logged_fs_log[OF eff3]) (simp_all add: w2_def meta_frame_def)
  have eff4: "effect w3 w' (disk w3)"
    unfolding w'(2) by simp
  note fr4 = effect_frame[OF eff4]
  have pt': "perm_table w' = (perm_table w)(f := None)"
    using fr4 t(1) by simp
  have inv': "fs_inv w'"
    using fr4 inv3 by simp
  have op': "storage_open w' f"
    using eff3 eff4 assms(6) by (auto simp: effect_def storage_open_def same_env_def sloc_def)
  have again: "case fs_create_file w' u2 g2 f p c of (ok2, w2) \<Rightarrow> ok2 \<and> disk w2 (sloc f) = Some c \<and>
      perm_table w2 = (perm_table w)(f \<mapsto> \<lparr>e_owner = u2, e_group = g2, e_perms = p, e_enc = 0\<rparr>)"
    if "names_fit u2 g2" "is_valid_perm_string (Some p)" for u2 g2 p c
    using create_effect[OF inv' assms(2) that(1) _ that(2) op', of c] effect_disk[of w' _ _ "sloc f"]
    by (auto simp: pt' split_beta)
  have nf: "not_found v f" if "fs_inv v" "perm_table v f = None" for v
    using lookup_none[OF that(1) f(1) that(2)] by (rule not_foundI)
  have "disk w' r = (if r = sloc f then None else disk w r)"
    if "r \<noteq> [''audit.log'']" "r \<noteq> [''files_meta.dat'']" for r
    using effect_disk[OF eff3 that(1)] effect_disk[OF eff4 that(1)] that(2) by (simp split: if_splits)
  then show ?thesis
    using w'(1) pt' lg inv' nf again by simp
qed

section \<open>Names that leave the storage directory\<close>

lemma resolve_parent: "plain_name d \<Longrightarrow> plain_name x \<Longrightarrow> resolve (d @ ''/../'' @ x) = [x]"
  using split_on_append[of "CHR ''/''" d "''../'' @ x"] split_on_append[of "CHR ''/''" "''..''" x]
  by (simp add: resolve_def plain_name_def split_on_no_sep)

text \<open>
  C28: A file name is not confined to the storage directory. Any user who creates a file under the
  name \<open>../users.dat\<close> replaces the whole account database by the content he supplies (in general a
  name starting with \<open>../\<close> overwrites the file of that name beside the storage directory), and the
  operation reports success.
\<close>

theorem create_escapes_storage:
  assumes "meta_inv w" "names_fit u g" "plain_name x" "fits MAX_FILENAME (''../'' @ x)"
    and "perm_table w (''../'' @ x) = None" "is_valid_perm_string (Some p)"
    and "can_write w (spath (''../'' @ x))" "[x] \<notin> dirs w" "x \<noteq> ''storage''" "x \<noteq> ''audit.log''"
  shows "fst (fs_create_file w u g (''../'' @ x) p c) \<and>
    disk (snd (fs_create_file w u g (''../'' @ x) p c)) [x] = Some c"
proof -
  define f where "f = ''../'' @ x"
  have r: "resolve (spath f) = [x]"
    using resolve_parent[of STORAGE_DIR x] assms(3)
    by (simp add: spath_def f_def STORAGE_DIR_def plain_name_def)
  define w1 where "w1 = snd (create_file_meta w f u g p)"
  have c: "create_file_meta w f u g p = (True, w1)"
    using create_sim(1)[OF assms(1), of f u g p] assms(2,4-6)
    by (auto simp: w1_def f_def names_fit_def prod_eq_iff)
  have fr: "can_write w1 = can_write w" "dirs w1 = dirs w"
    using meta_step_frame[of w "Create f u g p"] by (simp_all add: w1_def meta_frame_def same_env_def)
  define w2 where "w2 = mkdir w1 STORAGE_DIR"
  have op: "fopen_w w2 (spath f) = Some (w2\<lparr>disk := (disk w1)([x] \<mapsto> [])\<rparr>)"
    using assms(7-9) fr dirs_mkdir(2)[of w1] unfolding f_def[symmetric] by (auto simp: fopen_w_def r w2_def)
  have "fs_create_file w u g f p c = (True, fs_log (w2\<lparr>disk := (disk w1)([x] \<mapsto> c)\<rparr>) u ''CREATE'' f ''SUCCESS'')"
    using c op storage_path_eq[of f] assms(4)[folded f_def]
    by (simp add: fs_create_file_def w2_def[symmetric] Let_def fwrite_def r)
  then show ?thesis
    unfolding f_def[symmetric] using assms(10) by (simp add: fs_log_def log_action_disk)
qed

section \<open>Failures\<close>

text \<open>
  A creation that cannot open the stored file is rolled back: the metadata record it had
  appended is deleted again, so the permission table is unchanged, the operation reports failure
  and one audit line records the I/O error.
\<close>

theorem create_rolls_back:
  assumes "fs_inv w" "plain_file f" "names_fit u g" "perm_table w f = None" "is_valid_perm_string (Some p)"
    and "\<not> can_write w (spath f)" "length (metas w) < 1024"
    and "fs_create_file w u g f p c = (ok, w')"
  shows "\<not> ok \<and> fs_inv w' \<and> perm_table w' = perm_table w \<and>
    (\<forall>h. disk w' (sloc h) = disk w (sloc h)) \<and> logged w w' u ''CREATE'' f ''FAILED_IO_ERROR''"
proof -
  define w1 where "w1 = snd (create_file_meta w f u g p)"
  have f: "fits MAX_FILENAME f"
    using assms by (simp add: plain_file_def)
  have inv: "meta_inv w" "table_valid (perm_table w)"
    using assms by (auto simp: fs_inv_def)
  have c: "create_file_meta w f u g p = (True, w1)" "meta_inv w1"
    "perm_table w1 = (perm_table w)(f \<mapsto> \<lparr>e_owner = u, e_group = g, e_perms = p, e_enc = 0\<rparr>)"
    using create_sim[OF inv(1) f, of u g p] assms(3-5)
    by (auto simp: w1_def names_fit_def prod_eq_iff)
  have len: "length (metas w1) \<le> 1024"
    using length_metas_step[OF inv(1), of "Create f u g p"] assms(7) by (simp add: w1_def)
  have fr: "meta_frame w w1"
    using meta_step_frame[of w "Create f u g p"] by (simp add: w1_def)
  define w2 where "w2 = mkdir w1 STORAGE_DIR"
  have eff2: "effect w1 w2 (disk w1)"
    unfolding w2_def by (rule effect_self)
  note fr2 = effect_frame[OF eff2 refl]
  have op: "fopen_w w2 (spath f) = None"
    using assms fr by (simp add: fopen_w_def w2_def meta_frame_def same_env_def)
  define w3 where "w3 = snd (delete_file_meta w2 f)"
  have w': "\<not> ok" "w' = fs_log w3 u ''CREATE'' f ''FAILED_IO_ERROR''"
    using assms(8) c op f
    by (simp_all add: fs_create_file_def storage_path_eq Let_def split_beta w2_def[symmetric] w3_def)
  have t: "table_step (Delete f) (perm_table w1) = (fst (delete_file_meta w2 f), perm_table w3)" "meta_inv w3"
    using pt.step_sim[of w2 "Delete f"] pt.step_inv[of w2 "Delete f"] fr2 c f len meta_inv_cong[of w2 w1]
      eff2 by (simp_all add: w3_def effect_def same_env_def w2_def mkdir_def)
  have pt3: "perm_table w3 = perm_table w"
    using t(1) c(3) assms(4) by (auto simp: fun_upd_idem)
  have fr3: "meta_frame w2 w3"
    using meta_step_frame[of w2 "Delete f"] by (simp add: w3_def)
  have eff3: "effect w w3 (\<lambda>r. if r = [''files_meta.dat''] then disk w3 r else disk w r)"
    using eff2 fr fr3 by (auto simp: effect_def meta_frame_def intro: same_env_trans)
  have lg: "logged w w' u ''CREATE'' f ''FAILED_IO_ERROR''"
    unfolding w'(2) using fr fr3
    by (intro logged_fs_log[OF eff3]) (simp_all add: w2_def meta_frame_def)
  have eff4: "effect w3 w' (disk w3)"
    unfolding w'(2) by simp
  have "disk w' (sloc h) = disk w (sloc h)" for h
    using effect_disk[OF eff3, of "sloc h"] effect_disk[OF eff4, of "sloc h"] by simp
  then show ?thesis
    using w'(1) lg effect_frame[OF eff4 refl] pt3 t(2) inv(2) by (simp add: fs_inv_def)
qed

section \<open>Witnesses\<close>

text \<open>A file \<open>notes\<close> of Ann in group dev, readable by the group, created on a fresh machine.\<close>

definition demo_entry :: entry where
  "demo_entry = \<lparr>e_owner = ''ann'', e_group = ''dev'', e_perms = ''rw-r-----'', e_enc = 0\<rparr>"

definition demo_world :: world where
  "demo_world = snd (fs_create_file fresh_world ''ann'' ''dev'' ''notes'' ''rw-r-----'' ''hello'')"

lemma demo_names [simp]:
  "names_fit ''ann'' ''dev''" "names_fit ''bob'' ''dev''" "names_fit ''eve'' ''ops''"
  "plain_file ''notes''" "fits MAX_FILENAME ''notes''" "plain_name ''users.dat''"
  "fits MAX_FILENAME ''../users.dat''" "is_valid_perm_string (Some ''rw-r-----'')"
  by (simp_all add: names_fit_def fits_def plain_file_def plain_name_def is_valid_perm_string_def NUL_def upt_rec)

lemma demo_allowed [simp]:
  "allowed demo_entry ''ann'' g PERM_WRITE" "allowed demo_entry u ''dev'' PERM_READ"
  "\<not> allowed demo_entry ''bob'' ''dev'' PERM_WRITE" "\<not> allowed demo_entry ''eve'' ''ops'' PERM_READ"
  by (simp_all add: allowed_def class_of_def demo_entry_def)

lemma demo_created:
  "fs_inv demo_world" "perm_table demo_world ''notes'' = Some demo_entry"
  "storage_open demo_world ''notes''" "disk demo_world (sloc ''notes'') = Some ''hello''"
  "can_alloc demo_world n" "length (metas demo_world) \<le> 1024"
proof -
  note c = create_effect[OF fresh_fs(1) demo_names(4,1) _ demo_names(8) fresh_fs(3), of "''hello''",
      folded demo_world_def]
  show "fs_inv demo_world" "perm_table demo_world ''notes'' = Some demo_entry"
    using c(2,3) by (simp_all add: demo_entry_def)
  have eff: "effect fresh_world demo_world (\<lambda>r. if r = sloc ''notes'' then Some ''hello''
      else if r = [''files_meta.dat''] then disk (snd (create_file_meta fresh_world ''notes'' ''ann'' ''dev'' ''rw-r-----'')) r
      else disk fresh_world r)"
    using c(4) by simp
  show "disk demo_world (sloc ''notes'') = Some ''hello''"
    using effect_disk[OF eff, of "sloc ''notes''"] by simp
  have env: "can_read demo_world = (\<lambda>_. True)" "can_write demo_world = (\<lambda>_. True)"
      "can_alloc demo_world = (\<lambda>_. True)" "dirs demo_world \<subseteq> {[''storage'']}"
    using eff by (simp_all add: effect_def same_env_def fresh_world_def)
  then show "storage_open demo_world ''notes''" "can_alloc demo_world n"
    by (auto simp: storage_open_def sloc_def)
  have "disk demo_world [''files_meta.dat''] =
      disk (snd (create_file_meta fresh_world ''notes'' ''ann'' ''dev'' ''rw-r-----'')) [''files_meta.dat'']"
    using effect_disk[OF eff, of "[''files_meta.dat'']"] by simp
  then have "metas demo_world = metas (snd (create_file_meta fresh_world ''notes'' ''ann'' ''dev'' ''rw-r-----''))"
    by (simp add: metas_def)
  then show "length (metas demo_world) \<le> 1024"
    using length_metas_step[of fresh_world "Create ''notes'' ''ann'' ''dev'' ''rw-r-----''"] meta_inv_fresh by simp
qed

theorem access_denied_only_logs_witness:
  "fst (fs_read_file demo_world ''eve'' ''ops'' ''notes'' None 100) = None \<and>
   \<not> fst (fs_delete_file demo_world ''bob'' ''dev'' ''notes'')"
  using access_denied_only_logs[OF demo_created(1) demo_names(5,3) demo_created(2), of None 100]
    access_denied_only_logs[OF demo_created(1) demo_names(5,2) demo_created(2)]
  by simp

theorem create_then_read_witness:
  "fst (fs_read_file (snd (fs_create_file fresh_world ''ann'' ''dev'' ''notes'' ''rw-r-----'' ''hello''))
     ''bob'' ''dev'' ''notes'' None 1024) = Some ''hello''"
proof -
  have "perm_table fresh_world ''notes'' = None"
    by simp
  from create_then_read[OF fresh_fs(1) demo_names(4,1) this demo_names(8) fresh_fs(3)
      demo_entry_def surjective_pairing, of "''hello''"]
  show ?thesis
    by simp
qed

theorem write_then_read_witness:
  "fst (fs_read_file (snd (fs_write_file demo_world ''ann'' ''dev'' ''notes'' (Some ''k'') ''bye'' False))
     ''bob'' ''dev'' ''notes'' (Some ''k'') 1024) = Some ''bye''"
  using write_then_read[OF demo_created(1) demo_names(4,1) demo_created(2) demo_allowed(1) demo_created(3,5)
      surjective_pairing demo_names(2) demo_allowed(2), where c = "''bye''" and q = "Some ''k''" and n = 1024]
  by simp

theorem append_then_read_witness:
  "fst (fs_read_file (snd (fs_write_file demo_world ''ann'' ''dev'' ''notes'' None ''bye'' True))
     ''bob'' ''dev'' ''notes'' None 1024) = Some ''hellobye''"
  using append_then_read[OF demo_created(1) demo_names(4,1) demo_created(2) demo_allowed(1) demo_created(3,5)
      _ surjective_pairing demo_names(2) demo_allowed(2), where q = None and old = "''hello''" and c = "''bye''" and n = 1024] demo_created(4)
  by simp

theorem encrypt_then_decrypt_witness:
  "\<exists>w1 w2. fs_encrypt_file demo_world ''ann'' ''dev'' ''notes'' ''k'' = Some (True, w1) \<and>
     fs_decrypt_file w1 ''ann'' ''dev'' ''notes'' ''k'' = Some (True, w2) \<and>
     disk w2 (sloc ''notes'') = Some ''hello''"
proof -
  have "e_enc demo_entry = 0"
    by (simp add: demo_entry_def)
  from encrypt_then_decrypt[OF demo_created(1) demo_names(4,1) demo_created(2) demo_allowed(1)
      demo_created(3,4,5) this demo_created(6), of "''k''" "''k''"]
  obtain w1 w2 where "fs_encrypt_file demo_world ''ann'' ''dev'' ''notes'' ''k'' = Some (True, w1)"
    "fs_decrypt_file w1 ''ann'' ''dev'' ''notes'' ''k'' = Some (True, w2)"
    "disk w2 (sloc ''notes'') = Some ''hello''"
    by (elim exE conjE) simp
  then show ?thesis
    by (intro exI conjI)
qed

theorem delete_then_gone_witness:
  "disk (snd (fs_delete_file demo_world ''ann'' ''dev'' ''notes'')) (sloc ''notes'') = None \<and>
   not_found (snd (fs_delete_file demo_world ''ann'' ''dev'' ''notes'')) ''notes'' \<and>
   fst (fs_create_file (snd (fs_delete_file demo_world ''ann'' ''dev'' ''notes'')) ''eve'' ''ops'' ''notes''
     ''rw-r-----'' ''mine'')"
  using delete_then_gone[OF demo_created(1) demo_names(4,1) demo_created(2) demo_allowed(1) demo_created(3,6)
      surjective_pairing] demo_names(3,8) by (simp add: split_beta)

theorem create_escapes_storage_witness:
  "disk (snd (fs_create_file fresh_world ''eve'' ''ops'' ''../users.dat'' ''rw-r-----'' ''gone'')) [''users.dat'']
     = Some ''gone''"
proof -
  have "fits MAX_FILENAME (''../'' @ ''users.dat'')" "perm_table fresh_world (''../'' @ ''users.dat'') = None"
    using demo_names(7) by simp_all
  moreover have "can_write fresh_world p" "[''users.dat''] \<notin> dirs fresh_world" for p
    by (simp_all add: fresh_world_def)
  ultimately show ?thesis
    using create_escapes_storage[OF meta_inv_fresh(1) demo_names(3,6) _ _ demo_names(8), of "''gone''"] by simp
qed

theorem create_rolls_back_witness:
  "\<not> fst (fs_create_file (fresh_world\<lparr>can_write := (\<lambda>p. p \<noteq> ''storage/notes'')\<rparr>)
     ''ann'' ''dev'' ''notes'' ''rw-r-----'' ''hello'')"
proof -
  define w where "w = fresh_world\<lparr>can_write := (\<lambda>p. p \<noteq> ''storage/notes'')\<rparr>"
  have "fs_inv w" "perm_table w ''notes'' = None" "\<not> can_write w (spath ''notes'')" "length (metas w) < 1024"
    by (simp_all add: w_def fs_inv_def meta_inv_def db_open_def whole_records_def metas_def content_def
        table_valid_def perm_table_def fresh_world_def spath_def STORAGE_DIR_def FILES_DB_def)
  from create_rolls_back[OF this(1) demo_names(4,1) this(2) demo_names(8) this(3,4) surjective_pairing,
      of "''hello''"]
  show ?thesis
    unfolding w_def by simp
qed

end
