(* ===== verification/Stdio.thy ===== *)
theory Stdio
  imports Prelude
begin

text \<open>
  Lines from standard input, as the file-management program and the client read them: \<open>fgets\<close>, the
  removal of the newline, and what a user types.
\<close>

text \<open>\<open>fgets\<close>: at most \<open>n\<close> characters, up to and with the first newline.\<close>

fun fgets_loop :: "nat \<Rightarrow> string \<Rightarrow> string \<times> string" where
  "fgets_loop 0 cs = ([], cs)"
| "fgets_loop (Suc n) [] = ([], [])"
| "fgets_loop (Suc n) (c # cs) =
     (if c = NL then ([c], cs) else let (l, rest) = fgets_loop n cs in (c # l, rest))"

definition fgets :: "nat \<Rightarrow> string \<Rightarrow> (string \<times> string) option" where
  "fgets sz cs = (if cs = [] then None else Some (fgets_loop (sz - 1) cs))"

definition strip_newline :: "string \<Rightarrow> string" where
  "strip_newline s = (if s \<noteq> [] \<and> last s = NL then butlast s else s)"

lemma fgets_loop_length: "length (fst (fgets_loop n cs)) \<le> n"
  by (induction n cs rule: fgets_loop.induct) (simp_all add: split_beta)

lemma fgets_loop_rest: "length (snd (fgets_loop n cs)) \<le> length cs"
  by (induction n cs rule: fgets_loop.induct) (auto simp: split_beta intro: le_SucI)

lemma fgets_shorter:
  assumes "fgets sz cs = Some (buf, rest)" "1 < sz"
  shows "length rest < length cs"
proof -
  obtain c cs' n where cs: "cs = c # cs'" and n: "sz - 1 = Suc n"
    using assms by (cases cs; cases "sz - 1") (auto simp: fgets_def)
  then have "rest = (if c = NL then cs' else snd (fgets_loop n cs'))"
    using assms(1) by (auto simp: fgets_def split_beta)
  then show ?thesis
    using fgets_loop_rest[of n cs'] cs by auto
qed

lemma strip_newline_fits: "nonul s \<Longrightarrow> nonul (strip_newline s) \<and> length (strip_newline s) \<le> length s"
  by (cases s rule: rev_cases) (auto simp: strip_newline_def)

lemma fgets_loop_line:
  "list_all (\<lambda>c. c \<noteq> NL) l \<Longrightarrow> length l < n \<Longrightarrow> fgets_loop n (l @ NL # rest) = (l @ [NL], rest)"
proof (induction l arbitrary: n)
  case Nil
  then show ?case by (cases n) auto
next
  case (Cons c l)
  then show ?case by (cases n) auto
qed

text \<open>A line that fits a buffer of \<open>n\<close> characters with its newline and terminator.\<close>

definition line_ok :: "nat \<Rightarrow> string \<Rightarrow> bool" where
  "line_ok n l \<longleftrightarrow> list_all (\<lambda>c. c \<noteq> NL) l \<and> nonul l \<and> Suc (length l) < n"

text \<open>Typed lines, each followed by its newline.\<close>

primrec typed :: "string list \<Rightarrow> string" where
  "typed [] = []"
| "typed (l # ls) = l @ NL # typed ls"

lemma fgets_typed:
  assumes "line_ok n l"
  shows "fgets n (typed (l # ls)) = Some (l @ [NL], typed ls)" "strip_newline (cstr (l @ [NL])) = l"
  using assms fgets_loop_line[of l "n - 1" "typed ls"]
  by (auto simp: line_ok_def fgets_def strip_newline_def cstr_append_nonul NL_def NUL_def)

end
