(* ===== verification/Fms.thy ===== *)
theory Fms
  imports Auth Fileops_Props Stdio
begin

text \<open>
  \<open>main.c\<close> of the file-management program: \<open>read_line\<close>, the login screen, the session menu
  and \<open>main\<close>. One iteration of each \<open>while (1)\<close> is a function; the loops are partial
  functions over them, so that a run that never ends is \<open>None\<close> and a run that reaches undefined
  behaviour is \<open>Some None\<close>. The state is the rest of standard input, what was printed, and the
  world.
\<close>

record cli =
  inp :: string
  out :: string
  sys :: world

definition say :: "string \<Rightarrow> cli \<Rightarrow> cli" where
  "say x s = s\<lparr>out := out s @ x\<rparr>"

section \<open>Reading lines\<close>

definition read_line :: "nat \<Rightarrow> cli \<Rightarrow> string \<times> cli" where
  "read_line sz s =
     (case fgets sz (inp s) of
        None \<Rightarrow> ([], s)
      | Some (buf, rest) \<Rightarrow> (strip_newline (cstr buf), s\<lparr>inp := rest\<rparr>))"

definition ask :: "string \<Rightarrow> nat \<Rightarrow> cli \<Rightarrow> string \<times> cli" where
  "ask prompt sz s = read_line sz (say prompt s)"

definition print_banner :: "cli \<Rightarrow> cli" where
  "print_banner s = say ([NL] @ ''========================================='' @ [NL] @
     '' Secure File Management System - ST5004CEM'' @ [NL] @
     ''========================================='' @ [NL]) s"

section \<open>The login screen\<close>

datatype 'a step = Again cli | Done 'a cli | Undefined

text \<open>
  The welcome line prints both arrays of the record with \<open>%s\<close>, so each must hold its terminator; a
  record read from \<open>users.dat\<close> is whatever bytes the file has.
\<close>

definition printable_user :: "User \<Rightarrow> bool" where
  "printable_user u \<longleftrightarrow> NUL \<in> set (u_username u) \<and> NUL \<in> set (u_group u)"

definition login_step :: "cli \<Rightarrow> User option step" where
  "login_step s0 =
     (let (choice, s) = ask ([NL] @ ''1) Login'' @ [NL] @ ''2) Register'' @ [NL] @ ''3) Exit'' @ [NL] @ ''Choice: '') 8 s0 in
      if choice = ''1'' then
        let (username, s) = ask ''Username: '' MAX_USERNAME s;
            (password, s) = ask ''Password: '' MAX_PASSWORD s in
        (case login_user (sys s) username password of
           None \<Rightarrow> Undefined
         | Some (Some u, w) \<Rightarrow>
             if printable_user u then
               Done (Some u) (say (''Login successful. Welcome, '' @ cstr (u_username u) @ '' (group: '' @
                 cstr (u_group u) @ '').'' @ [NL]) (s\<lparr>sys := w\<rparr>))
             else Undefined
         | Some (None, w) \<Rightarrow> Again (say (''Login failed: invalid username or password.'' @ [NL]) (s\<lparr>sys := w\<rparr>)))
      else if choice = ''2'' then
        let (username, s) = ask ''Choose a username: '' MAX_USERNAME s;
            (password, s) = ask ''Choose a password: '' MAX_PASSWORD s;
            (grp, s) = ask ''Choose a group (e.g. staff, guest): '' MAX_GROUP s in
        (case register_user (sys s) (Some username) (Some password) (Some grp) of
           None \<Rightarrow> Undefined
         | Some (ok, w) \<Rightarrow> Again (say
             ((if ok then ''Registration successful. You can now log in.''
               else ''Registration failed (username may already exist, or input invalid).'') @ [NL])
             (s\<lparr>sys := w\<rparr>)))
      else if choice = ''3'' then Done None s
      else Again (say (''Invalid choice.'' @ [NL]) s))"

partial_function (option) login_screen :: "cli \<Rightarrow> (User option \<times> cli) option option" where
  "login_screen s =
     (case login_step s of
        Again s1 \<Rightarrow> login_screen s1
      | Done r s1 \<Rightarrow> Some (Some (r, s1))
      | Undefined \<Rightarrow> Some None)"

section \<open>The session\<close>

definition print_menu :: "string" where
  "print_menu = [NL] @ ''--- File Menu ---'' @ [NL] @ ''1) Create file'' @ [NL] @ ''2) Read file'' @ [NL] @
     ''3) Write/overwrite file'' @ [NL] @ ''4) Append to file'' @ [NL] @ ''5) Delete file'' @ [NL] @
     ''6) Change permissions (chmod)'' @ [NL] @ ''7) Encrypt file'' @ [NL] @ ''8) Decrypt file'' @ [NL] @
     ''9) Logout'' @ [NL] @ ''Choice: ''"

definition null_if_blank :: "string \<Rightarrow> string option" where
  "null_if_blank s = (if s = [] then None else Some s)"

text \<open>The outcome of an operation: its world, and the line printed.\<close>

definition report :: "cli \<Rightarrow> bool \<times> world \<Rightarrow> string \<Rightarrow> string \<Rightarrow> 'a step" where
  "report s r yes no = Again (say ((if fst r then yes else no) @ [NL]) (s\<lparr>sys := snd r\<rparr>))"

definition transform_case :: "cli \<Rightarrow> (bool \<times> world) option \<Rightarrow> string \<Rightarrow> string \<Rightarrow> 'a step" where
  "transform_case s r yes no = (case r of None \<Rightarrow> Undefined | Some x \<Rightarrow> report s x yes no)"

definition session_step :: "string \<Rightarrow> string \<Rightarrow> cli \<Rightarrow> unit step" where
  "session_step user grp s0 =
     (let (choice, s) = ask print_menu 8 s0 in
      if choice = ''1'' then
        let (filename, s) = ask ''Filename: '' MAX_FILENAME s;
            (perm_str, s) = ask ''Initial permissions (e.g. rw-r-----): '' 16 s;
            (cont, s) = ask ''Content: '' MAX_LINE s in
        report s (fs_create_file (sys s) user grp filename perm_str cont) ''File created.''
          ''Failed: invalid permission string, or file already exists.''
      else if choice = ''2'' then
        let (filename, s) = ask ''Filename: '' MAX_FILENAME s;
            (passphrase, s) = ask ''Passphrase (leave blank if not encrypted): '' MAX_PASSWORD s in
        (case fs_read_file (sys s) user grp filename (null_if_blank passphrase) 4096 of
           (Some buf, w) \<Rightarrow>
             Again (say (''--- Content ---'' @ [NL] @ cstr buf @ [NL] @ ''---------------'' @ [NL]) (s\<lparr>sys := w\<rparr>))
         | (None, w) \<Rightarrow>
             Again (say (''Failed: file not found or permission denied.'' @ [NL]) (s\<lparr>sys := w\<rparr>)))
      else if choice = ''3'' \<or> choice = ''4'' then
        let app = (choice = ''4'');
            (filename, s) = ask ''Filename: '' MAX_FILENAME s;
            (passphrase, s) = ask ''Passphrase (leave blank if not encrypted): '' MAX_PASSWORD s;
            (cont, s) = ask ''Content: '' MAX_LINE s in
        report s (fs_write_file (sys s) user grp filename (null_if_blank passphrase) cont app)
          (''File '' @ (if app then ''appended'' else ''written'') @ ''.'')
          ''Failed: file not found or permission denied.''
      else if choice = ''5'' then
        let (filename, s) = ask ''Filename: '' MAX_FILENAME s in
        report s (fs_delete_file (sys s) user grp filename) ''File deleted.''
          ''Failed: file not found or permission denied.''
      else if choice = ''6'' then
        let (filename, s) = ask ''Filename: '' MAX_FILENAME s;
            (perm_str, s) = ask ''New permissions (e.g. rwxr-x---): '' 16 s;
            (ok, w) = chmod_file (sys s) filename perm_str in
        report s (ok, log_action w (Some user) (Some ''CHMOD'') (Some filename)
            (Some (if ok then ''SUCCESS'' else ''FAILED'')))
          ''Permissions updated.'' ''Failed: file not found or invalid permission string.''
      else if choice = ''7'' then
        let (filename, s) = ask ''Filename: '' MAX_FILENAME s;
            (passphrase, s) = ask ''Passphrase: '' MAX_PASSWORD s in
        transform_case s (fs_encrypt_file (sys s) user grp filename passphrase) ''File encrypted.''
          ''Failed: file not found, permission denied, or already encrypted.''
      else if choice = ''8'' then
        let (filename, s) = ask ''Filename: '' MAX_FILENAME s;
            (passphrase, s) = ask ''Passphrase: '' MAX_PASSWORD s in
        transform_case s (fs_decrypt_file (sys s) user grp filename passphrase) ''File decrypted.''
          ''Failed: file not found, permission denied, or not encrypted.''
      else if choice = ''9'' then
        let s = say (''Logging out.'' @ [NL]) s in
        Done () (s\<lparr>sys := log_action (sys s) (Some user) (Some ''LOGOUT'') (Some ''-'') (Some ''SUCCESS'')\<rparr>)
      else Again (say (''Invalid choice.'' @ [NL]) s))"

partial_function (option) session_loop :: "string \<Rightarrow> string \<Rightarrow> cli \<Rightarrow> cli option option" where
  "session_loop user grp s =
     (case session_step user grp s of
        Again s1 \<Rightarrow> session_loop user grp s1
      | Done _ s1 \<Rightarrow> Some (Some s1)
      | Undefined \<Rightarrow> Some None)"

section \<open>The program\<close>

partial_function (option) main_loop :: "cli \<Rightarrow> cli option option" where
  "main_loop s =
     Option.bind (login_screen s) (\<lambda>r.
       case r of
         None \<Rightarrow> Some None
       | Some (None, s1) \<Rightarrow> Some (Some s1)
       | Some (Some u, s1) \<Rightarrow>
           Option.bind (session_loop (cstr (u_username u)) (cstr (u_group u)) s1) (\<lambda>r.
             case r of None \<Rightarrow> Some None | Some s2 \<Rightarrow> main_loop (print_banner s2)))"

text \<open>\<open>srand\<close> starts the sequence of this run; \<open>rand_seq\<close> is the sequence for the seed drawn.\<close>

definition fms_main :: "cli \<Rightarrow> cli option option" where
  "fms_main s =
     map_option (map_option (say (''Goodbye.'' @ [NL])))
       (main_loop (print_banner (s\<lparr>sys := (sys s)\<lparr>rand_pos := 0\<rparr>\<rparr>)))"

section \<open>Lines fit their buffers\<close>

lemma read_line_fits: "0 < n \<Longrightarrow> fits n (fst (read_line n s))"
proof (cases "fgets n (inp s)")
  case (Some r)
  assume n: "0 < n"
  obtain buf rest where r: "r = (buf, rest)"
    by fastforce
  have "length buf \<le> n - 1"
    using Some r fgets_loop_length[of "n - 1" "inp s"] by (simp add: fgets_def split: if_splits)
  then have "length (cstr buf) < n"
    using n length_cstr[of buf] by simp
  then show ?thesis
    using strip_newline_fits[of "cstr buf"] Some r by (simp add: read_line_def fits_def)
qed (simp add: read_line_def fits_def)

lemma ask_fits: "ask p n s = (x, s1) \<Longrightarrow> 0 < n \<Longrightarrow> fits n x"
  using read_line_fits[of n "say p s"] by (simp add: ask_def)

lemma ask_sys: "ask p n s = (x, s1) \<Longrightarrow> sys s1 = sys s"
  by (auto simp: ask_def read_line_def say_def split: option.splits)

lemma ask_eof: "inp s = [] \<Longrightarrow> ask p n s = ([], say p s)"
  by (simp add: ask_def read_line_def fgets_def say_def)

text \<open>What one line of input gives: the characters before the newline.\<close>

lemma ask_line:
  assumes "inp s = l @ NL # rest" "list_all (\<lambda>c. c \<noteq> NL) l" "nonul l" "Suc (length l) < n"
  shows "ask p n s = (l, (say p s)\<lparr>inp := rest\<rparr>)"
proof -
  have "nonul (l @ [NL])"
    using assms(3) by (simp add: NL_def NUL_def)
  then show ?thesis
    using assms fgets_loop_line[of l "n - 1" rest]
    by (simp add: ask_def read_line_def fgets_def say_def strip_newline_def)
qed

section \<open>Induction over the rounds of a loop that returns\<close>

lemma login_screen_rounds [consumes 1, case_names again finished undefined]:
  assumes "login_screen s = Some r"
    and "\<And>s s1 r. login_step s = Again s1 \<Longrightarrow> P s1 r \<Longrightarrow> P s r"
    and "\<And>s x s1. login_step s = Done x s1 \<Longrightarrow> P s (Some (x, s1))"
    and "\<And>s. login_step s = Undefined \<Longrightarrow> P s None"
  shows "P s r"
proof (rule login_screen.raw_induct[OF _ assms(1)])
  fix loop s r
  assume "\<And>s r. loop s = Some r \<Longrightarrow> P s r"
    and "(case login_step s of Again s1 \<Rightarrow> loop s1 | Done r s1 \<Rightarrow> Some (Some (r, s1)) | Undefined \<Rightarrow> Some None) = Some r"
  then show "P s r"
    using assms(2-4) by (cases "login_step s") auto
qed

lemma session_loop_rounds [consumes 1, case_names again finished undefined]:
  assumes "session_loop user grp s = Some r"
    and "\<And>s s1 r. session_step user grp s = Again s1 \<Longrightarrow> P s1 r \<Longrightarrow> P s r"
    and "\<And>s s1. session_step user grp s = Done () s1 \<Longrightarrow> P s (Some s1)"
    and "\<And>s. session_step user grp s = Undefined \<Longrightarrow> P s None"
  shows "P s r"
proof -
  have "user = user \<longrightarrow> grp = grp \<longrightarrow> P s r"
  proof (rule session_loop.raw_induct[where P = "\<lambda>u g s r. u = user \<longrightarrow> g = grp \<longrightarrow> P s r", OF _ assms(1)],
      intro impI)
    fix loop user' grp' s r
    assume "\<And>user' grp' s r. loop user' grp' s = Some r \<Longrightarrow> user' = user \<longrightarrow> grp' = grp \<longrightarrow> P s r"
      and "(case session_step user' grp' s of Again s1 \<Rightarrow> loop user' grp' s1
            | Done _ s1 \<Rightarrow> Some (Some s1) | Undefined \<Rightarrow> Some None) = Some r"
      and "user' = user" "grp' = grp"
    then show "P s r"
      using assms(2-4) by (cases "session_step user grp s") auto
  qed
  then show ?thesis
    by simp
qed

end
