(* ===== verification/Fms_Props.thy ===== *)
theory Fms_Props
  imports Fms "HOL-Library.Sublist"
begin

text \<open>
  Properties of the command-line program: what its loops keep, when they return, and what they do
  at the end of the input.
\<close>

section \<open>Login\<close>

lemma login_user_defined: "length p \<le> MAX_PASSWORD \<Longrightarrow> login_user w n p \<noteq> None"
  by (auto simp: login_user_def Let_def hash_password_None split: option.split)

lemma register_user_defined: "length p \<le> MAX_PASSWORD \<Longrightarrow> register_user w n (Some p) g \<noteq> None"
  by (auto simp: register_user_def Let_def hash_password_None split_beta split: option.split)

lemma fits_password: "fits MAX_PASSWORD p \<Longrightarrow> length p \<le> MAX_PASSWORD"
  by (simp add: fits_def)

lemma password_size [simp]: "0 < MAX_PASSWORD"
  by (simp add: MAX_PASSWORD_def)

lemma sys_simps [simp]: "sys (say x s) = sys s" "inp (say x s) = inp s"
  by (simp_all add: say_def)

lemma fgets_loop_suffix: "suffix (snd (fgets_loop n cs)) cs"
  by (induction n cs rule: fgets_loop.induct) (auto simp: split_beta intro: suffix_ConsI)

lemma ask_suffix: "ask q n s = (x, s1) \<Longrightarrow> suffix (inp s1) (inp s)"
  using fgets_loop_suffix[of "n - 1" "inp s"]
  by (auto simp: ask_def read_line_def say_def fgets_def split: option.splits if_splits)

lemma length_cstr_less: "length (cstr a) < length a \<longleftrightarrow> NUL \<in> set a"
  by (induction a) auto

lemma printable_iff:
  "wf_user u \<Longrightarrow> printable_user u \<longleftrightarrow> length (uname u) < MAX_USERNAME \<and> length (cstr (u_group u)) < MAX_GROUP"
  using length_cstr_less[of "u_username u"] length_cstr_less[of "u_group u"]
  by (simp add: printable_user_def uname_def wf_user_def)

text \<open>What a round of the login screen reads when it is a login: the choice, the name, the password.\<close>

definition login_answers :: "cli \<Rightarrow> string \<times> string \<times> string" where
  "login_answers s =
     (let (choice, s) = ask ([NL] @ ''1) Login'' @ [NL] @ ''2) Register'' @ [NL] @ ''3) Exit'' @ [NL] @ ''Choice: '') 8 s;
          (username, s) = ask ''Username: '' MAX_USERNAME s;
          (password, s) = ask ''Password: '' MAX_PASSWORD s in
      (choice, username, password))"

text \<open>One round of the login screen, by the choice typed.\<close>

lemma login_step_cases:
  obtains (login) n p s1 where "fits MAX_USERNAME n" "fits MAX_PASSWORD p" "sys s1 = sys s"
      "login_answers s = (''1'', n, p)" "suffix (inp s1) (inp s)"
      "login_step s = (case login_user (sys s) n p of
         None \<Rightarrow> Undefined
       | Some (Some u, w) \<Rightarrow>
           if printable_user u then
             Done (Some u) (say (''Login successful. Welcome, '' @ cstr (u_username u) @ '' (group: '' @
               cstr (u_group u) @ '').'' @ [NL]) (s1\<lparr>sys := w\<rparr>))
           else Undefined
       | Some (None, w) \<Rightarrow> Again (say (''Login failed: invalid username or password.'' @ [NL]) (s1\<lparr>sys := w\<rparr>)))"
  | (register) n p g s1 where "fits MAX_USERNAME n" "fits MAX_PASSWORD p" "fits MAX_GROUP g" "sys s1 = sys s"
      "suffix (inp s1) (inp s)"
      "login_step s = (case register_user (sys s) (Some n) (Some p) (Some g) of
         None \<Rightarrow> Undefined
       | Some (ok, w) \<Rightarrow> Again (say
           ((if ok then ''Registration successful. You can now log in.''
             else ''Registration failed (username may already exist, or input invalid).'') @ [NL])
           (s1\<lparr>sys := w\<rparr>)))"
  | (leave) s1 where "login_step s = Done None s1" "sys s1 = sys s" "suffix (inp s1) (inp s)"
  | (invalid) s1 where "login_step s = Again s1" "sys s1 = sys s" "suffix (inp s1) (inp s)"
proof -
  obtain c s0 where c: "ask ([NL] @ ''1) Login'' @ [NL] @ ''2) Register'' @ [NL] @ ''3) Exit'' @ [NL] @ ''Choice: '') 8 s = (c, s0)"
    by fastforce
  have s0: "sys s0 = sys s" "suffix (inp s0) (inp s)"
    using ask_sys[OF c] ask_suffix[OF c] .
  consider "c = ''1''" | "c = ''2''" | "c = ''3''" | "c \<noteq> ''1''" "c \<noteq> ''2''" "c \<noteq> ''3''"
    by blast
  then show thesis
  proof cases
    case 1
    obtain n s1 p s2 where a: "ask ''Username: '' MAX_USERNAME s0 = (n, s1)" "ask ''Password: '' MAX_PASSWORD s1 = (p, s2)"
      by (metis surj_pair)
    show thesis
      by (rule login[of n p s2])
        (use 1 c s0 a ask_fits[OF a(1)] ask_fits[OF a(2)] ask_sys[OF a(1)] ask_sys[OF a(2)]
          suffix_order.trans[OF suffix_order.trans[OF ask_suffix[OF a(2)] ask_suffix[OF a(1)]] s0(2)]
          in \<open>simp_all only: login_step_def login_answers_def Let_def prod.case if_True refl, simp_all\<close>)
  next
    case 2
    obtain n s1 p s2 g s3 where a: "ask ''Choose a username: '' MAX_USERNAME s0 = (n, s1)"
      "ask ''Choose a password: '' MAX_PASSWORD s1 = (p, s2)"
      "ask ''Choose a group (e.g. staff, guest): '' MAX_GROUP s2 = (g, s3)"
      by (metis surj_pair)
    have ne: "(c = ''1'') = False" "(c = ''2'') = True"
      using 2 by simp_all
    show thesis
      by (rule register[of n p g s3])
        (use ne c s0 a ask_fits[OF a(1)] ask_fits[OF a(2)] ask_fits[OF a(3)] ask_sys[OF a(1)] ask_sys[OF a(2)]
          ask_sys[OF a(3)] suffix_order.trans[OF suffix_order.trans[OF suffix_order.trans[OF ask_suffix[OF a(3)]
            ask_suffix[OF a(2)]] ask_suffix[OF a(1)]] s0(2)] in \<open>simp_all only: login_step_def Let_def prod.case if_True if_False refl, simp_all\<close>)
  next
    case 3
    have ne: "(c = ''1'') = False" "(c = ''2'') = False" "(c = ''3'') = True"
      using 3 by simp_all
    show thesis
      by (rule leave[of s0])
        (use ne c s0 in \<open>simp_all only: login_step_def Let_def prod.case if_True if_False refl\<close>)
  next
    case 4
    have ne: "(c = ''1'') = False" "(c = ''2'') = False" "(c = ''3'') = False"
      using 4 by simp_all
    show thesis
      by (rule invalid[of "say (''Invalid choice.'' @ [NL]) s0"])
        (use ne c s0 in \<open>simp_all only: login_step_def Let_def prod.case if_True if_False refl sys_simps\<close>)
  qed
qed

text \<open>What the screen keeps of the account file, and what it knows of a user it returns.\<close>

definition account_inv :: "world \<Rightarrow> bool" where
  "account_inv w \<longleftrightarrow> users_inv w \<and> can_read w USERS_DB"

text \<open>
  Reaching \<open>Done (Some u)\<close> from \<open>s\<close>: the last round is a login, and the name and the password read in
  it are those of \<open>u\<close>'s record.
\<close>

abbreviation login_rounds :: "cli \<Rightarrow> cli \<Rightarrow> bool" where
  "login_rounds \<equiv> (\<lambda>a b. login_step a = Again b)\<^sup>*\<^sup>*"

definition authentic :: "cli \<Rightarrow> (User option \<times> cli) option \<Rightarrow> bool" where
  "authentic s r = (case r of
     Some (Some u, s1) \<Rightarrow> \<exists>s0 n p. login_rounds s s0 \<and> suffix (inp s0) (inp s) \<and> users_inv (sys s0) \<and>
       login_step s0 = Done (Some u) s1 \<and> login_answers s0 = (''1'', n, p) \<and>
       u \<in> set (users (sys s0)) \<and> cstr (u_username u) = n \<and> u_hash u = salted_hash (u_salt u) p \<and>
       sys s1 = log_action (sys s0) (Some n) (Some ''LOGIN'') (Some n) (Some ''SUCCESS'')
   | _ \<Rightarrow> True)"

lemma account_inv_log:
  "account_inv (log_action w a b c d) = account_inv w" "users (log_action w a b c d) = users w"
  using users_cong[of "log_action w a b c d" w]
  by (simp_all add: account_inv_def users_inv_def content_def log_action_disk log_action_env)

lemma login_step_accounts:
  assumes "account_inv (sys s)"
  shows "case login_step s of Again s1 \<Rightarrow> account_inv (sys s1) \<and> suffix (inp s1) (inp s)
    | Done x s1 \<Rightarrow> authentic s (Some (x, s1)) | Undefined \<Rightarrow> True"
proof (cases rule: login_step_cases[of s])
  case (login n p s1)
  have len: "length p \<le> 64" "nonul n" "length n \<le> 32"
    using login by (simp_all add: fits_def MAX_PASSWORD_def)
  obtain r where r: "login_user (sys s) n p = Some (r, log_action (sys s) (Some n) (Some ''LOGIN'') (Some n) (Some
        (if find_user (sys s) n = None then ''FAILED_UNKNOWN_USER''
         else if r = None then ''FAILED_WRONG_PASSWORD'' else ''SUCCESS'')))"
      "\<And>u. r = Some u \<longleftrightarrow> u \<in> set (users (sys s)) \<and> uname u = n \<and> u_hash u = salted_hash (u_salt u) p"
    using login_iff[of "sys s" n p] assms len by (auto simp: account_inv_def)
  have inv: "account_inv (log_action (sys s) a b c d)" for a b c d
    using assms account_inv_log(1)[of "sys s" a b c d] by simp
  show ?thesis
  proof (cases r)
    case None
    then show ?thesis
      using login r(1) inv by simp
  next
    case (Some u)
    then have u: "u \<in> set (users (sys s))" "uname u = n" "u_hash u = salted_hash (u_salt u) p"
      using r(2) by simp_all
    then have "find_user (sys s) n \<noteq> None"
      using assms len by (auto simp: account_inv_def find_user_uname find_None_iff)
    then show ?thesis
      using login r(1) Some u assms by (auto simp: authentic_def account_inv_def uname_def)
  qed
next
  case (register n p g s1)
  show ?thesis
  proof (cases "register_user (sys s) (Some n) (Some p) (Some g)")
    case (Some x)
    obtain ok w where x: "x = (ok, w)"
      by fastforce
    have "account_inv w"
      using register_unique[OF _ _ Some[unfolded x]] register_user_env[OF Some[unfolded x]] register(1) assms
      by (simp add: fits_def account_inv_def same_env_def)
    then show ?thesis
      using register Some x by simp
  qed (use register in simp)
qed (use assms in \<open>simp_all add: authentic_def\<close>)

lemma authentic_again:
  assumes "login_step s = Again t" "suffix (inp t) (inp s)" "authentic t r"
  shows "authentic s r"
proof -
  have "login_rounds s s0" if "login_rounds t s0" for s0
    using that assms(1) by (simp add: converse_rtranclp_into_rtranclp)
  then show ?thesis
    using assms(2,3) suffix_order.trans by (fastforce simp: authentic_def split: option.splits)
qed

lemma login_screen_authentic:
  assumes "login_screen s = Some r" "account_inv (sys s)"
  shows "authentic s r"
  using assms
proof (induction rule: login_screen_rounds)
  case (again s s1 r)
  then show ?case
    using login_step_accounts[of s] authentic_again by auto
next
  case (finished s x s1)
  then show ?case
    using login_step_accounts[of s] by simp
qed (simp add: authentic_def)

text \<open>
  C17: Nobody enters a session without the password. Let the account file be readable and hold whole
  records with unique names. When the login screen then returns a user, the last of its rounds was a
  login, read from what was left of the input; the user's record was in the account file as it stood
  in that round, after whatever was registered on the way; the name typed in the round is the name of
  the record, the salted SHA-256 of the password typed in the round is the hash in the record, and the
  round did nothing to the disk but log this success. The account file still holds whole records with
  unique names, the user's among them.
\<close>

theorem login_screen_authenticates:
  assumes "users_inv (sys s)" "can_read (sys s) USERS_DB" "login_screen s = Some (Some (Some u, s1))"
  shows "\<exists>s0 n p. (\<lambda>a b. login_step a = Again b)\<^sup>*\<^sup>* s s0 \<and> suffix (inp s0) (inp s) \<and>
    login_step s0 = Done (Some u) s1 \<and> login_answers s0 = (''1'', n, p) \<and>
    u \<in> set (users (sys s0)) \<and> cstr (u_username u) = n \<and> u_hash u = salted_hash (u_salt u) p \<and>
    sys s1 = log_action (sys s0) (Some n) (Some ''LOGIN'') (Some n) (Some ''SUCCESS'') \<and>
    users_inv (sys s1) \<and> u \<in> set (users (sys s1))"
proof -
  have a: "authentic s (Some (Some u, s1))"
    using login_screen_authentic[OF assms(3)] assms(1,2) by (simp add: account_inv_def)
  obtain s0 n p where s0: "login_rounds s s0" "suffix (inp s0) (inp s)" "users_inv (sys s0)"
      "login_step s0 = Done (Some u) s1" "login_answers s0 = (''1'', n, p)" "u \<in> set (users (sys s0))"
      "cstr (u_username u) = n" "u_hash u = salted_hash (u_salt u) p"
      "sys s1 = log_action (sys s0) (Some n) (Some ''LOGIN'') (Some n) (Some ''SUCCESS'')"
    using a by (simp add: authentic_def) blast
  have "users (sys s1) = users (sys s0)" "users_inv (sys s1)"
    using s0(3,9) users_cong[of "sys s1" "sys s0"]
    by (simp_all add: log_action_disk users_inv_def content_def)
  then show ?thesis
    using s0 by metis
qed

section \<open>The end of the input\<close>

text \<open>
  C40: At the end of its input the program never stops: \<open>read_line\<close> turns the end of the input
  into an empty line, the empty line is an invalid choice, and both the login screen and the session
  menu prompt again for ever.
\<close>

theorem end_of_input_loops:
  assumes "inp s = []"
  shows "login_screen s = None \<and> session_loop user grp s = None"
proof
  have "login_screen s = Some r \<Longrightarrow> inp s \<noteq> []" for r
    by (induction rule: login_screen_rounds) (auto simp: login_step_def ask_eof)
  then show "login_screen s = None"
    using assms by (cases "login_screen s") auto
  have "session_loop user grp s = Some r \<Longrightarrow> inp s \<noteq> []" for r
    by (induction rule: session_loop_rounds) (auto simp: session_step_def ask_eof)
  then show "session_loop user grp s = None"
    using assms by (cases "session_loop user grp s") auto
qed

theorem end_of_input_loops_witness:
  "login_screen \<lparr>inp = [], out = [], sys = fresh_world\<rparr> = None"
  using end_of_input_loops[of "\<lparr>inp = [], out = [], sys = fresh_world\<rparr>"] by simp

section \<open>Typed sessions\<close>

lemma ask_line_ok: "inp s = l @ NL # rest \<Longrightarrow> line_ok n l \<Longrightarrow> ask p n s = (l, (say p s)\<lparr>inp := rest\<rparr>)"
  using ask_line by (simp add: line_ok_def)

lemma ask_typed: "inp s = typed (l # ls) \<Longrightarrow> line_ok n l \<Longrightarrow> ask p n s = (l, (say p s)\<lparr>inp := typed ls\<rparr>)"
  using ask_line_ok by simp

lemma choice_ok [simp]: "line_ok 8 [c] \<longleftrightarrow> c \<noteq> NL \<and> c \<noteq> NUL"
  by (auto simp: line_ok_def)

lemma digit_chars [simp]: "CHR ''1'' \<noteq> NL" "CHR ''2'' \<noteq> NL" "CHR ''6'' \<noteq> NL" "CHR ''1'' \<noteq> NUL" "CHR ''2'' \<noteq> NUL" "CHR ''6'' \<noteq> NUL"
  by (simp_all add: NL_def NUL_def)

lemma login_step_typed_login:
  assumes "inp s = typed (''1'' # n # p # ls)" "line_ok MAX_USERNAME n" "line_ok MAX_PASSWORD p"
    and "login_user (sys s) n p = Some (Some u, w)" "printable_user u"
  shows "\<exists>s1. login_step s = Done (Some u) s1 \<and> sys s1 = w \<and> inp s1 = typed ls"
proof -
  have sys1: "sys ((say p s)\<lparr>inp := i\<rparr>) = sys s" for p i s
    by simp
  show ?thesis
    using assms by (simp add: login_step_def Let_def ask_typed[of _ _ _ _ ] del: typed.simps)
qed

lemma login_step_typed_register:
  assumes "inp s = typed (''2'' # n # p # g # ls)" "line_ok MAX_USERNAME n" "line_ok MAX_PASSWORD p"
    and "line_ok MAX_GROUP g" "register_user (sys s) (Some n) (Some p) (Some g) = Some (ok, w)"
  shows "\<exists>s1. login_step s = Again s1 \<and> sys s1 = w \<and> inp s1 = typed ls"
  using assms by (simp add: login_step_def Let_def ask_typed del: typed.simps)

theorem login_screen_authenticates_witness:
  "\<exists>u s1. login_screen \<lparr>inp = typed [''2'', ''ann'', ''secret'', ''dev'', ''1'', ''ann'', ''secret''],
      out = [], sys = fresh_world\<rparr> = Some (Some (Some u, s1)) \<and> u \<in> set (users (sys s1))"
proof -
  define s where "s = \<lparr>inp = typed [''2'', ''ann'', ''secret'', ''dev'', ''1'', ''ann'', ''secret''],
      out = [], sys = fresh_world\<rparr>"
  obtain w' u w'' where r: "register_user fresh_world (Some ''ann'') (Some ''secret'') (Some ''dev'') = Some (True, w')"
    "login_user w' ''ann'' ''secret'' = Some (Some u, w'')" "printable_user u"
    using registered_logs_in[OF fresh_users(1,2) ann_valid(1) fresh_users(3)] wf_users
    by (fastforce simp: printable_iff)
  have ok: "line_ok MAX_USERNAME ''ann''" "line_ok MAX_PASSWORD ''secret''" "line_ok MAX_GROUP ''dev''"
    by (simp_all add: line_ok_def NL_def NUL_def MAX_PASSWORD_def)
  obtain s1 where s1: "login_step s = Again s1" "sys s1 = w'" "inp s1 = typed [''1'', ''ann'', ''secret'']"
    using login_step_typed_register[OF _ ok, of s "[''1'', ''ann'', ''secret'']" True w'] r(1)
    by (auto simp: s_def simp del: typed.simps)
  obtain s2 where s2: "login_step s1 = Done (Some u) s2"
    using login_step_typed_login[OF s1(3) ok(1,2)] r(2,3) s1(2) by auto
  have "login_screen s = Some (Some (Some u, s2))"
    using s1(1) s2 by (subst login_screen.simps, simp, subst login_screen.simps, simp)
  moreover have "users_inv (sys s)" "can_read (sys s) USERS_DB"
    by (simp_all add: s_def)
  from login_screen_authenticates[OF this] calculation have "u \<in> set (users (sys s2))"
    by blast
  ultimately show ?thesis
    unfolding s_def by blast
qed

section \<open>Sessions\<close>

text \<open>
  A session ends only by logging out. Whenever the session loop returns, the last line of the
  audit log, if the log can be opened, records the logout of the session's user.
\<close>

theorem session_ends_with_logout:
  assumes "session_loop user grp s = Some (Some s1)"
  shows "\<exists>w. sys s1 = log_action w (Some user) (Some ''LOGOUT'') (Some ''-'') (Some ''SUCCESS'') \<and>
    content (sys s1) [''audit.log''] = content w [''audit.log''] @
      (if log_open w then log_line (clock w) (Some user) (Some ''LOGOUT'') (Some ''-'') (Some ''SUCCESS'') else [])"
proof -
  have step: "\<exists>w. sys s1 = log_action w (Some user) (Some ''LOGOUT'') (Some ''-'') (Some ''SUCCESS'')"
    if "session_step user grp s = Done () s1" for s s1
    using that unfolding session_step_def
    by (auto simp: Let_def split_beta report_def transform_case_def split: if_splits option.splits)
  have "session_loop user grp s = Some r \<Longrightarrow> case r of None \<Rightarrow> True | Some s1 \<Rightarrow>
      \<exists>w. sys s1 = log_action w (Some user) (Some ''LOGOUT'') (Some ''-'') (Some ''SUCCESS'')" for r
    by (induction rule: session_loop_rounds) (use step in auto)
  from this[OF assms] show ?thesis
    by (auto simp: log_action_appends)
qed

text \<open>
  Permission changes are not gated. One round of the session menu lets any logged-in user set
  the permissions of any existing file to \<open>rwxrwxrwx\<close>: the table then grants every permission on it
  to everybody, and the change is logged as a success.
\<close>

theorem chmod_needs_no_permission:
  assumes "fs_inv (sys s)" "length (metas (sys s)) \<le> 1024" "perm_table (sys s) f = Some e"
    and "line_ok MAX_FILENAME f" "inp s = typed (''6'' # f # ''rwxrwxrwx'' # ls)"
  shows "\<exists>s1 e1. session_step user grp s = Again s1 \<and> inp s1 = typed ls \<and>
    perm_table (sys s1) = (perm_table (sys s))(f \<mapsto> e1) \<and> e1 = e\<lparr>e_perms := ''rwxrwxrwx''\<rparr> \<and>
    (\<forall>u g perm. allowed e1 u g perm) \<and>
    content (sys s1) [''audit.log''] = content (sys s) [''audit.log''] @
      (if log_open (sys s) then log_line (clock (sys s)) (Some user) (Some ''CHMOD'') (Some f) (Some ''SUCCESS'') else [])"
proof -
  define w where "w = snd (chmod_file (sys s) f ''rwxrwxrwx'')"
  have valid: "is_valid_perm_string (Some ''rwxrwxrwx'')"
    by (simp add: is_valid_perm_string_def upt_rec)
  have f: "fits MAX_FILENAME f"
    using assms(4) by (simp add: line_ok_def fits_def)
  have t: "table_step (Chmod f ''rwxrwxrwx'') (perm_table (sys s)) = (fst (chmod_file (sys s) f ''rwxrwxrwx''), perm_table w)"
    using pt.step_sim[of "sys s" "Chmod f ''rwxrwxrwx''"] assms(1,2) f by (simp add: fs_inv_def w_def)
  then have c: "chmod_file (sys s) f ''rwxrwxrwx'' = (True, w)"
    "perm_table w = (perm_table (sys s))(f \<mapsto> e\<lparr>e_perms := ''rwxrwxrwx''\<rparr>)"
    using valid assms(3) by (auto simp: prod_eq_iff w_def)
  have fr: "meta_frame (sys s) w"
    using meta_step_frame[of "sys s" "Chmod f ''rwxrwxrwx''"] by (simp add: w_def)
  then have log: "log_open w = log_open (sys s)" "clock w = clock (sys s)" "content w [''audit.log''] = content (sys s) [''audit.log'']"
    by (auto simp: meta_frame_def same_env_def log_open_def content_def)
  have ok: "line_ok 16 ''rwxrwxrwx''"
    by (simp add: line_ok_def NL_def NUL_def)
  have "allowed (e\<lparr>e_perms := ''rwxrwxrwx''\<rparr>) u g perm" for u g perm
    by (cases perm) (auto simp: allowed_def class_of_def)
  then have "allowed (e\<lparr>e_perms := ''rwxrwxrwx''\<rparr>) = (\<lambda>_ _ _. True)"
    by (intro ext) simp
  moreover have "perm_table (log_action w a b x d) = perm_table w" for a b x d
    by (rule perm_table_cong) (simp add: log_action_disk)
  ultimately show ?thesis
    using assms(4,5) ok c log
    by (simp add: session_step_def Let_def ask_typed report_def log_action_appends del: typed.simps)
qed

theorem session_ends_with_logout_witness:
  "\<exists>s1 w. session_loop ''ann'' ''dev'' \<lparr>inp = typed [''9''], out = [], sys = fresh_world\<rparr> = Some (Some s1) \<and>
     sys s1 = log_action w (Some ''ann'') (Some ''LOGOUT'') (Some ''-'') (Some ''SUCCESS'')"
proof -
  define s where "s = \<lparr>inp = typed [''9''], out = [], sys = fresh_world\<rparr>"
  have "line_ok 8 ''9''"
    by (simp add: NL_def NUL_def)
  then have "\<exists>s1. session_step ''ann'' ''dev'' s = Done () s1"
    by (simp add: session_step_def Let_def ask_typed s_def del: typed.simps choice_ok)
  then obtain s1 where s1: "session_loop ''ann'' ''dev'' s = Some (Some s1)"
    by (auto simp: session_loop.simps)
  then show ?thesis
    using session_ends_with_logout[OF s1] unfolding s_def by blast
qed

theorem chmod_needs_no_permission_witness:
  "\<exists>s1. session_step ''eve'' ''ops''
      \<lparr>inp = typed [''6'', ''notes'', ''rwxrwxrwx''], out = [], sys = demo_world\<rparr> = Again s1 \<and>
     (\<exists>e1. perm_table (sys s1) ''notes'' = Some e1 \<and> allowed e1 ''eve'' ''ops'' PERM_READ)"
proof -
  have "line_ok MAX_FILENAME ''notes''"
    by (simp add: line_ok_def NL_def NUL_def)
  from chmod_needs_no_permission[OF _ _ _ this, where s = "\<lparr>inp = typed [''6'', ''notes'', ''rwxrwxrwx''],
      out = [], sys = demo_world\<rparr>" and e = demo_entry and ls = "[]" and user = "''eve''" and grp = "''ops''"]
    demo_created(1,2,6)
  obtain s1 e1 where "session_step ''eve'' ''ops''
      \<lparr>inp = typed [''6'', ''notes'', ''rwxrwxrwx''], out = [], sys = demo_world\<rparr> = Again s1"
    "perm_table (sys s1) = (perm_table demo_world)(''notes'' \<mapsto> e1)" "\<forall>u g perm. allowed e1 u g perm"
    by auto
  then show ?thesis
    by auto
qed

end
