(* ===== verification/Fms_Session.thy ===== *)
theory Fms_Session
  imports Fms_Props
begin

text \<open>
  Whole sessions of the file-management program: two users register, one creates a file, the other
  logs in and tries to read it. The theorem follows the typed input through the login screen, the
  session menu and the main loop, and connects the accounts of \<open>auth.c\<close>, the permissions of
  \<open>perms.c\<close> and the storage of \<open>fileops.c\<close>.
\<close>

section \<open>Accounts\<close>

definition has_account :: "world \<Rightarrow> string \<Rightarrow> string \<Rightarrow> string \<Rightarrow> bool" where
  "has_account w n p g \<longleftrightarrow> users_inv w \<and> users_open w \<and>
     (\<exists>u\<in>set (users w). uname u = n \<and> cstr (u_group u) = g \<and> u_hash u = salted_hash (u_salt u) p)"

lemma has_account_cong:
  assumes "disk w' [''users.dat''] = disk w [''users.dat'']" "same_env w w'"
    "[''users.dat''] \<in> dirs w' \<longleftrightarrow> [''users.dat''] \<in> dirs w"
  shows "has_account w' n p g = has_account w n p g"
  using assms users_cong[OF assms(1)]
  by (simp add: has_account_def users_inv_def users_open_def same_env_def content_def)

lemma account_login:
  assumes "has_account w n p g" "valid_registration n p g"
  shows "\<exists>u. login_user w n p = Some (Some u, log_action w (Some n) (Some ''LOGIN'') (Some n) (Some ''SUCCESS'')) \<and>
    cstr (u_username u) = n \<and> cstr (u_group u) = g \<and> printable_user u"
proof -
  have v: "nonul n" "length n \<le> 32" "length p \<le> 64" and o: "users_inv w" "can_read w USERS_DB"
    using assms by (auto simp: valid_registration_def has_account_def users_open_def)
  obtain u where u: "u \<in> set (users w)" "uname u = n" "cstr (u_group u) = g" "u_hash u = salted_hash (u_salt u) p"
    using assms(1) by (auto simp: has_account_def)
  obtain r where r: "login_user w n p =
      Some (r, log_action w (Some n) (Some ''LOGIN'') (Some n) (Some
        (if find_user w n = None then ''FAILED_UNKNOWN_USER''
         else if r = None then ''FAILED_WRONG_PASSWORD'' else ''SUCCESS'')))"
      "\<And>u. r = Some u \<longleftrightarrow> u \<in> set (users w) \<and> uname u = n \<and> u_hash u = salted_hash (u_salt u) p"
    using login_iff[OF o v] by auto
  have "r = Some u" "find_user w n \<noteq> None"
    using r(2)[of u] u v o by (auto simp: find_user_uname find_None_all)
  moreover have "printable_user u"
    using assms(2) u wf_users[OF u(1)] by (auto simp: valid_registration_def printable_iff)
  ultimately show ?thesis
    using r(1) u by (auto simp: uname_def)
qed

text \<open>What a successful registration leaves: the account, the accounts there were, and every other file.\<close>

lemma account_register:
  assumes "users_open w" "users_inv w" "valid_registration n p g" "find_user w n = None"
  shows "\<exists>w'. register_user w (Some n) (Some p) (Some g) = Some (True, w') \<and> has_account w' n p g \<and>
    (\<forall>m q h. has_account w m q h \<longrightarrow> has_account w' m q h) \<and>
    (\<forall>m. m \<noteq> n \<and> nonul m \<and> length m \<le> 32 \<longrightarrow> find_user w' m = find_user w m) \<and>
    same_env w w' \<and> dirs w' = dirs w \<and>
    (\<forall>r. r \<noteq> [''users.dat''] \<and> r \<noteq> [''audit.log''] \<longrightarrow> disk w' r = disk w r)"
proof -
  let ?s = "fst (generate_salt w)"
  define u where "u = new_user n g ?s (salted_hash ?s p)"
  have n: "nonul n" "length n < 32" "nonul g" "length g < 32"
    using assms(3) by (auto simp: valid_registration_def)
  have wf: "wf_user u"
    using generate_salt_world(1)[of w]
    by (simp add: u_def wf_user_def new_user_def SALT_LEN_def salted_hash_def)
  obtain w' where w': "register_user w (Some n) (Some p) (Some g) = Some (True, w')" "same_env w w'"
      "disk w' [''users.dat''] = Some (content w [''users.dat''] @ user_bytes u)" "dirs w' = dirs w"
      "\<forall>r. r \<noteq> [''users.dat''] \<and> r \<noteq> [''audit.log''] \<longrightarrow> disk w' r = disk w r"
    using register_user_success[OF assms(1,3,4) u_def] by blast
  have inv: "users_inv w'"
    using register_unique[OF assms(2) _ w'(1)] assms(1) n(1) by (simp add: users_open_def)
  have us: "users w' = users w @ [u]"
    by (rule users_append(1)[OF assms(2) wf w'(3)])
  have u: "uname u = n" "cstr (u_group u) = g" "u_hash u = salted_hash (u_salt u) p"
    using n by (simp_all add: u_def uname_new_user) (simp_all add: new_user_def cstr_strncpy_zeros)
  have op: "users_open w'"
    using w'(2,4) assms(1) by (simp add: users_open_def same_env_def)
  have find: "find_user w' m = find_user w m" if "m \<noteq> n" "nonul m" "length m \<le> 32" for m
    using that op assms(1) u(1) by (simp add: users_open_def find_user_uname us find_append split: option.split)
  have acc: "has_account w' n p g" "\<And>m q h. has_account w m q h \<Longrightarrow> has_account w' m q h"
    using inv op u us by (auto simp: has_account_def)
  show ?thesis
    using w' acc find by (intro exI[of _ w']) simp
qed

section \<open>Rounds with their input and output\<close>

definition menu_text :: string where
  "menu_text = [NL] @ ''1) Login'' @ [NL] @ ''2) Register'' @ [NL] @ ''3) Exit'' @ [NL] @ ''Choice: ''"

definition banner_text :: string where
  "banner_text = [NL] @ ''========================================='' @ [NL] @
     '' Secure File Management System - ST5004CEM'' @ [NL] @
     ''========================================='' @ [NL]"

lemma print_banner_text: "print_banner s = say banner_text s"
  by (simp add: print_banner_def banner_text_def)

lemma ask_reads: "inp s = typed (l # ls) \<Longrightarrow> line_ok n l \<Longrightarrow> ask q n s = (l, s\<lparr>inp := typed ls, out := out s @ q\<rparr>)"
  using ask_typed[of s l ls n q] by (simp add: say_def)

lemma login_screen_again: "login_step s = Again s1 \<Longrightarrow> login_screen s = login_screen s1"
  by (simp add: login_screen.simps)

lemma login_screen_done: "login_step s = Done r s1 \<Longrightarrow> login_screen s = Some (Some (r, s1))"
  by (simp add: login_screen.simps)

lemma session_loop_again: "session_step u g s = Again s1 \<Longrightarrow> session_loop u g s = session_loop u g s1"
  by (simp add: session_loop.simps)

lemma session_loop_done: "session_step u g s = Done x s1 \<Longrightarrow> session_loop u g s = Some (Some s1)"
  by (simp add: session_loop.simps)

lemma more_digits [simp]: "CHR ''3'' \<noteq> NL" "CHR ''9'' \<noteq> NL" "CHR ''3'' \<noteq> NUL" "CHR ''9'' \<noteq> NUL"
  by (simp_all add: NL_def NUL_def)

lemma exit_round:
  assumes "inp s = typed [''3'']"
  shows "login_screen s = Some (Some (None, s\<lparr>inp := [], out := out s @ menu_text\<rparr>))"
proof (rule login_screen_done)
  show "login_step s = Done None (s\<lparr>inp := [], out := out s @ menu_text\<rparr>)"
    using assms by (simp add: login_step_def Let_def ask_reads menu_text_def del: typed.simps) simp
qed

lemma logout_round:
  assumes "inp s = typed (''9'' # ls)"
  shows "session_loop u g s = Some (Some (s\<lparr>inp := typed ls, out := out s @ print_menu @ ''Logging out.'' @ [NL],
    sys := log_action (sys s) (Some u) (Some ''LOGOUT'') (Some ''-'') (Some ''SUCCESS'')\<rparr>))"
proof (rule session_loop_done)
  show "session_step u g s = Done () (s\<lparr>inp := typed ls, out := out s @ print_menu @ ''Logging out.'' @ [NL],
    sys := log_action (sys s) (Some u) (Some ''LOGOUT'') (Some ''-'') (Some ''SUCCESS'')\<rparr>)"
    using assms by (simp add: session_step_def Let_def ask_reads say_def del: typed.simps)
qed

lemma create_round:
  assumes "inp s = typed (''1'' # f # pm # c # ls)" "line_ok MAX_FILENAME f" "line_ok 16 pm" "line_ok MAX_LINE c"
  shows "\<exists>t. session_loop u g s = session_loop u g t \<and> inp t = typed ls \<and>
    sys t = snd (fs_create_file (sys s) u g f pm c)"
proof -
  have "\<exists>t. session_step u g s = Again t \<and> inp t = typed ls \<and> sys t = snd (fs_create_file (sys s) u g f pm c)"
    using assms by (simp add: session_step_def Let_def ask_reads report_def del: typed.simps)
  then show ?thesis
    using session_loop_again by blast
qed

lemma line_ok_Nil [simp]: "line_ok n [] \<longleftrightarrow> 1 < n"
  by (simp add: line_ok_def)

lemma read_round:
  assumes "inp s = typed (''2'' # f # [] # ls)" "line_ok MAX_FILENAME f"
  shows "\<exists>t. session_loop u g s = session_loop u g t \<and> inp t = typed ls \<and>
    sys t = snd (fs_read_file (sys s) u g f None 4096) \<and>
    out t = out s @ print_menu @ ''Filename: '' @ ''Passphrase (leave blank if not encrypted): '' @
      (case fst (fs_read_file (sys s) u g f None 4096) of
         None \<Rightarrow> ''Failed: file not found or permission denied.'' @ [NL]
       | Some buf \<Rightarrow> ''--- Content ---'' @ [NL] @ cstr buf @ [NL] @ ''---------------'' @ [NL])"
proof -
  have "\<exists>t. session_step u g s = Again t \<and> inp t = typed ls \<and>
    sys t = snd (fs_read_file (sys s) u g f None 4096) \<and>
    out t = out s @ print_menu @ ''Filename: '' @ ''Passphrase (leave blank if not encrypted): '' @
      (case fst (fs_read_file (sys s) u g f None 4096) of
         None \<Rightarrow> ''Failed: file not found or permission denied.'' @ [NL]
       | Some buf \<Rightarrow> ''--- Content ---'' @ [NL] @ cstr buf @ [NL] @ ''---------------'' @ [NL])"
    using assms by (simp add: session_step_def Let_def ask_reads null_if_blank_def say_def split_beta MAX_PASSWORD_def
        del: typed.simps split: option.split)
  then show ?thesis
    using session_loop_again by blast
qed


lemma register_round:
  assumes "inp s = typed (''2'' # n # p # g # ls)" "line_ok MAX_USERNAME n" "line_ok MAX_PASSWORD p"
    and "line_ok MAX_GROUP g" "register_user (sys s) (Some n) (Some p) (Some g) = Some (ok, w)"
  shows "\<exists>t. login_screen s = login_screen t \<and> inp t = typed ls \<and> sys t = w"
  using login_step_typed_register[OF assms] login_screen_again by blast

lemma login_round:
  assumes "inp s = typed (''1'' # n # p # ls)" "line_ok MAX_USERNAME n" "line_ok MAX_PASSWORD p"
    and "has_account (sys s) n p g" "valid_registration n p g"
  shows "\<exists>u t. login_screen s = Some (Some (Some u, t)) \<and> inp t = typed ls \<and>
    sys t = log_action (sys s) (Some n) (Some ''LOGIN'') (Some n) (Some ''SUCCESS'') \<and>
    cstr (u_username u) = n \<and> cstr (u_group u) = g"
proof -
  obtain u where u: "login_user (sys s) n p =
      Some (Some u, log_action (sys s) (Some n) (Some ''LOGIN'') (Some n) (Some ''SUCCESS''))"
      "cstr (u_username u) = n" "cstr (u_group u) = g" "printable_user u"
    using account_login[OF assms(4,5)] by blast
  then show ?thesis
    using login_step_typed_login[OF assms(1-3) u(1,4)] login_screen_done by blast
qed

section \<open>The files along a session\<close>

definition file_there :: "world \<Rightarrow> string \<Rightarrow> entry \<Rightarrow> string \<Rightarrow> bool" where
  "file_there w f e c \<longleftrightarrow> fs_inv w \<and> storage_open w f \<and> perm_table w f = Some e \<and> disk w (sloc f) = Some c"

lemma effect_same: "same_env w w' \<Longrightarrow> dirs w' = dirs w \<Longrightarrow> effect w w' (disk w')"
  by (auto simp: effect_def)

lemma effect_keeps:
  assumes "effect w w' (disk w)"
  shows "file_there w' f e c = file_there w f e c" "has_account w' n p g = has_account w n p g"
proof -
  show "file_there w' f e c = file_there w f e c"
    using effect_frame[OF assms] effect_disk[OF assms] by (simp add: file_there_def)
  show "has_account w' n p g = has_account w n p g"
    by (rule has_account_cong) (use assms in \<open>auto simp: effect_def\<close>)
qed

lemma effect_log_action: "effect w (log_action w a b x d) (disk w)"
  by (simp add: effect_def log_action_env log_action_disk subset_insertI)

lemmas log_keeps = effect_keeps[OF effect_log_action]

lemma create_keeps:
  assumes "fs_inv w" "plain_file f" "names_fit u g" "perm_table w f = None"
    and "is_valid_perm_string (Some pm)" "storage_open w f"
  shows "file_there (snd (fs_create_file w u g f pm c)) f \<lparr>e_owner = u, e_group = g, e_perms = pm, e_enc = 0\<rparr> c"
    "has_account w n p h \<Longrightarrow> has_account (snd (fs_create_file w u g f pm c)) n p h"
proof -
  define w' where "w' = snd (fs_create_file w u g f pm c)"
  note c = create_effect[OF assms, of c, folded w'_def]
  have "storage_open w' f"
    using c(4) assms(6) by (auto simp: effect_def storage_open_def same_env_def)
  then show "file_there (snd (fs_create_file w u g f pm c)) f \<lparr>e_owner = u, e_group = g, e_perms = pm, e_enc = 0\<rparr> c"
    using c(2,3) effect_disk[OF c(4), of "sloc f"] by (simp add: file_there_def w'_def)
  assume "has_account w n p h"
  then show "has_account (snd (fs_create_file w u g f pm c)) n p h"
    using has_account_cong[of w' w n p h] c(4) by (auto simp: effect_def w'_def[symmetric])
qed

lemma read_there:
  assumes "file_there w f e c" "plain_file f" "names_fit u g" "e_enc e = 0" "nonul c" "length c < 4096"
  shows "map_option cstr (fst (fs_read_file w u g f None 4096)) = (if allowed e u g PERM_READ then Some c else None)"
    and "effect w (snd (fs_read_file w u g f None 4096)) (disk w)"
proof -
  have f: "fits MAX_FILENAME f" "fopen_r w (spath f) = Some c"
    using assms by (simp_all add: plain_file_def file_there_def fopen_r_def resolve_spath storage_open_def)
  note r = read_effect[OF _ f(1) assms(3), of w e None 4096]
  show "map_option cstr (fst (fs_read_file w u g f None 4096)) = (if allowed e u g PERM_READ then Some c else None)"
    using r assms f(2) by (simp add: file_there_def cipher_def)
  show "effect w (snd (fs_read_file w u g f None 4096)) (disk w)"
    using r assms(1) f(2) by (simp add: file_there_def effect_self)
qed

section \<open>The session of two users\<close>

definition two_users :: "string \<Rightarrow> string \<Rightarrow> string \<Rightarrow> string \<Rightarrow> string \<Rightarrow> string \<Rightarrow> string \<Rightarrow> string \<Rightarrow> string \<Rightarrow> string list" where
  "two_users n1 p1 g1 n2 p2 g2 f pm c =
     [''2'', n1, p1, g1, ''2'', n2, p2, g2,
      ''1'', n1, p1, ''1'', f, pm, c, ''9'',
      ''1'', n2, p2, ''2'', f, [], ''9'', ''3'']"

definition typable :: "string \<Rightarrow> string \<Rightarrow> string \<Rightarrow> bool" where
  "typable n p g \<longleftrightarrow> valid_registration n p g \<and> line_ok MAX_USERNAME n \<and> line_ok MAX_PASSWORD p \<and> line_ok MAX_GROUP g"

definition file_free :: "world \<Rightarrow> string \<Rightarrow> bool" where
  "file_free w f \<longleftrightarrow> fs_inv w \<and> storage_open w f \<and> perm_table w f = None"

lemma typable_simps:
  assumes "typable n p g"
  shows "valid_registration n p g" "line_ok MAX_USERNAME n" "line_ok MAX_PASSWORD p" "line_ok MAX_GROUP g"
    "names_fit n g" "nonul n" "length n \<le> 32"
  using assms by (auto simp: typable_def valid_registration_def names_fit_def fits_def)

lemma register_keeps_free:
  assumes "same_env w w'" "dirs w' = dirs w"
    "\<forall>r. r \<noteq> [''users.dat''] \<and> r \<noteq> [''audit.log''] \<longrightarrow> disk w' r = disk w r"
  shows "file_free w' f = file_free w f"
  using effect_frame[OF effect_same[OF assms(1,2)]] assms(3) by (simp add: file_free_def)

lemma two_registrations:
  assumes "inp s = typed (''2'' # n1 # p1 # g1 # ''2'' # n2 # p2 # g2 # ls)"
    and "users_open (sys s)" "users_inv (sys s)" "typable n1 p1 g1" "typable n2 p2 g2" "n1 \<noteq> n2"
    and "find_user (sys s) n1 = None" "find_user (sys s) n2 = None"
  shows "\<exists>t. login_screen s = login_screen t \<and> inp t = typed ls \<and> has_account (sys t) n1 p1 g1 \<and>
    has_account (sys t) n2 p2 g2 \<and> file_free (sys t) f = file_free (sys s) f"
proof -
  note v1 = typable_simps[OF assms(4)] and v2 = typable_simps[OF assms(5)]
  obtain a where a: "register_user (sys s) (Some n1) (Some p1) (Some g1) = Some (True, a)" "has_account a n1 p1 g1"
      "\<forall>m. m \<noteq> n1 \<and> nonul m \<and> length m \<le> 32 \<longrightarrow> find_user a m = find_user (sys s) m"
      "same_env (sys s) a" "dirs a = dirs (sys s)"
      "\<forall>r. r \<noteq> [''users.dat''] \<and> r \<noteq> [''audit.log''] \<longrightarrow> disk a r = disk (sys s) r"
    using account_register[OF assms(2,3) v1(1) assms(7)] by (elim exE conjE) (rule that; assumption)
  have fa: "file_free a f = file_free (sys s) f"
    by (rule register_keeps_free[OF a(4-6)])
  obtain t1 where t1: "login_screen s = login_screen t1" "inp t1 = typed (''2'' # n2 # p2 # g2 # ls)" "sys t1 = a"
    using register_round[OF assms(1) v1(2-4) a(1)] by blast
  have "users_open (sys t1)" "users_inv (sys t1)" "find_user (sys t1) n2 = None"
    using a(2,3) v2(6,7) assms(6,8) by (auto simp: t1(3) has_account_def)
  from account_register[OF this(1,2) v2(1) this(3)]
  obtain b where b: "register_user (sys t1) (Some n2) (Some p2) (Some g2) = Some (True, b)" "has_account b n2 p2 g2"
      "\<forall>m q h. has_account (sys t1) m q h \<longrightarrow> has_account b m q h" "same_env (sys t1) b" "dirs b = dirs (sys t1)"
      "\<forall>r. r \<noteq> [''users.dat''] \<and> r \<noteq> [''audit.log''] \<longrightarrow> disk b r = disk (sys t1) r"
    by (elim exE conjE) (rule that; assumption)
  have fb: "file_free b f = file_free a f"
    using register_keeps_free[OF b(4-6)] t1(3) by simp
  obtain t where "login_screen t1 = login_screen t" "inp t = typed ls" "sys t = b"
    using register_round[OF t1(2) v2(2-4) b(1)] by blast
  then show ?thesis
    using t1(1,3) a(2) fa fb b(2,3) by (intro exI[of _ t]) simp
qed

text \<open>One pass of the main loop: a login, a session that logs out, the banner.\<close>

lemma main_loop_session:
  assumes "login_screen s = Some (Some (Some u, t))"
    and "session_loop (cstr (u_username u)) (cstr (u_group u)) t = Some (Some v)"
  shows "main_loop s = main_loop (print_banner v)"
  using assms by (subst main_loop.simps) simp

lemma creating_session:
  assumes "inp s = typed (''1'' # n # p # ''1'' # f # pm # c # ''9'' # ls)"
    and "typable n p g" "has_account (sys s) n p g" "file_free (sys s) f" "plain_file f"
    and "line_ok MAX_FILENAME f" "is_valid_perm_string (Some pm)" "line_ok MAX_LINE c"
  shows "\<exists>v. main_loop s = main_loop (print_banner v) \<and> inp v = typed ls \<and>
    file_there (sys v) f \<lparr>e_owner = n, e_group = g, e_perms = pm, e_enc = 0\<rparr> c \<and>
    (\<forall>m q h. has_account (sys s) m q h \<longrightarrow> has_account (sys v) m q h)"
proof -
  note v = typable_simps[OF assms(2)]
  have pm: "line_ok 16 pm"
    using valid_perm_length[OF assms(7)] valid_perm_nonul[OF assms(7)] valid_perm_nth[OF assms(7)] perm_chars
    by (fastforce simp: line_ok_def list_all_length NL_def)
  obtain u t where t: "login_screen s = Some (Some (Some u, t))" "inp t = typed (''1'' # f # pm # c # ''9'' # ls)"
      "sys t = log_action (sys s) (Some n) (Some ''LOGIN'') (Some n) (Some ''SUCCESS'')"
      "cstr (u_username u) = n" "cstr (u_group u) = g"
    using login_round[OF assms(1) v(2,3) assms(3) v(1)] by blast
  obtain t1 where t1: "session_loop n g t = session_loop n g t1" "inp t1 = typed (''9'' # ls)"
      "sys t1 = snd (fs_create_file (sys t) n g f pm c)"
    using create_round[OF t(2) assms(6) pm assms(8)] by blast
  have "file_free (sys t) f"
    using register_keeps_free[of "sys s" "sys t" f] assms(4) by (simp add: t(3) log_action_env log_action_disk)
  then have free: "fs_inv (sys t)" "storage_open (sys t) f" "perm_table (sys t) f = None"
    by (simp_all add: file_free_def)
  note cr = create_keeps[OF free(1) assms(5) v(5) free(3) assms(7) free(2)]
  have "file_there (sys t1) f \<lparr>e_owner = n, e_group = g, e_perms = pm, e_enc = 0\<rparr> c"
    unfolding t1(3) by (rule cr(1))
  moreover have "has_account (sys t1) m q h" if "has_account (sys s) m q h" for m q h
    unfolding t1(3) by (rule cr(2)) (simp add: that t(3) log_keeps)
  moreover define v where "v = t1\<lparr>inp := typed ls, out := out t1 @ print_menu @ ''Logging out.'' @ [NL],
      sys := log_action (sys t1) (Some n) (Some ''LOGOUT'') (Some ''-'') (Some ''SUCCESS'')\<rparr>"
  moreover have "main_loop s = main_loop (print_banner v)"
    using main_loop_session[OF t(1)] logout_round[OF t1(2), of n g] t(4,5) t1(1) by (simp add: v_def)
  ultimately show ?thesis
    by (intro exI[of _ v]) (simp add: log_keeps)
qed

lemma reading_session:
  assumes "inp s = typed (''1'' # n # p # ''2'' # f # [] # ''9'' # ls)"
    and "typable n p g" "has_account (sys s) n p g" "file_there (sys s) f e c" "plain_file f"
    and "line_ok MAX_FILENAME f" "line_ok MAX_LINE c" "e_enc e = 0"
  shows "\<exists>v before. main_loop s = main_loop (print_banner v) \<and> inp v = typed ls \<and>
    out v = before @ print_menu @ ''Filename: '' @ ''Passphrase (leave blank if not encrypted): '' @
      (if allowed e n g PERM_READ then ''--- Content ---'' @ [NL] @ c @ [NL] @ ''---------------'' @ [NL]
       else ''Failed: file not found or permission denied.'' @ [NL]) @ print_menu @ ''Logging out.'' @ [NL] \<and>
    file_there (sys v) f e c \<and> (\<forall>m q h. has_account (sys v) m q h = has_account (sys s) m q h)"
proof -
  note v = typable_simps[OF assms(2)]
  obtain u t where t: "login_screen s = Some (Some (Some u, t))" "inp t = typed (''2'' # f # [] # ''9'' # ls)"
      "sys t = log_action (sys s) (Some n) (Some ''LOGIN'') (Some n) (Some ''SUCCESS'')"
      "cstr (u_username u) = n" "cstr (u_group u) = g"
    using login_round[OF assms(1) v(2,3) assms(3) v(1)] by blast
  obtain t1 where t1: "session_loop n g t = session_loop n g t1" "inp t1 = typed (''9'' # ls)"
      "sys t1 = snd (fs_read_file (sys t) n g f None 4096)"
      "out t1 = out t @ print_menu @ ''Filename: '' @ ''Passphrase (leave blank if not encrypted): '' @
        (case fst (fs_read_file (sys t) n g f None 4096) of
           None \<Rightarrow> ''Failed: file not found or permission denied.'' @ [NL]
         | Some buf \<Rightarrow> ''--- Content ---'' @ [NL] @ cstr buf @ [NL] @ ''---------------'' @ [NL])"
    using read_round[OF t(2) assms(6)] by blast
  have c: "nonul c" "length c < 4096" and th: "file_there (sys t) f e c"
    using assms(4,7) by (simp_all add: line_ok_def t(3) log_keeps)
  note r = read_there[OF th assms(5) v(5) assms(8) c]
  have "(case fst (fs_read_file (sys t) n g f None 4096) of
           None \<Rightarrow> ''Failed: file not found or permission denied.'' @ [NL]
         | Some buf \<Rightarrow> ''--- Content ---'' @ [NL] @ cstr buf @ [NL] @ ''---------------'' @ [NL]) =
      (if allowed e n g PERM_READ then ''--- Content ---'' @ [NL] @ c @ [NL] @ ''---------------'' @ [NL]
       else ''Failed: file not found or permission denied.'' @ [NL])"
    using r(1) by (auto split: option.splits if_splits)
  note o = t1(4)[unfolded this]
  define x where "x = t1\<lparr>inp := typed ls, out := out t1 @ print_menu @ ''Logging out.'' @ [NL],
      sys := log_action (sys t1) (Some n) (Some ''LOGOUT'') (Some ''-'') (Some ''SUCCESS'')\<rparr>"
  have "main_loop s = main_loop (print_banner x)"
    using main_loop_session[OF t(1)] logout_round[OF t1(2), of n g] t(4,5) t1(1) by (simp add: x_def)
  moreover have "file_there (sys x) f e c" "\<forall>m q h. has_account (sys x) m q h = has_account (sys s) m q h"
    using th by (simp_all add: x_def log_keeps t1(3) effect_keeps[OF r(2)]) (simp add: t(3) log_keeps)
  moreover have "inp x = typed ls" "out x = out t @ print_menu @ ''Filename: '' @ ''Passphrase (leave blank if not encrypted): '' @
      (if allowed e n g PERM_READ then ''--- Content ---'' @ [NL] @ c @ [NL] @ ''---------------'' @ [NL]
       else ''Failed: file not found or permission denied.'' @ [NL]) @ print_menu @ ''Logging out.'' @ [NL]"
    by (simp_all add: x_def o)
  ultimately show ?thesis
    by blast
qed

text \<open>A concrete session: Ann's file is readable by her group; Eve is not in it.\<close>

definition demo_session :: cli where
  "demo_session = \<lparr>inp = typed (two_users ''ann'' ''secret'' ''dev'' ''eve'' ''hunter2'' ''ops'' ''notes'' ''rw-r-----'' ''hello''),
     out = [], sys = fresh_world\<rparr>"

lemma demo_session_ok:
  "typable ''ann'' ''secret'' ''dev''" "typable ''eve'' ''hunter2'' ''ops''" "line_ok MAX_FILENAME ''notes''"
  "line_ok MAX_LINE ''hello''" "find_user fresh_world n = None"
  by (simp_all add: typable_def valid_registration_def line_ok_def NL_def NUL_def MAX_PASSWORD_def
      find_user_def fopen_r_def fresh_world_def)

lemma two_users_run:
  assumes "users_open (sys s)" "users_inv (sys s)" "fs_inv (sys s)" "storage_open (sys s) f"
    and "typable n1 p1 g1" "typable n2 p2 g2" "n1 \<noteq> n2"
    and "find_user (sys s) n1 = None" "find_user (sys s) n2 = None"
    and "plain_file f" "line_ok MAX_FILENAME f" "perm_table (sys s) f = None"
    and "is_valid_perm_string (Some pm)" "line_ok MAX_LINE c"
    and "inp s = typed (two_users n1 p1 g1 n2 p2 g2 f pm c)"
    and e: "e = \<lparr>e_owner = n1, e_group = g1, e_perms = pm, e_enc = 0\<rparr>"
  shows "\<exists>s1 before. fms_main s = Some (Some s1) \<and> inp s1 = [] \<and>
    out s1 = before @ print_menu @ ''Filename: '' @ ''Passphrase (leave blank if not encrypted): '' @
      (if allowed e n2 g2 PERM_READ then ''--- Content ---'' @ [NL] @ c @ [NL] @ ''---------------'' @ [NL]
       else ''Failed: file not found or permission denied.'' @ [NL]) @
      print_menu @ ''Logging out.'' @ [NL] @ banner_text @ menu_text @ ''Goodbye.'' @ [NL] \<and>
    file_there (sys s1) f e c \<and> has_account (sys s1) n1 p1 g1 \<and> has_account (sys s1) n2 p2 g2"
proof -
  define s0 where "s0 = print_banner (s\<lparr>sys := (sys s)\<lparr>rand_pos := 0\<rparr>\<rparr>)"
  have "effect (sys s) (sys s0) (disk (sys s))"
    by (auto simp: s0_def print_banner_text effect_def same_env_def)
  from effect_frame[OF this] have ff: "file_free (sys s0) f"
    using assms(3,4,12) by (simp add: file_free_def)
  have us: "users_open (sys s0)" "users_inv (sys s0)" "find_user (sys s0) n = find_user (sys s) n" for n
    using assms(1,2) by (simp_all add: s0_def print_banner_text users_open_def users_inv_def users_def content_def
        find_user_def fopen_r_def)
  have "inp s0 = typed (''2'' # n1 # p1 # g1 # ''2'' # n2 # p2 # g2 # ''1'' # n1 # p1 # ''1'' # f # pm # c # ''9'' #
      [''1'', n2, p2, ''2'', f, [], ''9'', ''3''])"
    using assms(15) by (simp add: s0_def print_banner_text two_users_def del: typed.simps)
  from two_registrations[OF this us(1,2) assms(5,6,7)] us(3) assms(8,9)
  obtain t where t: "login_screen s0 = login_screen t" "has_account (sys t) n1 p1 g1" "has_account (sys t) n2 p2 g2"
      "file_free (sys t) f"
      "inp t = typed (''1'' # n1 # p1 # ''1'' # f # pm # c # ''9'' # [''1'', n2, p2, ''2'', f, [], ''9'', ''3''])"
    using ff by auto
  obtain v where v: "main_loop t = main_loop (print_banner v)" "inp v = typed [''1'', n2, p2, ''2'', f, [], ''9'', ''3'']"
      "file_there (sys v) f e c" "has_account (sys v) n1 p1 g1" "has_account (sys v) n2 p2 g2"
    using creating_session[OF t(5) assms(5) t(2,4) assms(10,11,13,14)] t(2,3) e by blast
  have "inp (print_banner v) = typed (''1'' # n2 # p2 # ''2'' # f # [] # ''9'' # [''3''])"
    "has_account (sys (print_banner v)) n2 p2 g2" "file_there (sys (print_banner v)) f e c"
    using v by (simp_all add: print_banner_text del: typed.simps)
  from reading_session[OF this(1) assms(6) this(2,3) assms(10,11,14)] e
  obtain x before where x: "main_loop (print_banner v) = main_loop (print_banner x)" "inp x = typed [''3'']"
      "out x = before @ print_menu @ ''Filename: '' @ ''Passphrase (leave blank if not encrypted): '' @
      (if allowed e n2 g2 PERM_READ then ''--- Content ---'' @ [NL] @ c @ [NL] @ ''---------------'' @ [NL]
       else ''Failed: file not found or permission denied.'' @ [NL]) @ print_menu @ ''Logging out.'' @ [NL]"
      "file_there (sys x) f e c" "has_account (sys x) n1 p1 g1" "has_account (sys x) n2 p2 g2"
    using v(4,5) by (auto simp: print_banner_text)
  have "login_screen (print_banner x) = Some (Some (None, (say banner_text x)\<lparr>inp := [],
      out := out (say banner_text x) @ menu_text\<rparr>))"
    using exit_round[of "say banner_text x"] x(2) by (simp add: print_banner_text)
  moreover have "main_loop s0 = main_loop t"
    using t(1) by (simp add: main_loop.simps)
  moreover define s1 where "s1 = say (''Goodbye.'' @ [NL]) ((say banner_text x)\<lparr>inp := [],
      out := out (say banner_text x) @ menu_text\<rparr>)"
  ultimately have "fms_main s = Some (Some s1)"
    using v(1) x(1) by (simp add: fms_main_def s0_def[symmetric] main_loop.simps[of "print_banner x"])
  moreover have "inp s1 = []" "sys s1 = sys x" "out s1 = out x @ banner_text @ menu_text @ ''Goodbye.'' @ [NL]"
    by (simp_all add: s1_def say_def)
  ultimately show ?thesis
    using x(4-6) unfolding x(3) by (intro exI[of _ s1] exI[of _ before]) simp
qed



end
