(* ===== verification/Fms_Invariants.thy ===== *)
theory Fms_Invariants
  imports Fms_Session "HOL-Library.Sublist"
begin

text \<open>
  What a whole run of the file-management program keeps: the two databases stay sequences of whole,
  well-formed records without duplicate names, and the audit log only grows. The condition is that
  the input holds no \<open>/\<close>: then every path built from a typed name stays away from the databases.
\<close>

section \<open>Well-formed records\<close>

definition meta_ok :: "FileMeta \<Rightarrow> bool" where
  "meta_ok m \<longleftrightarrow> length (cstr (m_filename m)) < MAX_FILENAME \<and> length (cstr (m_owner m)) < MAX_USERNAME \<and>
     length (cstr (m_group m)) < MAX_GROUP \<and> is_valid_perm_string (Some (cstr (m_permissions m))) \<and>
     (m_is_encrypted m = 0 \<or> m_is_encrypted m = 1)"

definition user_ok :: "User \<Rightarrow> bool" where
  "user_ok u \<longleftrightarrow> uname u \<noteq> [] \<and> length (uname u) < MAX_USERNAME \<and> length (cstr (u_group u)) < MAX_GROUP"

definition records_ok :: "world \<Rightarrow> bool" where
  "records_ok w \<longleftrightarrow> list_all meta_ok (metas w) \<and> list_all user_ok (users w)"

definition dbs_inv :: "world \<Rightarrow> bool" where
  "dbs_inv w \<longleftrightarrow> meta_inv w \<and> account_inv w"

abbreviation audit :: "world \<Rightarrow> string" where
  "audit w \<equiv> content w [''audit.log'']"

definition preserved :: "world \<Rightarrow> world \<Rightarrow> bool" where
  "preserved w w' \<longleftrightarrow> same_env w w' \<and> dirs w' \<subseteq> insert [''storage''] (dirs w) \<and>
     prefix (audit w) (audit w') \<and>
     (dbs_inv w \<longrightarrow> dbs_inv w' \<and> (records_ok w \<longrightarrow> records_ok w'))"

lemma preserved_refl [simp]: "preserved w w"
  by (auto simp: preserved_def)

lemma preserved_trans: "preserved a b \<Longrightarrow> preserved b c \<Longrightarrow> preserved a c"
  by (auto simp: preserved_def intro: same_env_trans)

text \<open>A change that stays away from the three files.\<close>

definition db_paths :: "path set" where
  "db_paths = {[''files_meta.dat''], [''users.dat''], [''audit.log'']}"

lemma preserved_elsewhere:
  assumes "same_env w w'" "dirs w \<subseteq> dirs w'" "dirs w' \<subseteq> insert [''storage''] (dirs w)"
    and "\<And>r. r \<noteq> [''audit.log''] \<Longrightarrow> r \<in> db_paths \<Longrightarrow> disk w' r = disk w r" "prefix (audit w) (audit w')"
  shows "preserved w w'"
proof -
  have d: "disk w' [''files_meta.dat''] = disk w [''files_meta.dat'']" "disk w' [''users.dat''] = disk w [''users.dat'']"
    using assms(4) by (simp_all add: db_paths_def)
  have e: "can_read w' = can_read w" "can_write w' = can_write w"
    using assms(1) by (simp_all add: same_env_def)
  have "[''files_meta.dat''] \<in> dirs w' \<longleftrightarrow> [''files_meta.dat''] \<in> dirs w"
    using assms(2,3) by auto
  note m = meta_inv_cong[OF d(1) e this] and u = users_cong[OF d(2)]
  show ?thesis
    using assms m u e d by (simp add: preserved_def dbs_inv_def account_inv_def users_inv_def records_ok_def content_def)
qed

lemma preserved_log: "preserved w a \<Longrightarrow> preserved w (log_action a u x t r)"
  by (rule preserved_trans, assumption, rule preserved_elsewhere)
    (auto simp: log_action_env log_action_disk log_action_appends)

lemma preserved_fs_log: "preserved w a \<Longrightarrow> preserved w (fs_log a u x t r)"
  unfolding fs_log_def by (rule preserved_log)

lemma preserved_mkdir: "preserved w a \<Longrightarrow> preserved w (mkdir a STORAGE_DIR)"
  by (rule preserved_trans, assumption, rule preserved_elsewhere) (use dirs_mkdir in auto)

lemma preserved_write: "preserved w a \<Longrightarrow> resolve p \<notin> db_paths \<Longrightarrow> preserved w (fwrite a p bs)"
  by (rule preserved_trans, assumption, rule preserved_elsewhere)
    (auto simp: fwrite_def same_env_def content_def db_paths_def)

lemma preserved_fopen_w: "fopen_w a p = Some b \<Longrightarrow> preserved w a \<Longrightarrow> resolve p \<notin> db_paths \<Longrightarrow> preserved w b"
  by (rule preserved_trans[of w a], assumption, rule preserved_elsewhere)
    (auto simp: fopen_w_def same_env_def content_def db_paths_def split: if_splits)

lemma preserved_fopen_a: "fopen_a a p = Some b \<Longrightarrow> preserved w a \<Longrightarrow> resolve p \<notin> db_paths \<Longrightarrow> preserved w b"
  by (rule preserved_trans[of w a], assumption, rule preserved_elsewhere)
    (auto simp: fopen_a_def same_env_def content_def db_paths_def split: if_splits)

lemma preserved_remove: "preserved w a \<Longrightarrow> resolve p \<notin> db_paths \<Longrightarrow> preserved w (remove_file a p)"
  by (rule preserved_trans, assumption, rule preserved_elsewhere)
    (auto simp: remove_file_def same_env_def content_def db_paths_def)

section \<open>The metadata operations\<close>

lemma new_meta_ok:
  assumes "is_valid_perm_string (Some p)" "fits MAX_FILENAME f" "nonul own" "nonul grp"
  shows "meta_ok (new_meta f own grp p)" "key (new_meta f own grp p) = f"
  using assms valid_perm_nonul[OF assms(1)]
  by (simp_all add: meta_ok_def key_def new_meta_def fits_def cstr_strncpy_zeros min_less_iff_disj)

lemma rewrite_record_ok:
  assumes "meta_ok m" "wf_meta m" "\<And>q. p = Some q \<Longrightarrow> is_valid_perm_string (Some q)" "e \<in> {-1, 0, 1}"
    and "rewrite_record f d p e m = Some m1"
  shows "meta_ok m1"
proof -
  have "cstr ((strncpy (m_permissions m) q PERM_STRING_LEN)[PERM_STRING_LEN := NUL]) = q" if "p = Some q" for q
    using assms(2) assms(3)[OF that] valid_perm_nonul[of q] by (simp add: wf_meta_def)
  then show ?thesis
    using assms by (auto simp: rewrite_record_def meta_ok_def Let_def split: if_splits option.splits)
qed

lemma rewritten_ok:
  assumes "\<And>q. p = Some q \<Longrightarrow> is_valid_perm_string (Some q)" "e \<in> {-1, 0, 1}"
    and "list_all meta_ok ms" "list_all wf_meta ms"
  shows "list_all meta_ok (rewritten f d p e ms)"
  using assms(3,4) rewrite_record_ok[OF _ _ assms(1,2)]
  by (induction ms) (auto split: option.split)

lemma preserved_rewrite:
  assumes "preserved w a" "fits MAX_FILENAME f"
    and "\<And>q. p = Some q \<Longrightarrow> is_valid_perm_string (Some q)" "e \<in> {-1, 0, 1}"
  shows "preserved w (snd (snd (rewrite_meta_matching a f d p e)))"
proof (rule preserved_trans[OF assms(1)], cases "disk a [''files_meta.dat''] = None \<or> \<not> db_open a")
  case True
  then show "preserved a (snd (snd (rewrite_meta_matching a f d p e)))"
    by (simp add: rewrite_meta_matching_absent)
next
  case False
  define ms where "ms = rewritten f d p e (take 1024 (metas a))"
  define b where "b = a\<lparr>disk := (disk a)([''files_meta.dat''] \<mapsto> concat (map meta_bytes ms))\<rparr>"
  have b: "snd (snd (rewrite_meta_matching a f d p e)) = b"
    using rewrite_meta_matching_eq[of a f d p e] False by (simp add: b_def ms_def)
  have wf: "list_all wf_meta (take 1024 (metas a))" "list_all wf_meta ms"
    unfolding ms_def by (intro wf_rewritten list_all_take list_all_metas)+
  have mb: "metas b = ms" "users b = users a"
    using metas_rewritten[OF wf(2), of a] users_cong[of b a] by (simp_all add: b_def)
  have "meta_inv b" if "meta_inv a"
  proof -
    have "distinct (map key ms)"
      using that keys_rewritten[OF wf(1) assms(2), of d p e] by (simp add: meta_inv_def ms_def take_map[symmetric])
    then show ?thesis
      using that mb meta_file.concat_len[OF wf(2)] by (auto simp: meta_inv_def b_def db_open_def whole_records_def)
  qed
  moreover have "list_all meta_ok ms" if "list_all meta_ok (metas a)"
    unfolding ms_def by (rule rewritten_ok[OF assms(3,4) list_all_take[OF that] wf(1)])
  moreover have "account_inv b = account_inv a" "same_env a b" "dirs b = dirs a" "audit b = audit a"
    by (simp_all add: account_inv_def users_inv_def mb) (simp_all add: b_def same_env_def content_def)
  ultimately show "preserved a (snd (snd (rewrite_meta_matching a f d p e)))"
    unfolding b by (auto simp: preserved_def dbs_inv_def records_ok_def mb)
qed


lemma preserved_create:
  assumes "preserved w a" "fits MAX_FILENAME f" "nonul own" "nonul grp"
  shows "preserved w (snd (create_file_meta a f own grp p))"
proof (rule preserved_trans[OF assms(1)], cases "is_valid_perm_string (Some p) \<and> find_file_meta a f = None \<and> fopen_a a FILES_DB \<noteq> None")
  case False
  then show "preserved a (snd (create_file_meta a f own grp p))"
    by (auto simp: create_file_meta_def split: option.split)
next
  case True
  define b where "b = snd (create_file_meta a f own grp p)"
  have fr: "meta_frame a b"
    using meta_step_frame[of a "Create f own grp p"] by (simp add: b_def)
  then have d: "disk b [''users.dat''] = disk a [''users.dat'']" "audit b = audit a" "same_env a b" "dirs b = dirs a"
    "can_read b = can_read a" "can_write b = can_write a"
    by (auto simp: meta_frame_def content_def same_env_def)
  have "meta_inv b \<and> metas b = metas a @ [new_meta f own grp p]" if inv: "meta_inv a"
  proof -
    have o: "db_open a" "whole_records a" "can_read a FILES_DB"
      using inv by (auto simp: meta_inv_def db_open_def)
    note cr = create_file_meta_eq[OF o(1,2), of p f own grp]
    have "f \<notin> key ` set (metas a)"
      using True find_file_meta_None[OF o(3) assms(2)] by (simp add: perm_table_def table_of_None)
    then show ?thesis
      using cr True inv d new_meta_ok(2)[OF _ assms(2-4)] by (auto simp: meta_inv_def db_open_def b_def)
  qed
  moreover have "account_inv b = account_inv a" "users b = users a"
    using users_cong[OF d(1)] d by (simp_all add: account_inv_def users_inv_def content_def)
  ultimately show "preserved a (snd (create_file_meta a f own grp p))"
    using new_meta_ok(1)[OF _ assms(2-4)] True d
    by (auto simp: preserved_def dbs_inv_def records_ok_def b_def[symmetric])
qed

lemma preserved_chmod: "preserved w a \<Longrightarrow> fits MAX_FILENAME f \<Longrightarrow> preserved w (snd (chmod_file a f p))"
  unfolding chmod_file_def by (auto intro: preserved_rewrite)

lemma preserved_set_encrypted:
  "preserved w a \<Longrightarrow> fits MAX_FILENAME f \<Longrightarrow> e \<in> {0, 1} \<Longrightarrow> preserved w (snd (set_encrypted_flag a f e))"
  unfolding set_encrypted_flag_def by (rule preserved_rewrite) auto

lemma preserved_delete_meta: "preserved w a \<Longrightarrow> fits MAX_FILENAME f \<Longrightarrow> preserved w (snd (delete_file_meta a f))"
  unfolding delete_file_meta_def by (rule preserved_rewrite) auto

section \<open>The file operations\<close>

definition safe_name :: "string \<Rightarrow> bool" where
  "safe_name f \<longleftrightarrow> fits MAX_FILENAME f \<and> list_all (\<lambda>c. c \<noteq> CHR ''/'') f"

text \<open>A name without \<open>/\<close> stays below \<open>storage\<close>, or names the directory itself or its parent.\<close>

lemma safe_path:
  assumes "safe_name f"
  shows "resolve (spath f) \<notin> db_paths"
proof -
  have "split_on (CHR ''/'') (''storage'' @ CHR ''/'' # f) = [''storage'', f]"
    using assms split_on_append[of "CHR ''/''" "''storage''" f] by (simp add: safe_name_def split_on_no_sep)
  then show ?thesis
    by (simp add: resolve_def spath_def STORAGE_DIR_def db_paths_def)
qed

lemma safe_storage_path: "safe_name f \<Longrightarrow> storage_path w f path_size = (spath f, mkdir w STORAGE_DIR)"
  by (simp add: safe_name_def storage_path_eq)

lemma safe_fits: "safe_name f \<Longrightarrow> fits MAX_FILENAME f"
  by (simp add: safe_name_def)

lemmas preserved_steps = preserved_refl preserved_fs_log preserved_log preserved_mkdir preserved_write
  preserved_remove preserved_create preserved_chmod preserved_set_encrypted
  preserved_delete_meta safe_path safe_fits

lemma create_preserved:
  assumes "safe_name f" "nonul u" "nonul g"
  shows "preserved w (snd (fs_create_file w u g f p c))"
  using assms by (auto simp: fs_create_file_def Let_def safe_storage_path split_beta intro!: preserved_steps
      dest!: preserved_fopen_w[where w = w] split: option.split)

lemma read_preserved:
  assumes "safe_name f"
  shows "preserved w (snd (fs_read_file w u g f q n))"
  using assms by (auto simp: fs_read_file_def Let_def safe_storage_path intro!: preserved_steps split: option.split)

lemma write_preserved:
  assumes "safe_name f"
  shows "preserved w (snd (fs_write_file w u g f q c app))"
  using assms by (cases app) (auto simp: fs_write_file_def Let_def safe_storage_path intro!: preserved_steps
    dest!: preserved_fopen_w[where w = w] preserved_fopen_a[where w = w] split: option.split)

lemma delete_preserved:
  assumes "safe_name f"
  shows "preserved w (snd (fs_delete_file w u g f))"
  using assms by (auto simp: fs_delete_file_def Let_def safe_storage_path split_beta intro!: preserved_steps split: option.split)

lemma transform_preserved:
  assumes "safe_name f" "st \<in> {0, 1}" "transform_file w u g f q ex st act = Some r"
  shows "preserved w (snd r)"
  using assms by (auto simp: transform_file_def Let_def safe_storage_path split_beta intro!: preserved_steps
    dest!: preserved_fopen_w[where w = w] split: option.splits if_splits)


section \<open>The account operations\<close>

lemma preserved_salt: "preserved w a \<Longrightarrow> preserved w (snd (generate_salt a))"
  by (rule preserved_trans, assumption, rule preserved_elsewhere) (auto simp: world_simps content_def)

lemma new_user_ok: "fits MAX_USERNAME n \<Longrightarrow> n \<noteq> [] \<Longrightarrow> nonul g \<Longrightarrow> user_ok (new_user n g slt h)"
  by (simp add: user_ok_def uname_new_user fits_def) (simp add: new_user_def cstr_strncpy_zeros min_less_iff_disj)

lemma preserved_add_user:
  assumes "preserved w a" "fopen_a a USERS_DB = Some b" "find_user a n = None"
    and n: "fits MAX_USERNAME n" "n \<noteq> []" and g: "nonul g" and len: "length slt = 16" "length h = 32"
  shows "preserved w (fwrite b USERS_DB (user_bytes (new_user n g slt h)))"
proof (rule preserved_trans[OF assms(1)])
  define u where "u = new_user n g slt h"
  define c where "c = fwrite b USERS_DB (user_bytes u)"
  have u: "wf_user u" "uname u = n" "user_ok u"
    using wf_new_user[OF len] uname_new_user[of n] n new_user_ok[OF n g] by (simp_all add: u_def fits_def)
  have d: "disk c = (disk a)([''users.dat''] \<mapsto> content a [''users.dat''] @ user_bytes u)" "same_env a c" "dirs c = dirs a"
    using assms(2) by (auto simp: fopen_a_def fwrite_def c_def same_env_def split: if_splits)
  then have e: "disk c [''files_meta.dat''] = disk a [''files_meta.dat'']" "can_read c = can_read a" "can_write c = can_write a"
    "[''files_meta.dat''] \<in> dirs c \<longleftrightarrow> [''files_meta.dat''] \<in> dirs a"
    by (simp_all add: same_env_def)
  have "account_inv c \<and> users c = users a @ [u]" if inv: "account_inv a"
  proof -
    have "n \<notin> uname ` set (users a)"
      using assms(3) n inv by (auto simp: account_inv_def fits_def find_user_uname find_None_all)
    then show ?thesis
      using users_append[of a u c] inv u d(1) e(2) by (simp add: account_inv_def users_inv_def)
  qed
  moreover have "audit c = audit a"
    using d by (simp add: content_def)
  ultimately show "preserved a (fwrite b USERS_DB (user_bytes (new_user n g slt h)))"
    using d meta_inv_cong[OF e] u(3)
    by (auto simp: preserved_def dbs_inv_def records_ok_def c_def[symmetric] u_def[symmetric])
qed

lemma register_preserved:
  assumes "register_user w (Some n) (Some p) (Some g) = Some r" "nonul n" "nonul g"
  shows "preserved w (snd r)"
proof (cases "bad_input (Some n) (Some p) (Some g) \<or> find_user w n \<noteq> None")
  case True
  then show ?thesis
    using assms(1) by (auto simp: register_user_def Let_def intro!: preserved_steps split: if_splits)
next
  case False
  then have n: "fits MAX_USERNAME n" "n \<noteq> []" and len: "length p \<le> 64"
    using assms(2) by (auto simp: bad_input_def fits_def MAX_PASSWORD_def)
  obtain slt a where a: "generate_salt w = (slt, a)"
    by fastforce
  have w: "length slt = 16" "preserved w a" "find_user a n = None"
    using generate_salt_world[of w] preserved_salt[OF preserved_refl, of w] False
      find_user_cong[of a w n] by (simp_all add: a SALT_LEN_def same_env_def)
  show ?thesis
  proof (cases "fopen_a a USERS_DB")
    case None
    then show ?thesis
      using assms(1) False len w by (auto simp: register_user_def Let_def a hash_password_eq intro!: preserved_log)
  next
    case (Some b)
    then show ?thesis
      using assms(1) False len w preserved_add_user[OF w(2) Some w(3) n assms(3) w(1)]
      by (auto simp: register_user_def Let_def a hash_password_eq salted_hash_def intro!: preserved_log)
  qed
qed

lemma login_preserved: "login_user w n p = Some r \<Longrightarrow> preserved w (snd r)"
  by (auto simp: login_user_def Let_def intro!: preserved_steps split: option.splits if_splits)

section \<open>Rounds\<close>

definition kept :: "cli \<Rightarrow> cli \<Rightarrow> bool" where
  "kept s s1 \<longleftrightarrow> preserved (sys s) (sys s1) \<and> set (inp s1) \<subseteq> set (inp s)"

lemma kept_refl [simp]: "kept s s"
  by (simp add: kept_def)

lemma kept_trans: "kept a b \<Longrightarrow> kept b c \<Longrightarrow> kept a c"
  by (auto simp: kept_def intro: preserved_trans)

lemma kept_inp: "kept s s1 \<Longrightarrow> c \<notin> set (inp s) \<Longrightarrow> c \<notin> set (inp s1)"
  by (auto simp: kept_def)

lemma kept_say [simp]: "kept s (say x a) \<longleftrightarrow> kept s a"
  by (simp add: kept_def)

lemma kept_sys: "kept s a \<Longrightarrow> preserved (sys a) w \<Longrightarrow> kept s (a\<lparr>sys := w\<rparr>)"
  by (auto simp: kept_def intro: preserved_trans)

lemma fgets_loop_set: "set (fst (fgets_loop n cs)) \<subseteq> set cs" "set (snd (fgets_loop n cs)) \<subseteq> set cs"
  by (induction n cs rule: fgets_loop.induct) (auto simp: split_beta)

lemma ask_set:
  assumes "ask q n s = (x, s1)"
  shows "set x \<subseteq> set (inp s)" "set (inp s1) \<subseteq> set (inp s)"
proof -
  have "set (strip_newline (cstr b)) \<subseteq> set b" for b
    by (auto simp: strip_newline_def cstr_def dest: in_set_butlastD set_takeWhileD)
  then show "set x \<subseteq> set (inp s)" "set (inp s1) \<subseteq> set (inp s)"
    using assms fgets_loop_set[where cs = "inp s" and n = "n - 1"]
    by (fastforce simp: ask_def read_line_def say_def fgets_def split: option.splits if_splits)+
qed

lemma kept_ask: "kept s a \<Longrightarrow> kept s (snd (ask q n a))"
  using ask_set(2)[of q n a] ask_sys[of q n a] by (cases "ask q n a") (auto simp: kept_def)

text \<open>A name typed at a prompt of a run whose input holds no \<open>/\<close>.\<close>

lemma asked_name:
  assumes "kept s a" "CHR ''/'' \<notin> set (inp s)"
  shows "safe_name (fst (ask q MAX_FILENAME a))"
  using assms ask_set(1)[of q MAX_FILENAME a] ask_fits[of q MAX_FILENAME a]
  by (cases "ask q MAX_FILENAME a") (auto simp: safe_name_def kept_def list_all_iff)

definition step_kept :: "cli \<Rightarrow> 'a step \<Rightarrow> bool" where
  "step_kept s st = (case st of Again s1 \<Rightarrow> kept s s1 | Done _ s1 \<Rightarrow> kept s s1 | Undefined \<Rightarrow> True)"

lemma step_kept_simps [simp]:
  "step_kept s (Again s1) = kept s s1" "step_kept s (Done x s1) = kept s s1" "step_kept s Undefined"
  by (simp_all add: step_kept_def)

lemma report_kept: "kept s a \<Longrightarrow> preserved (sys a) (snd r) \<Longrightarrow> step_kept s (report a r y n)"
  by (simp add: report_def kept_sys)

lemma transform_case_kept:
  "kept s a \<Longrightarrow> (\<And>x. r = Some x \<Longrightarrow> preserved (sys a) (snd x)) \<Longrightarrow> step_kept s (transform_case a r y n)"
  by (cases r) (simp_all add: transform_case_def report_kept)


text \<open>Rules that follow the shape of a round.\<close>

lemma step_kept_if: "step_kept s a \<Longrightarrow> step_kept s b \<Longrightarrow> step_kept s (if c then a else b)"
  by simp

lemma step_kept_option:
  "step_kept s a \<Longrightarrow> (\<And>x. step_kept s (b x)) \<Longrightarrow> step_kept s (case z of None \<Rightarrow> a | Some x \<Rightarrow> b x)"
  by (cases z) simp_all

lemma step_kept_again: "kept s a \<Longrightarrow> step_kept s (Again a)" "kept s a \<Longrightarrow> step_kept s (Done x a)"
  "kept s a \<Longrightarrow> kept s (say t a)" "preserved w w' \<Longrightarrow> preserved w (snd (b, w'))"
  by simp_all

lemma step_kept_result:
  "(\<And>x. z = Some x \<Longrightarrow> step_kept s (b x)) \<Longrightarrow> step_kept s (case z of None \<Rightarrow> Undefined | Some x \<Rightarrow> b x)"
  by (cases z) simp_all

lemma encrypt_preserved: "safe_name f \<Longrightarrow> fs_encrypt_file w u g f q = Some r \<Longrightarrow> preserved w (snd r)"
  unfolding fs_encrypt_file_def by (rule transform_preserved[where st = 1]) simp_all

lemma decrypt_preserved: "safe_name f \<Longrightarrow> fs_decrypt_file w u g f q = Some r \<Longrightarrow> preserved w (snd r)"
  unfolding fs_decrypt_file_def by (rule transform_preserved[where st = 0]) simp_all

lemma asked_nonul: "0 < n \<Longrightarrow> nonul (fst (ask q n a))"
  using ask_fits[of q n a] by (cases "ask q n a") (simp add: fits_def)

lemmas round_rules = step_kept_simps(3) step_kept_if step_kept_result step_kept_option step_kept_again report_kept transform_case_kept
  kept_refl kept_ask kept_sys

lemma session_step_kept:
  assumes "CHR ''/'' \<notin> set (inp s)" "nonul user" "nonul grp"
  shows "step_kept s (session_step user grp s)"
proof -
  have f: "safe_name (fst (ask q MAX_FILENAME a))" if "kept s a" for q a
    using asked_name that assms(1) by simp
  show ?thesis
    unfolding session_step_def Let_def split_beta
    by (intro round_rules f create_preserved read_preserved write_preserved delete_preserved preserved_log
        preserved_chmod preserved_refl safe_fits assms;
      (erule encrypt_preserved[rotated] | erule decrypt_preserved[rotated]); intro round_rules f)
qed

lemma login_step_kept: "step_kept s (login_step s)"
  unfolding login_step_def Let_def split_beta
  by (intro round_rules; (erule login_preserved | erule register_preserved)) (simp_all add: asked_nonul)

section \<open>Runs\<close>

lemma login_screen_kept:
  assumes "login_screen s = Some (Some (r, s1))"
  shows "kept s s1"
proof -
  have "login_screen s = Some x \<Longrightarrow> case x of None \<Rightarrow> True | Some (r, s1) \<Rightarrow> kept s s1" for x
  proof (induction rule: login_screen_rounds)
    case (again s s1 r)
    then show ?case
      using login_step_kept[of s] by (auto intro: kept_trans split: option.splits)
  next
    case (finished s x s1)
    then show ?case
      using login_step_kept[of s] by simp
  qed simp
  from this[OF assms] show ?thesis
    by simp
qed

lemma session_loop_kept:
  assumes "session_loop user grp s = Some (Some s1)" "CHR ''/'' \<notin> set (inp s)" "nonul user" "nonul grp"
  shows "kept s s1"
proof -
  have "session_loop user grp s = Some x \<Longrightarrow> CHR ''/'' \<notin> set (inp s) \<Longrightarrow>
      case x of None \<Rightarrow> True | Some s1 \<Rightarrow> kept s s1" for x
  proof (induction rule: session_loop_rounds)
    case (again s s1 r)
    then have "kept s s1"
      using session_step_kept[OF _ assms(3,4), of s] by simp
    with again kept_inp[OF this] show ?case
      by (auto intro: kept_trans split: option.splits)
  next
    case (finished s s1)
    then show ?case
      using session_step_kept[OF _ assms(3,4), of s] by simp
  qed simp
  from this[OF assms(1,2)] show ?thesis
    by simp
qed

lemma main_loop_kept:
  assumes "main_loop s = Some (Some s1)" "CHR ''/'' \<notin> set (inp s)"
  shows "kept s s1"
proof -
  have "main_loop s = Some x \<Longrightarrow> CHR ''/'' \<notin> set (inp s) \<longrightarrow> (case x of None \<Rightarrow> True | Some s1 \<Rightarrow> kept s s1)" for x
  proof (erule main_loop.raw_induct[rotated], intro impI)
    fix loop s x
    assume ih: "\<And>s x. loop s = Some x \<Longrightarrow> CHR ''/'' \<notin> set (inp s) \<longrightarrow> (case x of None \<Rightarrow> True | Some s1 \<Rightarrow> kept s s1)"
      and run: "Option.bind (login_screen s) (\<lambda>r. case r of None \<Rightarrow> Some None | Some (None, s1) \<Rightarrow> Some (Some s1)
          | Some (Some u, s1) \<Rightarrow> Option.bind (session_loop (cstr (u_username u)) (cstr (u_group u)) s1) (\<lambda>r.
              case r of None \<Rightarrow> Some None | Some s2 \<Rightarrow> loop (print_banner s2))) = Some x"
      and inp: "CHR ''/'' \<notin> set (inp s)"
    show "case x of None \<Rightarrow> True | Some s1 \<Rightarrow> kept s s1"
    proof (cases x)
      case (Some t)
      then obtain r s1 where l: "login_screen s = Some (Some (r, s1))"
        using run by (auto split: option.splits bind_splits)
      note k = login_screen_kept[OF l]
      show ?thesis
      proof (cases r)
        case None
        then show ?thesis
          using run l k by auto
      next
        case (Some u)
        then obtain s2 where s: "session_loop (cstr (u_username u)) (cstr (u_group u)) s1 = Some (Some s2)"
            "loop (print_banner s2) = Some x"
          using run l \<open>x = Some t\<close> by (auto split: option.splits bind_splits)
        have "kept s s2"
          using session_loop_kept[OF s(1) kept_inp[OF k inp]] k by (auto intro: kept_trans)
        then have b: "kept s (print_banner s2)"
          by (simp add: print_banner_def)
        then show ?thesis
          using ih[OF s(2)] kept_inp[OF b inp] by (auto intro: kept_trans split: option.splits)
      qed
    qed simp
  qed
  from this[OF assms(1)] show ?thesis
    using assms(2) by simp
qed


lemma fms_main_preserved:
  assumes "fms_main s = Some (Some s1)" "CHR ''/'' \<notin> set (inp s)"
  shows "preserved ((sys s)\<lparr>rand_pos := 0\<rparr>) (sys s1)"
proof -
  obtain s2 where s2: "main_loop (print_banner (s\<lparr>sys := (sys s)\<lparr>rand_pos := 0\<rparr>\<rparr>)) = Some (Some s2)"
      "s1 = say (''Goodbye.'' @ [NL]) s2"
    using assms(1) by (auto simp: fms_main_def)
  from main_loop_kept[OF s2(1)] show ?thesis
    using assms(2) s2(2) by (simp add: print_banner_def kept_def)
qed

lemma rand_pos_irrelevant [simp]:
  "dbs_inv (w\<lparr>rand_pos := n\<rparr>) = dbs_inv w" "records_ok (w\<lparr>rand_pos := n\<rparr>) = records_ok w"
  "audit (w\<lparr>rand_pos := n\<rparr>) = audit w"
  by (simp_all add: dbs_inv_def records_ok_def meta_inv_def account_inv_def users_inv_def db_open_def
      whole_records_def metas_def users_def content_def)

text \<open>
  C10: A run of the whole program keeps its two databases consistent. If the input holds no \<open>/\<close> and
  the program ends, then, whatever was typed, the account file and the metadata file are again
  sequences of whole records in which no name stands twice, and the audit log still begins with
  everything it held before: no menu choice, failed or successful, damages or truncates it.
\<close>

theorem run_keeps_databases:
  assumes "fms_main s = Some (Some s1)" "CHR ''/'' \<notin> set (inp s)" "meta_inv (sys s)"
    and "users_inv (sys s)" "can_read (sys s) USERS_DB"
  shows "meta_inv (sys s1) \<and> users_inv (sys s1) \<and>
    prefix (content (sys s) [''audit.log'']) (content (sys s1) [''audit.log''])"
proof -
  have "dbs_inv (sys s)"
    using assms(3-5) by (simp add: dbs_inv_def account_inv_def)
  then have "dbs_inv (sys s1) \<and> prefix (audit (sys s)) (audit (sys s1))"
    using fms_main_preserved[OF assms(1,2)] by (simp add: preserved_def)
  then show ?thesis
    by (simp add: dbs_inv_def account_inv_def)
qed

text \<open>
  C7: Types of the stored records are kept. Let a run start on two databases that are whole and
  without duplicate names, the account file readable, and let every record there be well formed: each
  name terminated within its array, so that no string function runs past it; user names not empty; the
  permission string one of the nine-character strings the parser accepts; the encryption flag, an
  \<open>int\<close> on disk, 0 or 1. If the input holds no \<open>/\<close> and the program ends, every record of the two
  databases is well formed again.
\<close>

theorem run_keeps_records_typed:
  assumes "fms_main s = Some (Some s1)" "CHR ''/'' \<notin> set (inp s)" "meta_inv (sys s)"
    and "users_inv (sys s)" "can_read (sys s) USERS_DB"
    and "list_all meta_ok (metas (sys s))" "list_all user_ok (users (sys s))"
  shows "list_all meta_ok (metas (sys s1)) \<and> list_all user_ok (users (sys s1))"
proof -
  have "dbs_inv (sys s)" "records_ok (sys s)"
    using assms(3-7) by (simp_all add: dbs_inv_def account_inv_def records_ok_def)
  then have "records_ok (sys s1)"
    using fms_main_preserved[OF assms(1,2)] by (simp add: preserved_def)
  then show ?thesis
    by (simp add: records_ok_def)
qed

section \<open>Witnesses\<close>

lemma demo_session_runs: "\<exists>s1. fms_main demo_session = Some (Some s1)"
proof -
  have "\<exists>s1 before. fms_main demo_session = Some (Some s1) \<and> inp s1 = [] \<and>
    out s1 = before @ print_menu @ ''Filename: '' @ ''Passphrase (leave blank if not encrypted): '' @
      (if allowed demo_entry ''eve'' ''ops'' PERM_READ then ''--- Content ---'' @ [NL] @ ''hello'' @ [NL] @ ''---------------'' @ [NL]
       else ''Failed: file not found or permission denied.'' @ [NL]) @
      print_menu @ ''Logging out.'' @ [NL] @ banner_text @ menu_text @ ''Goodbye.'' @ [NL] \<and>
    file_there (sys s1) ''notes'' demo_entry ''hello'' \<and> has_account (sys s1) ''ann'' ''secret'' ''dev'' \<and>
    has_account (sys s1) ''eve'' ''hunter2'' ''ops''"
    by (rule two_users_run)
      (simp_all add: demo_session_ok demo_session_def demo_entry_def del: typed.simps size_defs)
  then show ?thesis
    by blast
qed

lemma demo_session_start:
  "CHR ''/'' \<notin> set (inp demo_session)" "meta_inv (sys demo_session)" "users_inv (sys demo_session)"
  "can_read (sys demo_session) USERS_DB" "metas (sys demo_session) = []" "users (sys demo_session) = []"
  using meta_inv_fresh(1)
  by (simp_all add: demo_session_def two_users_def NL_def users_def fread_users_def)

theorem run_keeps_databases_witness:
  "\<exists>s1. fms_main demo_session = Some (Some s1) \<and> meta_inv (sys s1) \<and> users_inv (sys s1)"
  using demo_session_runs run_keeps_databases[OF _ demo_session_start(1-4)] by blast

theorem run_keeps_records_typed_witness:
  "\<exists>s1. fms_main demo_session = Some (Some s1) \<and> list_all meta_ok (metas (sys s1)) \<and> list_all user_ok (users (sys s1))"
proof -
  obtain s1 where s1: "fms_main demo_session = Some (Some s1)"
    using demo_session_runs by blast
  from run_keeps_records_typed[OF this demo_session_start(1-4)] show ?thesis
    using s1 demo_session_start(5,6) by auto
qed

end
