(* ===== verification/Fms_Audit.thy ===== *)
theory Fms_Audit
  imports Fms_Invariants
begin

text \<open>
  Accountability: what a session of the file-management program adds to \<open>audit.log\<close>. Every operation
  of the menu, whatever its outcome, appends one line that names the user of the session and the
  file, and nothing else is written to the log.
\<close>

section \<open>Trails\<close>

text \<open>Action, target and result of an audit line.\<close>

type_synonym audit_entry = "string \<times> string \<times> string"

definition audit_line :: "world \<Rightarrow> string \<Rightarrow> audit_entry \<Rightarrow> string" where
  "audit_line w user e =
     (case e of (action, target, result) \<Rightarrow>
        log_line (clock w) (Some user) (Some action) (Some target) (Some result))"

text \<open>From \<open>w\<close> to \<open>w'\<close> the entries \<open>es\<close> of the user were logged, if the log can be opened.\<close>

definition trail :: "string \<Rightarrow> world \<Rightarrow> world \<Rightarrow> audit_entry list \<Rightarrow> bool" where
  "trail user w w' es \<longleftrightarrow> same_env w w' \<and> dirs w \<subseteq> dirs w' \<and> dirs w' \<subseteq> insert [''storage''] (dirs w) \<and>
     audit w' = audit w @ (if log_open w then concat (map (audit_line w user) es) else [])"

lemma trail_refl: "trail u w w []"
  by (auto simp: trail_def)

lemma trail_env:
  assumes "trail u w w' es"
  shows "log_open w' = log_open w" "audit_line w' = audit_line w"
  using assms by (auto simp: trail_def log_open_def same_env_def audit_line_def fun_eq_iff)

lemma trail_trans: "trail u a b es \<Longrightarrow> trail u b c fs \<Longrightarrow> trail u a c (es @ fs)"
  using trail_env[of u a b es] by (auto simp: trail_def intro: same_env_trans)

lemma trail_quiet:
  assumes "trail u w a es" "same_env a b" "dirs a \<subseteq> dirs b" "dirs b \<subseteq> insert [''storage''] (dirs a)" "audit b = audit a"
  shows "trail u w b es"
proof -
  have "trail u a b []"
    using assms(2-5) by (simp add: trail_def)
  from trail_trans[OF assms(1) this] show ?thesis
    by simp
qed

lemma trail_log: "trail u w a es \<Longrightarrow> trail u w (log_action a (Some u) (Some x) (Some f) (Some r)) (es @ [(x, f, r)])"
  by (erule trail_trans) (auto simp: trail_def log_action_env log_action_appends audit_line_def)

lemma trail_mkdir: "trail u w a es \<Longrightarrow> trail u w (mkdir a STORAGE_DIR) es"
  by (erule trail_quiet) (use dirs_mkdir in auto)

lemma trail_write: "trail u w a es \<Longrightarrow> resolve p \<notin> db_paths \<Longrightarrow> trail u w (fwrite a p bs) es"
  by (erule trail_quiet) (auto simp: fwrite_def same_env_def content_def db_paths_def)

lemma trail_fopen_w: "fopen_w a p = Some b \<Longrightarrow> trail u w a es \<Longrightarrow> resolve p \<notin> db_paths \<Longrightarrow> trail u w b es"
  by (erule trail_quiet) (auto simp: fopen_w_def same_env_def content_def db_paths_def split: if_splits)

lemma trail_fopen_a: "fopen_a a p = Some b \<Longrightarrow> trail u w a es \<Longrightarrow> resolve p \<notin> db_paths \<Longrightarrow> trail u w b es"
  by (erule trail_quiet) (auto simp: fopen_a_def same_env_def content_def db_paths_def split: if_splits)

lemma trail_remove: "trail u w a es \<Longrightarrow> resolve p \<notin> db_paths \<Longrightarrow> trail u w (remove_file a p) es"
  by (erule trail_quiet) (auto simp: remove_file_def same_env_def content_def db_paths_def)

lemma trail_meta: "trail u w a es \<Longrightarrow> trail u w (snd (meta_step c a)) es"
  using meta_step_frame[of a c] by (elim trail_quiet) (auto simp: meta_frame_def content_def)

lemma trail_metas:
  assumes "trail u w a es"
  shows "trail u w (snd (create_file_meta a f own grp p)) es" "trail u w (snd (chmod_file a f p)) es"
    "trail u w (snd (set_encrypted_flag a f e)) es" "trail u w (snd (delete_file_meta a f)) es"
  using trail_meta[OF assms, of "Create f own grp p"] trail_meta[OF assms, of "Chmod f p"]
    trail_meta[OF assms, of "Set_Encrypted f e"] trail_meta[OF assms, of "Delete f"] by simp_all

section \<open>One line per operation\<close>

definition one_line :: "string \<Rightarrow> bool" where
  "one_line s \<longleftrightarrow> NL \<notin> set s"

text \<open>The menu choices that are operations on files, and the action each is logged as.\<close>

definition file_choices :: "string list" where
  "file_choices = [''1'', ''2'', ''3'', ''4'', ''5'', ''6'', ''7'', ''8'']"

definition action_of :: "string \<Rightarrow> bool \<Rightarrow> string" where
  "action_of choice ok =
     (if choice = ''1'' then ''CREATE'' else if choice = ''2'' then ''READ'' else if choice = ''3'' then ''WRITE''
      else if choice = ''4'' then (if ok then ''APPEND'' else ''WRITE'') else if choice = ''5'' then ''DELETE''
      else if choice = ''6'' then ''CHMOD'' else if choice = ''7'' then ''ENCRYPT'' else ''DECRYPT'')"

text \<open>The permission a choice needs; creating a file and changing its permissions need none.\<close>

definition perm_of :: "string \<Rightarrow> PermType option" where
  "perm_of choice =
     (if choice = ''2'' then Some PERM_READ
      else if choice \<in> {''3'', ''4'', ''5'', ''7'', ''8''} then Some PERM_WRITE else None)"

definition refusal :: "string \<Rightarrow> string \<Rightarrow> world \<Rightarrow> string \<Rightarrow> PermType \<Rightarrow> string option" where
  "refusal user grp w f perm =
     (case find_file_meta w f of
        None \<Rightarrow> Some ''FAILED_NOT_FOUND''
      | Some m \<Rightarrow> if check_permission user grp m perm then None else Some ''FAILED_PERMISSION_DENIED'')"

text \<open>
  The entry that an operation, chosen in world \<open>w\<close> on the file \<open>f\<close>, must leave: the action of the choice,
  the file, and a result that is a success exactly if the operation succeeded and a refusal exactly if
  the file or the permission was missing.
\<close>

definition entry_for :: "string \<Rightarrow> string \<Rightarrow> world \<Rightarrow> string \<Rightarrow> string \<Rightarrow> bool \<Rightarrow> audit_entry \<Rightarrow> bool" where
  "entry_for user grp w choice f ok e \<longleftrightarrow> (\<exists>r. e = (action_of choice ok, f, r) \<and> one_line r \<and>
     (r = ''SUCCESS'' \<longleftrightarrow> ok) \<and>
     (case perm_of choice of
        None \<Rightarrow> r \<noteq> ''FAILED_NOT_FOUND'' \<and> r \<noteq> ''FAILED_PERMISSION_DENIED''
      | Some perm \<Rightarrow> (\<forall>z \<in> {''FAILED_NOT_FOUND'', ''FAILED_PERMISSION_DENIED''}.
          r = z \<longleftrightarrow> refusal user grp w f perm = Some z)))"

text \<open>An operation with the outcome \<open>R\<close> logged exactly its entry.\<close>

definition op_trail :: "string \<Rightarrow> string \<Rightarrow> world \<Rightarrow> string \<Rightarrow> string \<Rightarrow> bool \<times> world \<Rightarrow> bool" where
  "op_trail user grp w choice f R \<longleftrightarrow>
     (\<exists>e. entry_for user grp w choice f (fst R) e \<and> trail user w (snd R) [e])"

lemma op_trailI: "trail u w a [] \<Longrightarrow> entry_for u g w c f ok (x, f, r) \<Longrightarrow> op_trail u g w c f (ok, fs_log a u x f r)"
  unfolding op_trail_def fs_log_def using trail_log[of u w a "[]" x f r] by auto

lemmas trail_steps = trail_refl op_trailI trail_mkdir trail_write trail_remove trail_metas safe_path

lemmas entry_defs = entry_for_def action_of_def perm_of_def refusal_def one_line_def NL_def

lemma create_trail: "safe_name f \<Longrightarrow> op_trail u g w ''1'' f (fs_create_file w u g f p c)"
  by (auto simp: fs_create_file_def Let_def safe_storage_path split_beta entry_defs intro!: trail_steps
      dest!: trail_fopen_w[where w = w and u = u and es = "[]"] split: option.split)

lemma read_trail:
  "safe_name f \<Longrightarrow> op_trail u g w ''2'' f (map_prod (\<lambda>b. b \<noteq> None) id (fs_read_file w u g f q n))"
  by (auto simp: fs_read_file_def Let_def safe_storage_path entry_defs intro!: trail_steps split: option.split)

lemma write_trail: "safe_name f \<Longrightarrow> op_trail u g w (if app then ''4'' else ''3'') f (fs_write_file w u g f q c app)"
  by (cases app) (auto simp: fs_write_file_def Let_def safe_storage_path entry_defs intro!: trail_steps
      dest!: trail_fopen_w[where w = w and u = u and es = "[]"] trail_fopen_a[where w = w and u = u and es = "[]"]
      split: option.split)

lemma delete_trail: "safe_name f \<Longrightarrow> op_trail u g w ''5'' f (fs_delete_file w u g f)"
  by (auto simp: fs_delete_file_def Let_def safe_storage_path split_beta entry_defs intro!: trail_steps
      split: option.split)

lemma chmod_trail:
  "op_trail u g w ''6'' f (fst (chmod_file w f p), log_action (snd (chmod_file w f p)) (Some u) (Some ''CHMOD'') (Some f)
     (Some (if fst (chmod_file w f p) then ''SUCCESS'' else ''FAILED'')))"
  by (unfold fs_log_def[symmetric], intro op_trailI trail_metas trail_refl) (simp add: entry_defs)

lemma encrypt_trail: "safe_name f \<Longrightarrow> fs_encrypt_file w u g f q = Some x \<Longrightarrow> op_trail u g w ''7'' f x"
  by (auto simp: fs_encrypt_file_def transform_file_def Let_def safe_storage_path split_beta entry_defs intro!: trail_steps
    dest!: trail_fopen_w[where w = w and u = u and es = "[]"] split: option.splits if_splits)

lemma decrypt_trail: "safe_name f \<Longrightarrow> fs_decrypt_file w u g f q = Some x \<Longrightarrow> op_trail u g w ''8'' f x"
  by (auto simp: fs_decrypt_file_def transform_file_def Let_def safe_storage_path split_beta entry_defs intro!: trail_steps
    dest!: trail_fopen_w[where w = w and u = u and es = "[]"] split: option.splits if_splits)

section \<open>Rounds\<close>

lemma fgets_loop_newline: "NL \<notin> set (butlast (fst (fgets_loop n cs)))"
  by (induction n cs rule: fgets_loop.induct) (auto simp: split_beta)

lemma strip_one_line:
  assumes "NL \<notin> set (butlast s)"
  shows "one_line (strip_newline (cstr s))"
proof (cases s rule: rev_cases)
  case (snoc t c)
  then have t: "NL \<notin> set t"
    using assms by simp
  have "cstr (t @ [c]) = cstr t \<or> cstr (t @ [c]) = t @ [c]"
    by (induction t) auto
  moreover have "NL \<notin> set (cstr t)"
    using t by (auto simp: cstr_def dest: set_takeWhileD)
  ultimately show ?thesis
    using t snoc by (auto simp: strip_newline_def one_line_def dest: in_set_butlastD)
qed (simp add: strip_newline_def one_line_def)

lemma ask_one_line: "one_line (fst (ask q n s))"
proof (cases "fgets n (inp s)")
  case None
  then show ?thesis
    by (simp add: ask_def read_line_def say_def one_line_def)
next
  case (Some x)
  then have "NL \<notin> set (butlast (fst x))"
    using fgets_loop_newline[of "n - 1" "inp s"] by (auto simp: fgets_def split: if_splits)
  then show ?thesis
    using Some strip_one_line by (cases x) (simp add: ask_def read_line_def say_def)
qed

text \<open>What a round reads: the choice, then the name of the file.\<close>

definition menu_choice :: "cli \<Rightarrow> string" where
  "menu_choice s = fst (ask print_menu 8 s)"

definition typed_name :: "cli \<Rightarrow> string" where
  "typed_name s = fst (ask ''Filename: '' MAX_FILENAME (snd (ask print_menu 8 s)))"

text \<open>What it shows: the last line of the answer to an operation that succeeded.\<close>

definition done_line :: "string \<Rightarrow> string" where
  "done_line choice =
     (if choice = ''1'' then ''File created.'' else if choice = ''2'' then ''---------------''
      else if choice = ''3'' then ''File written.'' else if choice = ''4'' then ''File appended.''
      else if choice = ''5'' then ''File deleted.'' else if choice = ''6'' then ''Permissions updated.''
      else if choice = ''7'' then ''File encrypted.'' else ''File decrypted.'')"

definition success_shown :: "cli \<Rightarrow> cli \<Rightarrow> bool" where
  "success_shown s t \<longleftrightarrow> suffix (done_line (menu_choice s) @ [NL]) (out t)"

text \<open>The entry a round from \<open>s\<close> to \<open>t\<close> must leave, by what was typed in it and what it showed.\<close>

definition round_entry :: "string \<Rightarrow> string \<Rightarrow> cli \<Rightarrow> cli \<Rightarrow> audit_entry \<Rightarrow> bool" where
  "round_entry user grp s t e \<longleftrightarrow>
     entry_for user grp (sys s) (menu_choice s) (typed_name s) (success_shown s t) e"

definition step_trail :: "string \<Rightarrow> string \<Rightarrow> cli \<Rightarrow> unit step \<Rightarrow> bool" where
  "step_trail user grp s st \<longleftrightarrow>
     (case st of
        Again t \<Rightarrow>
          if menu_choice s \<in> set file_choices
          then \<exists>e. round_entry user grp s t e \<and> trail user (sys s) (sys t) [e]
          else trail user (sys s) (sys t) []
      | Done _ t \<Rightarrow> menu_choice s = ''9'' \<and> trail user (sys s) (sys t) [(''LOGOUT'', ''-'', ''SUCCESS'')]
      | Undefined \<Rightarrow> True)"

lemma step_trail_op:
  assumes "menu_choice s = c" "c \<in> set file_choices" "op_trail u g (sys s) c (typed_name s) R"
    "sys t = snd R" "success_shown s t = fst R"
  shows "step_trail u g s (Again t)"
  using assms by (simp add: step_trail_def op_trail_def round_entry_def)

lemma shown_iff: "success_shown s (say x a) \<longleftrightarrow> suffix (done_line (menu_choice s) @ [NL]) (out a @ x)"
  by (simp add: success_shown_def say_def)

text \<open>Whether one printed line ends in another is decided from the back.\<close>

lemmas line_ends = suffix_to_prefix done_line_def NL_def

lemma report_trail:
  assumes "menu_choice s = c" "c \<in> set file_choices" "op_trail u g (sys s) c (typed_name s) R"
    "yes = done_line c" "\<And>pre. \<not> suffix (done_line c @ [NL]) (pre @ no @ [NL])"
  shows "step_trail u g s (report a R yes no)"
  unfolding report_def
  by (rule step_trail_op[OF assms(1-3)])
    (use assms in \<open>auto simp: success_shown_def say_def suffix_def\<close>)

lemma transform_case_trail:
  assumes "\<And>x. r = Some x \<Longrightarrow> step_trail u g s (report a x yes no)"
  shows "step_trail u g s (transform_case a r yes no)"
  using assms by (cases r) (simp_all add: transform_case_def, simp add: step_trail_def)

lemma sys_asked: "sys (snd (ask q n a)) = sys a"
  using ask_sys[of q n a] by (cases "ask q n a") simp

lemma read_case_trail:
  assumes "menu_choice s = ''2''" "op_trail u g (sys s) ''2'' (typed_name s) (map_prod (\<lambda>b. b \<noteq> None) id r)"
  shows "step_trail u g s (case fst r of
      None \<Rightarrow> Again (say (''Failed: file not found or permission denied.'' @ [NL]) (a\<lparr>sys := snd r\<rparr>))
    | Some buf \<Rightarrow> Again (say (''--- Content ---'' @ [NL] @ cstr buf @ [NL] @ ''---------------'' @ [NL]) (a\<lparr>sys := snd r\<rparr>)))"
proof (cases "fst r")
  case None
  then show ?thesis
    by (simp, intro step_trail_op[OF assms(1) _ assms(2)])
      (simp_all add: file_choices_def, simp add: assms(1) shown_iff line_ends)
next
  case (Some buf)
  then show ?thesis
    by (simp, intro step_trail_op[OF assms(1) _ assms(2)])
      (simp_all add: file_choices_def, simp add: assms(1) shown_iff line_ends)
qed

lemma step_trail_if:
  assumes "menu_choice s = x \<Longrightarrow> step_trail u g s a" "menu_choice s \<noteq> x \<Longrightarrow> step_trail u g s b"
  shows "step_trail u g s (if menu_choice s = x then a else b)"
  using assms by simp

lemma step_trail_if2:
  assumes "menu_choice s = x \<or> menu_choice s = y \<Longrightarrow> step_trail u g s a"
    "\<not> (menu_choice s = x \<or> menu_choice s = y) \<Longrightarrow> step_trail u g s b"
  shows "step_trail u g s (if menu_choice s = x \<or> menu_choice s = y then a else b)"
  using assms by simp

lemma session_step_trail:
  assumes "CHR ''/'' \<notin> set (inp s)"
  shows "step_trail user grp s (session_step user grp s)"
proof -
  have f: "safe_name (typed_name s)"
    using asked_name[OF kept_ask[OF kept_refl] assms] by (simp add: typed_name_def)
  have out: "trail user (sys s) (log_action (sys s) (Some user) (Some ''LOGOUT'') (Some ''-'') (Some ''SUCCESS''))
      [(''LOGOUT'', ''-'', ''SUCCESS'')]"
    using trail_log[OF trail_refl] by fastforce
  have report: "step_trail user grp s (report a R yes no)"
    if "menu_choice s = c" "op_trail user grp (sys s) c (typed_name s) R" "c \<in> set file_choices"
      "yes = done_line c" "\<And>pre. \<not> suffix (done_line c @ [NL]) (pre @ no @ [NL])" for a R c yes no
    by (rule report_trail[OF that(1,3,2,4,5)])
  have writes: "step_trail user grp s (report a
      (fs_write_file (sys s) user grp (typed_name s) q c (menu_choice s = ''4''))
      (''File '' @ (if menu_choice s = ''4'' then ''appended'' else ''written'') @ ''.'')
      ''Failed: file not found or permission denied.'')"
    if "menu_choice s = ''3'' \<or> menu_choice s = ''4''" for a q c
    by (rule report[OF _ write_trail[OF f, of _ _ _ "menu_choice s = ''4''"]])
      (use that in \<open>auto simp: file_choices_def line_ends\<close>)
  show ?thesis
    unfolding session_step_def Let_def split_beta menu_choice_def[symmetric] typed_name_def[symmetric] sys_asked
    by (rule step_trail_if, erule report, rule create_trail[OF f], simp add: file_choices_def, simp add: done_line_def, simp add: line_ends,
      rule step_trail_if, erule read_case_trail, rule read_trail[OF f],
      rule step_trail_if2, erule writes,
      rule step_trail_if, erule report, rule delete_trail[OF f], simp add: file_choices_def, simp add: done_line_def, simp add: line_ends,
      rule step_trail_if, erule report, rule chmod_trail, simp add: file_choices_def, simp add: done_line_def, simp add: line_ends,
      rule step_trail_if, rule transform_case_trail, erule report, erule encrypt_trail[OF f], simp add: file_choices_def, simp add: done_line_def, simp add: line_ends,
      rule step_trail_if, rule transform_case_trail, erule report, erule decrypt_trail[OF f], simp add: file_choices_def, simp add: done_line_def, simp add: line_ends,
      rule step_trail_if)
      (simp_all add: step_trail_def sys_asked out trail_refl file_choices_def)
qed

section \<open>Whole sessions\<close>

text \<open>A session that ends, with the state before and after each of its rounds.\<close>

inductive session_run :: "string \<Rightarrow> string \<Rightarrow> cli \<Rightarrow> (cli \<times> cli) list \<Rightarrow> cli \<Rightarrow> bool" for user grp where
  last_round: "session_step user grp s = Done () s1 \<Longrightarrow> session_run user grp s [(s, s1)] s1"
| more: "session_step user grp s = Again t \<Longrightarrow> session_run user grp t rs s1 \<Longrightarrow>
    session_run user grp s ((s, t) # rs) s1"

definition op_rounds :: "(cli \<times> cli) list \<Rightarrow> (cli \<times> cli) list" where
  "op_rounds rs = filter (\<lambda>(s, t). menu_choice s \<in> set file_choices) rs"

lemma session_loop_run:
  assumes "session_loop user grp s = Some (Some s1)"
  shows "\<exists>rs. session_run user grp s rs s1"
proof -
  have "session_loop user grp s = Some r \<Longrightarrow> case r of None \<Rightarrow> True | Some s1 \<Rightarrow> \<exists>rs. session_run user grp s rs s1" for r
    by (induction rule: session_loop_rounds) (auto intro: session_run.intros split: option.splits)
  from this[OF assms] show ?thesis
    by simp
qed

lemma session_run_trail:
  assumes "session_run user grp s rs s1" "CHR ''/'' \<notin> set (inp s)" "nonul user" "nonul grp"
  shows "\<exists>es. trail user (sys s) (sys s1) (es @ [(''LOGOUT'', ''-'', ''SUCCESS'')]) \<and>
    list_all2 (\<lambda>(a, b). round_entry user grp a b) (op_rounds rs) es"
  using assms(1,2)
proof (induction rule: session_run.induct)
  case (last_round s s1)
  then show ?case
    using session_step_trail[OF last_round(2), of user grp]
    by (intro exI[of _ "[]"]) (simp add: step_trail_def op_rounds_def file_choices_def)
next
  case (more s t rs s1)
  have "kept s t"
    using session_step_kept[OF more.prems assms(3,4)] more.hyps(1) by simp
  then obtain es where es: "trail user (sys t) (sys s1) (es @ [(''LOGOUT'', ''-'', ''SUCCESS'')])"
      "list_all2 (\<lambda>(a, b). round_entry user grp a b) (op_rounds rs) es"
    using more.IH kept_inp more.prems by blast
  have st: "step_trail user grp s (Again t)"
    using session_step_trail[OF more.prems, of user grp] more.hyps(1) by simp
  show ?case
  proof (cases "menu_choice s \<in> set file_choices")
    case True
    then obtain e where e: "trail user (sys s) (sys t) [e]" "round_entry user grp s t e"
      using st by (auto simp: step_trail_def)
    show ?thesis
      using trail_trans[OF e(1) es(1)] es(2) e(2) True by (intro exI[of _ "e # es"]) (simp add: op_rounds_def)
  next
    case False
    then have e: "trail user (sys s) (sys t) []"
      using st by (simp add: step_trail_def)
    show ?thesis
      using trail_trans[OF e es(1)] es(2) False by (intro exI[of _ es]) (simp add: op_rounds_def)
  qed
qed

lemma round_entry_line:
  assumes "round_entry user grp s t e" "one_line user" "one_line (clock w)"
  shows "\<exists>l. audit_line w user e = l @ [NL] \<and> one_line l"
proof -
  obtain r where e: "e = (action_of (menu_choice s) (success_shown s t), typed_name s, r)" "one_line r"
    using assms(1) by (auto simp: round_entry_def entry_for_def)
  have "one_line (typed_name s)" "one_line (action_of c b)" for c b
    using ask_one_line by (simp_all add: typed_name_def action_of_def one_line_def NL_def)
  then show ?thesis
    using assms(2,3) e unfolding audit_line_def log_line_def Let_def by (auto simp: one_line_def NL_def)
qed

lemma list_all2_right: "list_all2 R xs ys \<Longrightarrow> (\<And>x y. R x y \<Longrightarrow> P y) \<Longrightarrow> list_all P ys"
  by (induction rule: list_all2_induct) auto



end
