(* ===== verification/Fms_Defined.thy ===== *)
theory Fms_Defined
  imports Fms_Invariants
begin

text \<open>
  Undefined behaviour of the file-management program: the second \<open>fopen\<close> of \<open>transform_file\<close>, which is
  not checked and fails for a file that can be read but not written, and the welcome line, which prints
  the arrays of a record of \<open>users.dat\<close> as strings. On a disk without such files and such records no
  run of the program, on any input without \<open>/\<close>, has undefined behaviour.
\<close>

section \<open>A disk on which what can be read can be written\<close>

definition no_clash :: "world \<Rightarrow> bool" where
  "no_clash w \<longleftrightarrow> (\<forall>r. disk w r \<noteq> None \<longrightarrow> r \<notin> dirs w) \<and> (\<forall>p. can_read w p \<longrightarrow> can_write w p)"

lemma no_clash_fopen_w: "fopen_w a p = Some b \<Longrightarrow> no_clash a \<Longrightarrow> no_clash b \<and> resolve p \<notin> dirs b"
  by (auto simp: fopen_w_def no_clash_def split: if_splits)

lemma no_clash_fopen_a: "fopen_a a p = Some b \<Longrightarrow> no_clash a \<Longrightarrow> no_clash b \<and> resolve p \<notin> dirs b"
  by (auto simp: fopen_a_def no_clash_def split: if_splits)

lemma no_clash_fwrite: "no_clash a \<and> resolve p \<notin> dirs a \<Longrightarrow> no_clash (fwrite a p bs) \<and> resolve p \<notin> dirs (fwrite a p bs)"
  by (auto simp: fwrite_def no_clash_def)

lemma no_clash_mkdir: "no_clash a \<Longrightarrow> no_clash (mkdir a p)"
  by (auto simp: mkdir_def no_clash_def)

lemma no_clash_remove: "no_clash a \<Longrightarrow> no_clash (remove_file a p)"
  by (auto simp: remove_file_def no_clash_def)

lemma no_clash_log: "no_clash a \<Longrightarrow> no_clash (log_action a u x t r)"
  using no_clash_fopen_a[of a AUDIT_LOG] no_clash_fwrite
  by (auto simp: log_action_def split: option.split) (simp add: no_clash_def)

lemma no_clash_fs_log: "no_clash a \<Longrightarrow> no_clash (fs_log a u x t r)"
  by (simp add: fs_log_def no_clash_log)

lemma no_clash_env: "no_clash a \<Longrightarrow> disk b = disk a \<Longrightarrow> dirs b = dirs a \<Longrightarrow> same_env a b \<Longrightarrow> no_clash b"
  by (simp add: no_clash_def same_env_def)

text \<open>A file that was opened for reading can then be opened for writing.\<close>

lemma reopen: "no_clash w \<Longrightarrow> fopen_r w p = Some bs \<Longrightarrow> fopen_w w p \<noteq> None"
  by (auto simp: no_clash_def fopen_r_def fopen_w_def split: if_splits)

section \<open>The operations\<close>

lemma no_clash_rewrite_loop:
  "no_clash w \<and> resolve FILES_DB \<notin> dirs w \<Longrightarrow> no_clash (snd (rewrite_loop f d p e ms (b, w)))"
proof (induction ms arbitrary: b w)
  case (Cons m ms)
  show ?case
    using Cons.IH Cons.prems no_clash_fwrite[OF Cons.prems] by (auto split: option.split)
qed simp

lemma no_clash_rewrite: "no_clash w \<Longrightarrow> no_clash (snd (snd (rewrite_meta_matching w f d p e)))"
  by (auto simp: rewrite_meta_matching_def Let_def no_clash_rewrite_loop dest!: no_clash_fopen_w split: option.split)

lemma no_clash_chmod: "no_clash w \<Longrightarrow> no_clash (snd (chmod_file w f p))"
  by (simp add: chmod_file_def no_clash_rewrite)

lemma no_clash_set_encrypted: "no_clash w \<Longrightarrow> no_clash (snd (set_encrypted_flag w f e))"
  by (simp add: set_encrypted_flag_def no_clash_rewrite)

lemma no_clash_delete_meta: "no_clash w \<Longrightarrow> no_clash (snd (delete_file_meta w f))"
  by (simp add: delete_file_meta_def no_clash_rewrite)

lemma no_clash_create_meta: "no_clash w \<Longrightarrow> no_clash (snd (create_file_meta w f u g p))"
  by (auto simp: create_file_meta_def no_clash_fwrite dest: no_clash_fopen_a split: option.split)

lemmas no_clash_steps = no_clash_fs_log no_clash_log no_clash_mkdir no_clash_remove no_clash_chmod
  no_clash_set_encrypted no_clash_delete_meta no_clash_create_meta

lemma no_clash_storage: "no_clash w \<Longrightarrow> no_clash (snd (storage_path w f n))"
  by (simp add: storage_path_def no_clash_mkdir)

lemma no_clash_create_file:
  assumes "no_clash w"
  shows "no_clash (snd (fs_create_file w u g f p c))"
proof -
  have "no_clash (snd (storage_path (snd (create_file_meta w f u g p)) f path_size))"
    by (intro no_clash_storage no_clash_create_meta assms)
  then show ?thesis
    using assms by (auto simp: fs_create_file_def Let_def split_beta no_clash_steps no_clash_fwrite
        dest: no_clash_fopen_w split: option.split)
qed

lemma no_clash_read_file: "no_clash w \<Longrightarrow> no_clash (snd (fs_read_file w u g f q n))"
  by (auto simp: fs_read_file_def Let_def split_beta no_clash_steps no_clash_storage split: option.split)

lemma no_clash_write_file: "no_clash w \<Longrightarrow> no_clash (snd (fs_write_file w u g f q c app))"
  using no_clash_storage[of w f path_size]
  by (cases app) (auto simp: fs_write_file_def Let_def split_beta no_clash_steps no_clash_fwrite
      dest: no_clash_fopen_w no_clash_fopen_a split: option.split)

lemma no_clash_delete_file: "no_clash w \<Longrightarrow> no_clash (snd (fs_delete_file w u g f))"
  by (auto simp: fs_delete_file_def Let_def split_beta no_clash_steps no_clash_storage split: option.split)

lemma transform_defined:
  assumes "no_clash w"
  shows "\<exists>r. transform_file w u g f q ex st act = Some r \<and> no_clash (snd r)"
proof -
  have s: "no_clash (snd (storage_path w f path_size))"
    by (rule no_clash_storage[OF assms])
  show ?thesis
    using assms s
    by (auto simp: transform_file_def Let_def split_beta no_clash_steps no_clash_fwrite
        dest: reopen dest!: no_clash_fopen_w split: option.split)
qed

lemma no_clash_register: "no_clash w \<Longrightarrow> register_user w n p g = Some r \<Longrightarrow> no_clash (snd r)"
  using no_clash_env[of w "snd (generate_salt w)"] generate_salt_world[of w]
  by (auto simp: register_user_def Let_def split_beta no_clash_steps no_clash_fwrite
      dest!: no_clash_fopen_a split: option.splits if_splits)

lemma no_clash_login: "no_clash w \<Longrightarrow> login_user w n p = Some r \<Longrightarrow> no_clash (snd r)"
  by (auto simp: login_user_def Let_def no_clash_steps split: option.splits if_splits)

section \<open>Rounds\<close>

definition step_fine :: "'a step \<Rightarrow> bool" where
  "step_fine st = (case st of Again s1 \<Rightarrow> no_clash (sys s1) | Done _ s1 \<Rightarrow> no_clash (sys s1) | Undefined \<Rightarrow> False)"

text \<open>Where a run stands: such a disk, no \<open>/\<close> ahead in the input, and typed records in whole databases.\<close>

definition sound :: "cli \<Rightarrow> bool" where
  "sound s \<longleftrightarrow> no_clash (sys s) \<and> CHR ''/'' \<notin> set (inp s) \<and> dbs_inv (sys s) \<and> records_ok (sys s)"

definition step_sound :: "'a step \<Rightarrow> bool" where
  "step_sound st = (case st of Again s1 \<Rightarrow> sound s1 | Done _ s1 \<Rightarrow> sound s1 | Undefined \<Rightarrow> False)"

lemma step_sound_simps [simp]:
  "step_sound (Again s1) = sound s1" "step_sound (Done x s1) = sound s1" "\<not> step_sound Undefined"
  by (simp_all add: step_sound_def)

lemma step_fine_simps [simp]:
  "step_fine (Again s1) = no_clash (sys s1)" "step_fine (Done x s1) = no_clash (sys s1)" "\<not> step_fine Undefined"
  by (simp_all add: step_fine_def)

lemma sys_ask [simp]: "sys (snd (ask q n a)) = sys a"
  using ask_sys[of q n a] by (cases "ask q n a") simp

lemma step_fine_rules:
  "step_fine x \<Longrightarrow> step_fine z \<Longrightarrow> step_fine (if c then x else z)"
  "no_clash (sys a) \<Longrightarrow> step_fine (Again (say t a))"
  "no_clash w \<Longrightarrow> step_fine (Again (say t (a\<lparr>sys := w\<rparr>)))"
  "no_clash (snd r) \<Longrightarrow> step_fine (report a r y n)"
  "no_clash w \<Longrightarrow> no_clash (snd (d, w))"
  by (auto simp: say_def report_def)

lemma step_fine_transform:
  assumes "no_clash (sys a)"
  shows "step_fine (transform_case a (transform_file (sys a) u g f q ex st act) y n)"
  using transform_defined[OF assms, of u g f q ex st act] by (auto simp: transform_case_def report_def say_def)

lemma step_fine_read:
  "no_clash (snd r) \<Longrightarrow> step_fine (case fst r of None \<Rightarrow> Again (say x (a\<lparr>sys := snd r\<rparr>))
     | Some buf \<Rightarrow> Again (say (t buf) (a\<lparr>sys := snd r\<rparr>)))"
  by (simp add: say_def split: option.split)

lemma session_step_fine:
  assumes "no_clash (sys s)"
  shows "step_fine (session_step u g s)"
  using assms unfolding session_step_def Let_def split_beta fs_encrypt_file_def fs_decrypt_file_def
  by (intro step_fine_rules step_fine_transform step_fine_read)
    (simp_all add: say_def no_clash_steps no_clash_create_file no_clash_read_file no_clash_write_file no_clash_delete_file)

lemma sound_kept: "sound s \<Longrightarrow> kept s t \<Longrightarrow> no_clash (sys t) \<Longrightarrow> sound t"
  using kept_inp by (auto simp: sound_def kept_def preserved_def)

lemma sound_say [simp]: "sound (say x s) = sound s"
  by (simp add: sound_def)

lemma sound_printable:
  assumes "sound s" "login_user (sys s) n p = Some (Some u, w)"
  shows "printable_user u"
proof -
  have r: "can_read (sys s) USERS_DB" "list_all user_ok (users (sys s))"
    using assms(1) by (simp_all add: sound_def dbs_inv_def account_inv_def records_ok_def)
  have "find_user (sys s) n = Some u"
    using assms(2) by (auto simp: login_user_def Let_def split: option.splits if_splits)
  then have u: "u \<in> set (users (sys s))"
    using r(1) by (auto simp: find_user_users find_Some_iff)
  then show ?thesis
    using r(2) wf_users[OF u] by (auto simp: list_all_iff user_ok_def printable_iff)
qed

lemma login_step_fine:
  assumes "sound s"
  shows "step_fine (login_step s)"
proof (cases rule: login_step_cases[of s])
  case (login n p s1)
  have c: "no_clash (sys s)"
    using assms by (simp add: sound_def)
  show ?thesis
    using login sound_printable[OF assms, of n p] login_user_defined[OF fits_password[OF login(2)], of "sys s" n]
      no_clash_login[OF c, of n p]
    by (auto simp: say_def split: option.split)
next
  case (register n p g s1)
  then show ?thesis
    using register_user_defined[OF fits_password[OF register(2)], of "sys s" "Some n" "Some g"] assms
      no_clash_register[of "sys s" "Some n" "Some p" "Some g"]
    by (auto simp: say_def sound_def split: option.split)
qed (use assms in \<open>auto simp: sound_def\<close>)

lemma login_step_sound: "sound s \<Longrightarrow> step_sound (login_step s)"
  using login_step_fine[of s] login_step_kept[of s] sound_kept[of s]
  by (cases "login_step s") simp_all

lemma session_step_sound: "sound s \<Longrightarrow> nonul u \<Longrightarrow> nonul g \<Longrightarrow> step_sound (session_step u g s)"
  using session_step_fine[of s u g] session_step_kept[of s u g] sound_kept[of s]
  by (cases "session_step u g s") (simp_all add: sound_def)

section \<open>Runs\<close>

lemma login_screen_sound:
  assumes "login_screen s = Some r" "sound s"
  shows "\<exists>u s1. r = Some (u, s1) \<and> sound s1"
  using assms
proof (induction rule: login_screen_rounds)
  case (again s s1 r)
  then show ?case
    using login_step_sound[of s] by simp
next
  case (finished s x s1)
  then show ?case
    using login_step_sound[of s] by simp
next
  case (undefined s)
  then show ?case
    using login_step_sound[of s] by simp
qed

lemma session_loop_sound:
  assumes "session_loop user grp s = Some r" "sound s" "nonul user" "nonul grp"
  shows "\<exists>s1. r = Some s1 \<and> sound s1"
  using assms(1,2)
proof (induction rule: session_loop_rounds)
  case (again s s1 r)
  then show ?case
    using session_step_sound[OF _ assms(3,4), of s] by simp
next
  case (finished s s1)
  then show ?case
    using session_step_sound[OF _ assms(3,4), of s] by simp
next
  case (undefined s)
  then show ?case
    using session_step_sound[OF _ assms(3,4), of s] by simp
qed

lemma main_loop_sound: "main_loop s = Some x \<Longrightarrow> sound s \<longrightarrow> x \<noteq> None"
proof (erule main_loop.raw_induct[rotated], intro impI)
  fix loop s x
  assume ih: "\<And>s x. loop s = Some x \<Longrightarrow> sound s \<longrightarrow> x \<noteq> None"
    and run: "Option.bind (login_screen s) (\<lambda>r. case r of None \<Rightarrow> Some None | Some (None, s1) \<Rightarrow> Some (Some s1)
        | Some (Some u, s1) \<Rightarrow> Option.bind (session_loop (cstr (u_username u)) (cstr (u_group u)) s1) (\<lambda>r.
            case r of None \<Rightarrow> Some None | Some s2 \<Rightarrow> loop (print_banner s2))) = Some x"
    and fine: "sound s"
  obtain u s1 where l: "login_screen s = Some (Some (u, s1))" "sound s1"
    using run login_screen_sound[OF _ fine] by (auto split: bind_splits)
  show "x \<noteq> None"
  proof (cases u)
    case (Some v)
    then obtain y where y: "session_loop (cstr (u_username v)) (cstr (u_group v)) s1 = Some y"
        "(case y of None \<Rightarrow> Some None | Some s2 \<Rightarrow> loop (print_banner s2)) = Some x"
      using run l by (auto split: bind_splits)
    obtain s2 where "loop (print_banner s2) = Some x" "sound s2"
      using session_loop_sound[OF y(1) l(2)] y(2) by auto
    then show ?thesis
      using ih[of "print_banner s2" x] by (simp add: print_banner_def)
  qed (use run l in auto)
qed

lemma login_step_typed_unprintable:
  assumes "inp s = typed (''1'' # n # p # ls)" "line_ok MAX_USERNAME n" "line_ok MAX_PASSWORD p"
    and "login_user (sys s) n p = Some (Some u, w)" "\<not> printable_user u"
  shows "login_step s = Undefined"
  using assms by (simp add: login_step_def Let_def ask_typed del: typed.simps)


text \<open>A record whose group fills its array.\<close>

definition unterminated_user :: User where
  "unterminated_user = \<lparr>u_username = strncpy (zeros 32) ''ann'' 31, u_group = replicate 32 (CHR ''x''),
     u_salt = replicate 16 0, u_hash = salted_hash (replicate 16 0) ''secret''\<rparr>"

lemma unterminated_login:
  "\<exists>w. login_user ((fresh_world\<lparr>disk := [[''users.dat''] \<mapsto> user_bytes unterminated_user]\<rparr>)\<lparr>rand_pos := 0\<rparr>)
     ''ann'' ''secret'' = Some (Some unterminated_user, w)" (is "\<exists>w. login_user ?w _ _ = _")
proof -
  have wf: "wf_user unterminated_user" "uname unterminated_user = ''ann''"
    by (simp_all add: wf_user_def unterminated_user_def salted_hash_def uname_def cstr_strncpy_zeros NUL_def)
  have us: "users ?w = [unterminated_user]"
    using users_append(1)[OF fresh_users(2) wf(1), of ?w] by (simp add: users_def content_def fread_users_def fresh_world_def)
  have "find_user ?w ''ann'' = Some unterminated_user"
    using wf(2) find_user_uname[of ?w "''ann''"] by (simp add: us NUL_def)
  then show ?thesis
    using login_user_eq[of "''secret''" ?w "''ann''"] wf(1) by (simp add: unterminated_user_def)
qed


end
