(* ===== verification/Paging.thy ===== *)
theory Paging
  imports Refinement Prelude "HOL-Library.Signed_Division" "HOL-Library.Multiset"
begin

text \<open>
  \<open>paging_sim.c\<close>: address translation and the FIFO and LRU page-replacement simulations. An
  \<open>int\<close> is an \<open>int\<close> with the range checks of C written out where a computation can leave it;
  \<open>None\<close> is undefined behaviour (division by zero, overflow, an index outside an array). The
  printed lines are kept as values: address, page, hit or fault, and the frames as
  \<open>print_frames\<close> shows them.
\<close>

definition INT_MIN :: int where "INT_MIN = - (2 ^ 31)"
definition INT_MAX :: int where "INT_MAX = 2 ^ 31 - 1"
definition MAX_FRAMES :: nat where "MAX_FRAMES = 16"

definition in_int :: "int \<Rightarrow> bool" where
  "in_int x \<longleftrightarrow> INT_MIN \<le> x \<and> x \<le> INT_MAX"

record FrameTable =
  frames :: "int list"
  num_frames :: nat
  page_faults :: nat
  page_hits :: nat

text \<open>C's \<open>/\<close> rounds towards zero.\<close>

definition address_to_page :: "int \<Rightarrow> int \<Rightarrow> int option" where
  "address_to_page address page_size =
     (if page_size = 0 \<or> address = INT_MIN \<and> page_size = -1 then None else Some (address sdiv page_size))"

text \<open>The loop of \<open>find_page\<close>, from index \<open>i\<close> with \<open>n\<close> iterations left; -1 is \<^emph>\<open>not found\<close>.\<close>

fun find_loop :: "int list \<Rightarrow> int \<Rightarrow> nat \<Rightarrow> nat \<Rightarrow> int" where
  "find_loop fr page i 0 = -1"
| "find_loop fr page i (Suc n) = (if fr ! i = page then int i else find_loop fr page (Suc i) n)"

definition find_page :: "FrameTable \<Rightarrow> int \<Rightarrow> int" where
  "find_page ft page = find_loop (frames ft) page 0 (num_frames ft)"

text \<open>The frames as printed; an empty one is shown as an underscore.\<close>

definition shown_frames :: "int list \<Rightarrow> nat \<Rightarrow> int option list" where
  "shown_frames fr n = map (\<lambda>i. if fr ! i = -1 then None else Some (fr ! i)) [0..<n]"

definition print_frames :: "FrameTable \<Rightarrow> int option list" where
  "print_frames ft = shown_frames (frames ft) (num_frames ft)"

record access =
  a_addr :: int
  a_page :: int
  a_hit :: bool
  a_frames :: "int option list"

section \<open>FIFO\<close>

record fifo =
  ft :: FrameTable
  fifo_queue_next :: nat
  f_filled :: nat

definition fifo_init :: "nat \<Rightarrow> fifo" where
  "fifo_init n = \<lparr>ft = \<lparr>frames = replicate MAX_FRAMES (-1), num_frames = n, page_faults = 0, page_hits = 0\<rparr>,
     fifo_queue_next = 0, f_filled = 0\<rparr>"

text \<open>The body of the loop for one page: hit or fault, and the new state.\<close>

definition fifo_access :: "int \<Rightarrow> fifo \<Rightarrow> bool \<times> fifo" where
  "fifo_access page s =
     (let t = ft s; n = num_frames t in
      if find_page t page \<noteq> -1 then (True, s\<lparr>ft := t\<lparr>page_hits := page_hits t + 1\<rparr>\<rparr>)
      else
        let t = t\<lparr>page_faults := page_faults t + 1\<rparr> in
        (False,
         if f_filled s < n
         then s\<lparr>ft := t\<lparr>frames := (frames t)[f_filled s := page]\<rparr>, f_filled := f_filled s + 1\<rparr>
         else s\<lparr>ft := t\<lparr>frames := (frames t)[fifo_queue_next s := page]\<rparr>,
                fifo_queue_next := (fifo_queue_next s + 1) mod n\<rparr>))"

fun fifo_loop :: "int \<Rightarrow> int list \<Rightarrow> fifo \<Rightarrow> (access list \<times> fifo) option" where
  "fifo_loop page_size [] s = Some ([], s)"
| "fifo_loop page_size (addr # refs) s =
     (if num_frames (ft s) = 0 \<or> MAX_FRAMES < num_frames (ft s) then None
      else case address_to_page addr page_size of None \<Rightarrow> None
      | Some page \<Rightarrow>
          let (hit, s1) = fifo_access page s in
          (case fifo_loop page_size refs s1 of None \<Rightarrow> None
           | Some (as, s2) \<Rightarrow>
               Some (\<lparr>a_addr = addr, a_page = page, a_hit = hit, a_frames = print_frames (ft s1)\<rparr> # as, s2)))"

text \<open>The lines printed and the summary's hits and faults.\<close>

definition run_fifo :: "int list \<Rightarrow> nat \<Rightarrow> int \<Rightarrow> (access list \<times> nat \<times> nat) option" where
  "run_fifo refs n page_size =
     map_option (\<lambda>(as, s). (as, page_hits (ft s), page_faults (ft s))) (fifo_loop page_size refs (fifo_init n))"

section \<open>LRU\<close>

record lru =
  l_frames :: "int list"
  last_used :: "int list"
  l_num :: nat
  l_faults :: nat
  l_hits :: nat
  l_filled :: nat
  l_clock :: nat

definition lru_init :: "nat \<Rightarrow> lru" where
  "lru_init n = \<lparr>l_frames = replicate MAX_FRAMES (-1), last_used = replicate MAX_FRAMES (-1), l_num = n,
     l_faults = 0, l_hits = 0, l_filled = 0, l_clock = 0\<rparr>"

text \<open>The loop that looks for the smallest time stamp.\<close>

definition lru_victim :: "int list \<Rightarrow> nat \<Rightarrow> nat" where
  "lru_victim lu n = fold (\<lambda>f victim. if lu ! f < lu ! victim then f else victim) [1..<n] 0"

definition lru_access :: "int \<Rightarrow> lru \<Rightarrow> bool \<times> lru" where
  "lru_access page s =
     (let idx = find_loop (l_frames s) page 0 (l_num s); now = int (l_clock s) in
      if idx \<noteq> -1
      then (True, s\<lparr>l_hits := l_hits s + 1, last_used := (last_used s)[nat idx := now], l_clock := l_clock s + 1\<rparr>)
      else
        let s = s\<lparr>l_faults := l_faults s + 1\<rparr> in
        (False,
         if l_filled s < l_num s
         then s\<lparr>l_frames := (l_frames s)[l_filled s := page], last_used := (last_used s)[l_filled s := now],
                l_filled := l_filled s + 1, l_clock := l_clock s + 1\<rparr>
         else
           let victim = lru_victim (last_used s) (l_num s) in
           s\<lparr>l_frames := (l_frames s)[victim := page], last_used := (last_used s)[victim := now],
             l_clock := l_clock s + 1\<rparr>))"

fun lru_loop :: "int \<Rightarrow> int list \<Rightarrow> lru \<Rightarrow> (access list \<times> lru) option" where
  "lru_loop page_size [] s = Some ([], s)"
| "lru_loop page_size (addr # refs) s =
     (if MAX_FRAMES < l_num s then None
      else case address_to_page addr page_size of None \<Rightarrow> None
      | Some page \<Rightarrow>
          let (hit, s1) = lru_access page s in
          (case lru_loop page_size refs s1 of None \<Rightarrow> None
           | Some (as, s2) \<Rightarrow>
               Some (\<lparr>a_addr = addr, a_page = page, a_hit = hit,
                 a_frames = shown_frames (l_frames s1) (l_num s1)\<rparr> # as, s2)))"

definition run_lru :: "int list \<Rightarrow> nat \<Rightarrow> int \<Rightarrow> (access list \<times> nat \<times> nat) option" where
  "run_lru refs n page_size =
     map_option (\<lambda>(as, s). (as, l_hits s, l_faults s)) (lru_loop page_size refs (lru_init n))"

section \<open>Test patterns\<close>

fun build_addresses_from_pages :: "int list \<Rightarrow> int \<Rightarrow> int list option" where
  "build_addresses_from_pages [] page_size = Some []"
| "build_addresses_from_pages (p # ps) page_size =
     (if in_int (p * page_size) \<and> in_int (p * page_size + page_size sdiv 2)
      then map_option ((#) (p * page_size + page_size sdiv 2)) (build_addresses_from_pages ps page_size)
      else None)"

definition pattern1 :: "int list" where "pattern1 = [1,2,3,4,1,2,5,1,2,3,4,5]"
definition pattern2 :: "int list" where "pattern2 = [1,2,3,1,2,3,1,2,3,4,5,1,2,3]"

text \<open>\<open>main\<close>: the results of its six runs, in order.\<close>

definition paging_main :: "(access list \<times> nat \<times> nat) option list" where
  "paging_main =
     (let page_size = 4096 in
      case (build_addresses_from_pages pattern1 page_size, build_addresses_from_pages pattern2 page_size) of
        (Some addrs1, Some addrs2) \<Rightarrow>
          [run_fifo addrs1 3 page_size, run_lru addrs1 3 page_size,
           run_fifo addrs1 4 page_size, run_lru addrs1 4 page_size,
           run_fifo addrs2 3 page_size, run_lru addrs2 3 page_size]
      | _ \<Rightarrow> [])"

section \<open>Searching the frames\<close>

lemma find_loop_spec:
  "find_loop fr p i n = (if \<exists>j. i \<le> j \<and> j < i + n \<and> fr ! j = p
     then int (LEAST j. i \<le> j \<and> fr ! j = p) else -1)"
proof (induction n arbitrary: i)
  case (Suc n)
  show ?case
  proof (cases "fr ! i = p")
    case True
    then have "(LEAST j. i \<le> j \<and> fr ! j = p) = i"
      by (intro Least_equality) auto
    moreover have "\<exists>j. i \<le> j \<and> j < i + Suc n \<and> fr ! j = p"
      using True by (intro exI[of _ i]) simp
    ultimately show ?thesis
      using True by simp
  next
    case False
    then have "i \<le> j \<and> fr ! j = p \<longleftrightarrow> Suc i \<le> j \<and> fr ! j = p" for j
      by (metis Suc_leD le_antisym not_less_eq_eq)
    moreover from this have "(\<exists>j. i \<le> j \<and> j < i + Suc n \<and> fr ! j = p) \<longleftrightarrow>
        (\<exists>j. Suc i \<le> j \<and> j < Suc i + n \<and> fr ! j = p)"
      by (metis add_Suc add_Suc_right)
    ultimately show ?thesis
      using False Suc[of "Suc i"] by auto
  qed
qed simp

lemma find_loop_cases:
  obtains "find_loop fr p 0 n = -1" "\<And>j. j < n \<Longrightarrow> fr ! j \<noteq> p"
  | j where "find_loop fr p 0 n = int j" "j < n" "fr ! j = p"
proof (cases "\<exists>j < n. fr ! j = p")
  case True
  then obtain j where j: "j < n" "fr ! j = p"
    by blast
  define m where "m = (LEAST j. fr ! j = p)"
  have "fr ! m = p" "m \<le> j"
    using j unfolding m_def by (auto intro: LeastI Least_le)
  moreover have "find_loop fr p 0 n = int m"
    using True by (auto simp: find_loop_spec m_def)
  ultimately show thesis
    using that(2)[of m] j by simp
qed (use that(1) in \<open>auto simp: find_loop_spec\<close>)

end
