(* ===== verification/Paging_Correct.thy ===== *)
theory Paging_Correct
  imports Paging
begin

text \<open>
  The page-replacement algorithms implement a queue and a recency list: \<open>run_fifo\<close>'s circular
  index is a first-in first-out queue of bounded length, \<open>run_lru\<close>'s time stamps keep the most
  recently used pages. Both are interpretations of \<open>data_refinement\<close>; the number -1, which marks
  an empty frame, is excluded as a page.
\<close>

section \<open>The abstract algorithms\<close>

definition queue_access :: "nat \<Rightarrow> int \<Rightarrow> int list \<Rightarrow> bool \<times> int list" where
  "queue_access n p q =
     (if p \<in> set q then (True, q) else (False, (if length q < n then q else tl q) @ [p]))"

definition recency_access :: "nat \<Rightarrow> int \<Rightarrow> int list \<Rightarrow> bool \<times> int list" where
  "recency_access n p l = (p \<in> set l, take n (p # remove1 p l))"

section \<open>FIFO is a queue\<close>

definition fifo_inv :: "nat \<Rightarrow> fifo \<Rightarrow> bool" where
  "fifo_inv n s \<longleftrightarrow> num_frames (ft s) = n \<and> 0 < n \<and> n \<le> MAX_FRAMES \<and> length (frames (ft s)) = MAX_FRAMES \<and>
     f_filled s \<le> n \<and> fifo_queue_next s < n \<and> (f_filled s < n \<longrightarrow> fifo_queue_next s = 0) \<and>
     distinct (take (f_filled s) (frames (ft s))) \<and>
     (\<forall>i. f_filled s \<le> i \<and> i < n \<longrightarrow> frames (ft s) ! i = -1)"

text \<open>The resident pages, the oldest first.\<close>

definition fifo_queue :: "fifo \<Rightarrow> int list" where
  "fifo_queue s = rotate (fifo_queue_next s) (take (f_filled s) (frames (ft s)))"

lemma set_take_nth: "k \<le> length xs \<Longrightarrow> p \<in> set (take k xs) \<longleftrightarrow> (\<exists>i<k. xs ! i = p)"
  by (auto simp: in_set_conv_nth)

lemma found_resident:
  assumes "k \<le> n" "n \<le> length fr" "\<And>i. k \<le> i \<Longrightarrow> i < n \<Longrightarrow> fr ! i = -1" "p \<noteq> -1"
  shows "find_loop fr p 0 n \<noteq> -1 \<longleftrightarrow> p \<in> set (take k fr)"
    and "j < n \<Longrightarrow> fr ! j = p \<Longrightarrow> j < k"
proof -
  show "j < n \<Longrightarrow> fr ! j = p \<Longrightarrow> j < k" for j
    using assms by (metis not_less)
  then show "find_loop fr p 0 n \<noteq> -1 \<longleftrightarrow> p \<in> set (take k fr)"
    using assms(1,2)
    by (cases rule: find_loop_cases[where fr = fr and p = p and n = n]) (auto simp: set_take_nth)
qed

lemma take_update_at: "k < length xs \<Longrightarrow> take (Suc k) (xs[k := x]) = take k xs @ [x]"
  by (simp add: take_Suc_conv_app_nth)

text \<open>Overwriting the oldest element of a full circular queue and moving the index on.\<close>

lemma rotate_replace:
  assumes "k < length xs"
  shows "rotate (Suc k mod length xs) (xs[k := x]) = tl (rotate k xs) @ [x]"
proof -
  have "rotate (Suc k mod length xs) (xs[k := x]) = rotate (Suc k) (xs[k := x])"
    by (metis length_list_update rotate_conv_mod)
  also have "\<dots> = rotate1 (drop k (xs[k := x]) @ take k (xs[k := x]))"
    using assms rotate_drop_take[of k "xs[k := x]"] by (simp del: take_update_cancel)
  also have "drop k (xs[k := x]) = x # drop (Suc k) xs"
    using assms by (simp add: drop_update_swap Cons_nth_drop_Suc[symmetric] flip: Cons_nth_drop_Suc)
  also have "rotate1 ((x # drop (Suc k) xs) @ take k (xs[k := x])) = (drop (Suc k) xs @ take k xs) @ [x]"
    by simp
  also have "drop (Suc k) xs @ take k xs = tl (rotate k xs)"
    using assms by (simp add: rotate_drop_take flip: Cons_nth_drop_Suc)
  finally show ?thesis
    by simp
qed

lemma fifo_sim:
  assumes "fifo_inv n s" "p \<noteq> -1"
  shows "fifo_inv n (snd (fifo_access p s))"
    "queue_access n p (fifo_queue s) = (fst (fifo_access p s), fifo_queue (snd (fifo_access p s)))"
proof -
  define fr where "fr = frames (ft s)"
  have inv: "num_frames (ft s) = n" "0 < n" "n \<le> 16" "length fr = 16" "f_filled s \<le> n"
    "fifo_queue_next s < n" "f_filled s < n \<Longrightarrow> fifo_queue_next s = 0" "distinct (take (f_filled s) fr)"
    "\<And>i. f_filled s \<le> i \<Longrightarrow> i < n \<Longrightarrow> fr ! i = -1"
    using assms(1) by (auto simp: fifo_inv_def fr_def MAX_FRAMES_def)
  have found: "find_page (ft s) p \<noteq> -1 \<longleftrightarrow> p \<in> set (take (f_filled s) fr)"
    using found_resident(1)[of "f_filled s" n fr p] inv assms(2) by (simp add: find_page_def fr_def)
  have q: "set (fifo_queue s) = set (take (f_filled s) fr)" "length (fifo_queue s) = f_filled s"
    using inv by (simp_all add: fifo_queue_def fr_def)
  have "fifo_inv n (snd (fifo_access p s)) \<and>
    queue_access n p (fifo_queue s) = (fst (fifo_access p s), fifo_queue (snd (fifo_access p s)))"
  proof (cases "p \<in> set (take (f_filled s) fr)")
    case True
    then show ?thesis
      using found q assms(1) by (simp add: fifo_access_def queue_access_def fifo_queue_def fifo_inv_def Let_def)
  next
    case False
    show ?thesis
    proof (cases "f_filled s < n")
      case True
      then have "fifo_queue s = take (f_filled s) fr"
        using inv by (simp add: fifo_queue_def fr_def)
      then show ?thesis
        using True False found q inv assms
        by (auto simp: fifo_access_def queue_access_def fifo_queue_def fifo_inv_def Let_def fr_def
            take_update_at MAX_FRAMES_def)
    next
      case full: False
      then have fn: "f_filled s = n"
        using inv by simp
      let ?k = "fifo_queue_next s"
      have "take n (fr[?k := p]) = (take n fr)[?k := p]"
        by (simp add: take_update_swap)
      moreover have "distinct ((take n fr)[?k := p])"
        using inv fn False by (intro distinct_list_update) auto
      moreover have "rotate (Suc ?k mod n) ((take n fr)[?k := p]) = tl (rotate ?k (take n fr)) @ [p]"
        using rotate_replace[of ?k "take n fr" p] inv by simp
      ultimately show ?thesis
        using full False found q inv fn
        by (simp add: fifo_access_def queue_access_def fifo_queue_def fifo_inv_def Let_def fr_def MAX_FRAMES_def)
    qed
  qed
  then show "fifo_inv n (snd (fifo_access p s))"
    "queue_access n p (fifo_queue s) = (fst (fifo_access p s), fifo_queue (snd (fifo_access p s)))"
    by auto
qed

text \<open>The number of frames is a field of the state, so the contract holds for every one of them.\<close>

definition fifo_ok :: "fifo \<Rightarrow> bool" where
  "fifo_ok s \<longleftrightarrow> fifo_inv (num_frames (ft s)) s"

definition fifo_abs :: "fifo \<Rightarrow> nat \<times> int list" where
  "fifo_abs s = (num_frames (ft s), fifo_queue s)"

definition queue_step :: "int \<Rightarrow> nat \<times> int list \<Rightarrow> bool \<times> nat \<times> int list" where
  "queue_step p a = (let (h, q) = queue_access (fst a) p (snd a) in (h, fst a, q))"

lemma fifo_num [simp]: "num_frames (ft (snd (fifo_access p s))) = num_frames (ft s)"
  by (simp add: fifo_access_def Let_def)

interpretation ff: data_refinement fifo_ok fifo_abs "\<lambda>p _. p \<noteq> -1" fifo_access queue_step
  by unfold_locales (simp_all add: fifo_ok_def fifo_abs_def queue_step_def fifo_sim)

section \<open>LRU is a recency list\<close>

text \<open>The occupied frames as pairs of time stamp and page.\<close>

definition stamps :: "lru \<Rightarrow> (int \<times> int) list" where
  "stamps s = zip (take (l_filled s) (last_used s)) (take (l_filled s) (l_frames s))"

definition by_stamp :: "(int \<times> int) list \<Rightarrow> int list" where
  "by_stamp ps = rev (map snd (sort_key fst ps))"

definition recency_list :: "lru \<Rightarrow> int list" where
  "recency_list s = by_stamp (stamps s)"

definition lru_inv :: "nat \<Rightarrow> lru \<Rightarrow> bool" where
  "lru_inv n s \<longleftrightarrow> l_num s = n \<and> 0 < n \<and> n \<le> MAX_FRAMES \<and> length (l_frames s) = MAX_FRAMES \<and>
     length (last_used s) = MAX_FRAMES \<and> l_filled s \<le> n \<and>
     distinct (map fst (stamps s)) \<and> distinct (map snd (stamps s)) \<and>
     (\<forall>x\<in>set (stamps s). fst x < int (l_clock s)) \<and>
     (\<forall>i. l_filled s \<le> i \<and> i < n \<longrightarrow> l_frames s ! i = -1)"

lemma sort_key_insert_max:
  assumes "distinct (map fst ps)" "x \<in> set ps" "\<forall>y\<in>set ps. fst y < c"
    and "mset qs = add_mset (c, v) (mset ps - {#x#})"
  shows "sort_key fst qs = remove1 x (sort_key fst ps) @ [(c, v)]"
proof (rule sort_key_inj_key_eq)
  let ?S = "sort_key fst ps"
  have S: "mset ?S = mset ps" "set ?S = set ps" "sorted (map fst ?S)"
    by simp_all
  show "mset qs = mset (remove1 x ?S @ [(c, v)])"
    using assms(4) by simp
  have "sorted (map fst (remove1 x ?S))"
    by (rule sorted_map_remove1[OF S(3)])
  moreover have "\<forall>y\<in>set (remove1 x ?S). fst y < c"
    using assms(3) S(2) notin_set_remove1 by fastforce
  ultimately show "sorted (map fst (remove1 x ?S @ [(c, v)]))"
    by (auto simp: sorted_append less_imp_le)
  have "inj_on fst (insert (c, v) (set ps))"
    using assms(1,3) by (subst inj_on_insert) (force simp: distinct_map)
  moreover have "set qs \<subseteq> insert (c, v) (set ps)"
    using arg_cong[OF assms(4), of set_mset] by (auto dest: in_diffD)
  ultimately show "inj_on fst (set qs)"
    by (rule inj_on_subset)
qed

lemma map_remove1_inj:
  "distinct (map f xs) \<Longrightarrow> x \<in> set xs \<Longrightarrow> map f (remove1 x xs) = remove1 (f x) (map f xs)"
  by (induction xs) (auto simp: image_iff)

lemma rev_remove1: "distinct xs \<Longrightarrow> rev (remove1 x xs) = remove1 x (rev xs)"
  by (simp add: distinct_remove1_removeAll removeAll_filter_not_eq rev_filter)

lemma distinct_sort_snd: "distinct (map snd ps) \<Longrightarrow> distinct (map snd (sort_key fst ps))"
  by (metis distinct_map distinct_sort mset_map mset_sort mset_eq_imp_distinct_iff)

lemma set_by_stamp [simp]: "set (by_stamp ps) = snd ` set ps" "length (by_stamp ps) = length ps"
  by (simp_all add: by_stamp_def)

text \<open>Stamping one of the pairs anew, or a new page in its place, moves it to the front.\<close>

lemma by_stamp_touch:
  assumes "distinct (map fst ps)" "distinct (map snd ps)" "\<forall>y\<in>set ps. fst y < c" "i < length ps"
  shows "by_stamp (ps[i := (c, v)]) = v # remove1 (snd (ps ! i)) (by_stamp ps)"
proof -
  have "sort_key fst (ps[i := (c, v)]) = remove1 (ps ! i) (sort_key fst ps) @ [(c, v)]"
    using assms by (intro sort_key_insert_max) (simp_all add: mset_update)
  then have "by_stamp (ps[i := (c, v)]) = v # rev (map snd (remove1 (ps ! i) (sort_key fst ps)))"
    by (simp add: by_stamp_def)
  also have "\<dots> = v # rev (remove1 (snd (ps ! i)) (map snd (sort_key fst ps)))"
    using assms distinct_sort_snd by (subst map_remove1_inj) auto
  also have "\<dots> = v # remove1 (snd (ps ! i)) (by_stamp ps)"
    unfolding by_stamp_def by (simp only: rev_remove1[OF distinct_sort_snd[OF assms(2)]])
  finally show ?thesis .
qed

lemma by_stamp_new:
  assumes "distinct (map fst ps)" "\<forall>y\<in>set ps. fst y < c"
  shows "by_stamp (ps @ [(c, v)]) = v # by_stamp ps"
proof -
  have "sort_key fst (ps @ [(c, v)]) = sort_key fst ps @ [(c, v)]"
    using assms by (intro sort_key_inj_key_eq)
      (auto simp: sorted_append less_imp_le inj_on_def distinct_map)
  then show ?thesis
    by (simp add: by_stamp_def)
qed

text \<open>The pair with the smallest stamp is the last of the recency list.\<close>

lemma by_stamp_min:
  assumes "distinct (map fst ps)" "distinct (map snd ps)" "i < length ps"
    and "\<And>j. j < length ps \<Longrightarrow> fst (ps ! i) \<le> fst (ps ! j)"
  shows "remove1 (snd (ps ! i)) (by_stamp ps) = butlast (by_stamp ps)"
proof -
  obtain x S where S: "sort_key fst ps = x # S"
    using assms(3) by (metis length_0_conv length_sort list.exhaust not_less0)
  then have x: "x \<in> set ps" "\<forall>y\<in>set ps. fst x \<le> fst y"
    using sorted_sort_key[of fst ps] set_sort[of fst ps] by (auto simp del: set_sort sorted_sort_key)
  then have "fst x = fst (ps ! i)"
    using assms(3,4) nth_mem[OF assms(3)] by (intro order.antisym) (auto simp: in_set_conv_nth)
  then have "x = ps ! i"
    using assms(1,3) x(1) by (auto simp: distinct_map dest: inj_onD)
  then have b: "by_stamp ps = rev (map snd S) @ [snd (ps ! i)]"
    using S by (simp add: by_stamp_def)
  have "distinct (by_stamp ps)"
    using assms(2) distinct_sort_snd by (simp add: by_stamp_def)
  then show ?thesis
    unfolding b by (simp add: remove1_append)
qed

lemma lru_victim_min:
  assumes "0 < n"
  shows "lru_victim lu n < n \<and> (\<forall>j<n. lu ! lru_victim lu n \<le> lu ! j)"
proof -
  define g where "g = (\<lambda>f victim. if lu ! f < lu ! victim then f else victim :: nat)"
  have "fold g [1..<Suc m] 0 < Suc m \<and> (\<forall>j<Suc m. lu ! fold g [1..<Suc m] 0 \<le> lu ! j)" for m
  proof (induction m)
    case (Suc m)
    have "fold g [1..<Suc (Suc m)] 0 = g (Suc m) (fold g [1..<Suc m] 0)"
      by simp
    then show ?case
      using Suc by (auto simp: g_def less_Suc_eq intro: order_trans less_imp_le)
  qed simp
  from this[of "n - 1"] show ?thesis
    using assms by (simp add: lru_victim_def g_def)
qed

lemma lru_sim:
  assumes "lru_inv n s" "p \<noteq> -1"
  shows "lru_inv n (snd (lru_access p s))"
    "recency_access n p (recency_list s) = (fst (lru_access p s), recency_list (snd (lru_access p s)))"
proof -
  define fr lu k now where d: "fr = l_frames s" "lu = last_used s" "k = l_filled s" "now = int (l_clock s)"
  have inv: "l_num s = n" "0 < n" "n \<le> 16" "length fr = 16" "length lu = 16" "k \<le> n"
    "distinct (map fst (stamps s))" "distinct (map snd (stamps s))" "\<forall>x\<in>set (stamps s). fst x < now"
    "\<And>i. k \<le> i \<Longrightarrow> i < n \<Longrightarrow> fr ! i = -1"
    using assms(1) by (auto simp: lru_inv_def d MAX_FRAMES_def)
  have len: "length (stamps s) = k" "k \<le> 16" and st: "stamps s = zip (take k lu) (take k fr)"
    using inv by (simp_all add: stamps_def d)
  have nth: "stamps s ! i = (lu ! i, fr ! i)" if "i < k" for i
    using that len inv by (simp add: st)
  have snds: "map snd (stamps s) = take k fr"
    using inv len by (simp add: st)
  have res: "set (recency_list s) = set (take k fr)" "length (recency_list s) = k"
    using len(1) by (simp_all add: recency_list_def flip: snds)
  have touch: "zip ((take k lu)[i := now]) ((take k fr)[i := q]) = (stamps s)[i := (now, q)]" for i q
    by (simp add: st zip_update)
  have upd: "distinct (map fst ((stamps s)[i := (now, q)])) \<and> (\<forall>x\<in>set ((stamps s)[i := (now, q)]). fst x < now + 1)"
    for i q
  proof -
    have "now \<notin> set (map fst (stamps s))"
      using inv(9) by auto
    then show ?thesis
      using inv(7,9) set_update_subset_insert[of "stamps s" i "(now, q)"]
      by (auto simp: map_update intro!: distinct_list_update dest: in_set_takeD in_set_dropD subsetD)
        (force dest: subsetD)
  qed
  note find = found_resident[of k n fr p]
  consider (hit) i where "find_loop fr p 0 n = int i" "i < k" "fr ! i = p"
    | (fault) "find_loop fr p 0 n = -1" "p \<notin> set (take k fr)"
    using find inv assms(2) by (cases rule: find_loop_cases[where fr = fr and p = p and n = n]) auto
  then have "lru_inv n (snd (lru_access p s)) \<and>
    recency_access n p (recency_list s) = (fst (lru_access p s), recency_list (snd (lru_access p s)))"
  proof cases
    case (hit i)
    then have mem: "p \<in> set (take k fr)"
      using len inv by (auto simp: set_take_nth)
    define s1 where "s1 = s\<lparr>l_hits := l_hits s + 1, last_used := lu[i := now], l_clock := l_clock s + 1\<rparr>"
    have acc: "lru_access p s = (True, s1)"
      using hit inv by (simp add: lru_access_def Let_def d s1_def)
    have "(take k fr)[i := p] = take k fr"
      using hit by (metis list_update_id nth_take)
    then have st1: "stamps s1 = (stamps s)[i := (now, p)]"
      using touch[of i p] by (simp add: stamps_def s1_def d take_update_swap)
    have "map snd (stamps s1) = take k fr"
      using hit snds by (simp add: st1 map_update) (metis list_update_id nth_take)
    moreover have "l_num s1 = n" "length (l_frames s1) = 16" "length (last_used s1) = 16" "l_filled s1 = k"
      "int (l_clock s1) = now + 1" "l_frames s1 = fr"
      using inv by (simp_all add: s1_def d)
    ultimately have "lru_inv n s1"
      unfolding lru_inv_def using inv upd[of i p] snds by (simp add: st1 MAX_FRAMES_def)
    moreover have "recency_list s1 = p # remove1 p (recency_list s)"
      using by_stamp_touch[OF inv(7,8,9), of i p] hit nth len by (simp add: recency_list_def st1)
    moreover have "length (p # remove1 p (recency_list s)) \<le> n"
      using res mem inv by (simp add: length_remove1)
    ultimately show ?thesis
      using acc mem res by (simp add: recency_access_def)
  next
    case fault
    show ?thesis
    proof (cases "k < n")
      case True
      define s1 where "s1 = s\<lparr>l_faults := l_faults s + 1, l_frames := fr[k := p], last_used := lu[k := now],
          l_filled := k + 1, l_clock := l_clock s + 1\<rparr>"
      have acc: "lru_access p s = (False, s1)"
        using fault True inv by (simp add: lru_access_def Let_def d s1_def)
      have st1: "stamps s1 = stamps s @ [(now, p)]"
        using True inv by (simp add: stamps_def s1_def d take_update_at)
      have "l_num s1 = n" "length (l_frames s1) = 16" "length (last_used s1) = 16" "l_filled s1 = k + 1"
        "int (l_clock s1) = now + 1" "l_frames s1 = fr[k := p]"
        using inv by (simp_all add: s1_def d)
      moreover have "distinct (map fst (stamps s1))" "distinct (map snd (stamps s1))"
        "\<forall>x\<in>set (stamps s1). fst x < now + 1"
        using inv(7-9) fault(2) snds by (auto simp: st1)
      ultimately have "lru_inv n s1"
        unfolding lru_inv_def using inv True by (simp add: MAX_FRAMES_def)
      moreover have "recency_list s1 = p # recency_list s"
        using by_stamp_new[OF inv(7,9)] by (simp add: recency_list_def st1)
      moreover have "take n (p # remove1 p (recency_list s)) = p # recency_list s"
        using res fault True by (simp add: remove1_idem)
      ultimately show ?thesis
        using acc fault res by (simp add: recency_access_def)
    next
      case False
      then have kn: "k = n"
        using inv by simp
      define v where "v = lru_victim lu n"
      have v: "v < n" "\<And>j. j < n \<Longrightarrow> lu ! v \<le> lu ! j"
        using lru_victim_min[OF inv(2), of lu] by (simp_all add: v_def)
      define s1 where "s1 = s\<lparr>l_faults := l_faults s + 1, l_frames := fr[v := p], last_used := lu[v := now],
          l_clock := l_clock s + 1\<rparr>"
      have acc: "lru_access p s = (False, s1)"
        using fault kn inv by (simp add: lru_access_def Let_def d s1_def v_def)
      have st1: "stamps s1 = (stamps s)[v := (now, p)]"
        using touch[of v p] by (simp add: stamps_def s1_def d take_update_swap)
      have "distinct (map snd (stamps s1))"
        using inv(8) fault(2) snds by (auto simp: st1 map_update intro!: distinct_list_update dest: in_set_takeD in_set_dropD)
      moreover have "l_num s1 = n" "length (l_frames s1) = 16" "length (last_used s1) = 16" "l_filled s1 = k"
        "int (l_clock s1) = now + 1"
        using inv by (simp_all add: s1_def d)
      ultimately have "lru_inv n s1"
        unfolding lru_inv_def using inv upd[of v p] kn by (simp add: st1 MAX_FRAMES_def)
      moreover have "recency_list s1 = p # butlast (recency_list s)"
        using by_stamp_touch[OF inv(7,8,9), of v p] by_stamp_min[OF inv(7,8), of v] v kn nth len
        by (simp add: recency_list_def st1)
      moreover have "take n (p # remove1 p (recency_list s)) = p # butlast (recency_list s)"
        using res fault kn inv(2) by (cases n) (simp_all add: remove1_idem butlast_conv_take)
      ultimately show ?thesis
        using acc fault res by (simp add: recency_access_def)
    qed
  qed
  then show "lru_inv n (snd (lru_access p s))"
    "recency_access n p (recency_list s) = (fst (lru_access p s), recency_list (snd (lru_access p s)))"
    by auto
qed

definition lru_ok :: "lru \<Rightarrow> bool" where
  "lru_ok s \<longleftrightarrow> lru_inv (l_num s) s"

definition lru_abs :: "lru \<Rightarrow> nat \<times> int list" where
  "lru_abs s = (l_num s, recency_list s)"

definition recency_step :: "int \<Rightarrow> nat \<times> int list \<Rightarrow> bool \<times> nat \<times> int list" where
  "recency_step p a = (let (h, l) = recency_access (fst a) p (snd a) in (h, fst a, l))"

lemma lru_num [simp]: "l_num (snd (lru_access p s)) = l_num s"
  by (simp add: lru_access_def Let_def)

interpretation lr: data_refinement lru_ok lru_abs "\<lambda>p _. p \<noteq> -1" lru_access recency_step
  by unfold_locales (simp_all add: lru_ok_def lru_abs_def recency_step_def lru_sim)

end
