(* ===== verification/Paging_Props.thy ===== *)
theory Paging_Props
  imports Paging_Correct
begin

text \<open>
  Properties of the page-replacement simulations: address translation, the functional behaviour of
  both algorithms on whole reference strings, their fault counts, the inclusion property of LRU and
  Belady's anomaly of FIFO on the program's own test case.
\<close>

section \<open>Whole runs\<close>

definition translates :: "int \<Rightarrow> int list \<Rightarrow> int list \<Rightarrow> bool" where
  "translates page_size refs pages \<longleftrightarrow>
     map (\<lambda>a. address_to_page a page_size) refs = map Some pages \<and> -1 \<notin> set pages"

lemma translates_simps [simp]:
  "translates z [] [] "
  "translates z (a # as) ps \<longleftrightarrow> (\<exists>p qs. ps = p # qs \<and> address_to_page a z = Some p \<and> p \<noteq> -1 \<and> translates z as qs)"
  by (auto simp: translates_def Cons_eq_map_conv)

lemma translates_length: "translates z as ps \<Longrightarrow> length as = length ps"
  by (auto simp: translates_def dest: map_eq_imp_length_eq)

lemma fifo_loop_run:
  assumes "translates z refs pages" "0 < num_frames (ft s)" "num_frames (ft s) \<le> MAX_FRAMES"
  shows "\<exists>as. fifo_loop z refs s = Some (as, snd (run_cmds fifo_access pages s)) \<and>
    map a_addr as = refs \<and> map a_page as = pages \<and> map a_hit as = fst (run_cmds fifo_access pages s)"
  using assms
proof (induction refs arbitrary: pages s)
  case (Cons a refs)
  then obtain p qs where p: "pages = p # qs" "address_to_page a z = Some p" "translates z refs qs"
    by auto
  from Cons.IH[OF p(3), of "snd (fifo_access p s)"] obtain as where
    "fifo_loop z refs (snd (fifo_access p s)) = Some (as, snd (run_cmds fifo_access qs (snd (fifo_access p s))))"
    "map a_addr as = refs" "map a_page as = qs"
    "map a_hit as = fst (run_cmds fifo_access qs (snd (fifo_access p s)))"
    using Cons.prems by auto
  then show ?case
    using p Cons.prems by (simp add: split_beta Let_def)
qed (simp add: translates_def)

lemma lru_loop_run:
  assumes "translates z refs pages" "l_num s \<le> MAX_FRAMES"
  shows "\<exists>as. lru_loop z refs s = Some (as, snd (run_cmds lru_access pages s)) \<and>
    map a_addr as = refs \<and> map a_page as = pages \<and> map a_hit as = fst (run_cmds lru_access pages s)"
  using assms
proof (induction refs arbitrary: pages s)
  case (Cons a refs)
  then obtain p qs where p: "pages = p # qs" "address_to_page a z = Some p" "translates z refs qs"
    by auto
  from Cons.IH[OF p(3), of "snd (lru_access p s)"] obtain as where
    "lru_loop z refs (snd (lru_access p s)) = Some (as, snd (run_cmds lru_access qs (snd (lru_access p s))))"
    "map a_addr as = refs" "map a_page as = qs"
    "map a_hit as = fst (run_cmds lru_access qs (snd (lru_access p s)))"
    using Cons.prems by auto
  then show ?case
    using p Cons.prems by (simp add: split_beta Let_def)
qed (simp add: translates_def)

text \<open>The counters count the hits and faults reported.\<close>

abbreviation hits :: "bool list \<Rightarrow> nat" where "hits bs \<equiv> length (filter id bs)"
abbreviation faults :: "bool list \<Rightarrow> nat" where "faults bs \<equiv> length (filter Not bs)"

lemma hits_faults: "hits bs + faults bs = length bs"
  by (induction bs) auto

lemma fifo_counters:
  "page_hits (ft (snd (run_cmds fifo_access ps s))) = page_hits (ft s) + hits (fst (run_cmds fifo_access ps s)) \<and>
   page_faults (ft (snd (run_cmds fifo_access ps s))) = page_faults (ft s) + faults (fst (run_cmds fifo_access ps s))"
proof (induction ps arbitrary: s)
  case (Cons p ps)
  have "page_hits (ft (snd (fifo_access p s))) = page_hits (ft s) + (if fst (fifo_access p s) then 1 else 0)"
    "page_faults (ft (snd (fifo_access p s))) = page_faults (ft s) + (if fst (fifo_access p s) then 0 else 1)"
    by (simp_all add: fifo_access_def Let_def)
  then show ?case
    using Cons by (simp add: split_beta Let_def)
qed simp

lemma lru_counters:
  "l_hits (snd (run_cmds lru_access ps s)) = l_hits s + hits (fst (run_cmds lru_access ps s)) \<and>
   l_faults (snd (run_cmds lru_access ps s)) = l_faults s + faults (fst (run_cmds lru_access ps s))"
proof (induction ps arbitrary: s)
  case (Cons p ps)
  have "l_hits (snd (lru_access p s)) = l_hits s + (if fst (lru_access p s) then 1 else 0)"
    "l_faults (snd (lru_access p s)) = l_faults s + (if fst (lru_access p s) then 0 else 1)"
    by (simp_all add: lru_access_def Let_def)
  then show ?case
    using Cons by (simp add: split_beta Let_def)
qed simp

lemma fifo_zero: "page_hits (ft (fifo_init n)) = 0" "page_faults (ft (fifo_init n)) = 0"
  by (simp_all add: fifo_init_def)

lemma lru_zero: "l_hits (lru_init n) = 0" "l_faults (lru_init n) = 0"
  by (simp_all add: lru_init_def)

lemma fifo_start: "0 < n \<Longrightarrow> n \<le> MAX_FRAMES \<Longrightarrow> fifo_ok (fifo_init n) \<and> fifo_abs (fifo_init n) = (n, [])"
  by (simp add: fifo_ok_def fifo_inv_def fifo_init_def fifo_abs_def fifo_queue_def MAX_FRAMES_def)

lemma lru_start: "0 < n \<Longrightarrow> n \<le> MAX_FRAMES \<Longrightarrow> lru_ok (lru_init n) \<and> lru_abs (lru_init n) = (n, [])"
  by (simp add: lru_ok_def lru_inv_def lru_init_def lru_abs_def recency_list_def stamps_def by_stamp_def
      MAX_FRAMES_def)

lemma ok_pages: "-1 \<notin> set ps \<Longrightarrow> all_ok (\<lambda>p _. p \<noteq> -1) step ps s"
  by (induction ps arbitrary: s) auto

lemma run_fifo_eq:
  assumes "translates z refs pages" "0 < n" "n \<le> MAX_FRAMES"
    and "hs = fst (run_cmds queue_step pages (n, []))"
  shows "\<exists>as. run_fifo refs n z = Some (as, hits hs, faults hs) \<and>
    map a_addr as = refs \<and> map a_page as = pages \<and> map a_hit as = hs"
proof -
  obtain as where as: "fifo_loop z refs (fifo_init n) = Some (as, snd (run_cmds fifo_access pages (fifo_init n)))"
    "map a_addr as = refs" "map a_page as = pages" "map a_hit as = fst (run_cmds fifo_access pages (fifo_init n))"
    using fifo_loop_run[OF assms(1), of "fifo_init n"] assms(2,3) by (auto simp: fifo_init_def)
  have "fst (run_cmds queue_step pages (n, [])) = fst (run_cmds fifo_access pages (fifo_init n))"
    using ff.run_sim[of "fifo_init n" pages] fifo_start[OF assms(2,3)] ok_pages[of pages fifo_access] assms(1)
    by (simp add: translates_def)
  then show ?thesis
    using as assms(4) fifo_counters[of pages "fifo_init n"] by (simp add: run_fifo_def fifo_zero)
qed

lemma run_lru_eq:
  assumes "translates z refs pages" "0 < n" "n \<le> MAX_FRAMES"
    and "hs = fst (run_cmds recency_step pages (n, []))"
  shows "\<exists>as. run_lru refs n z = Some (as, hits hs, faults hs) \<and>
    map a_addr as = refs \<and> map a_page as = pages \<and> map a_hit as = hs"
proof -
  obtain as where as: "lru_loop z refs (lru_init n) = Some (as, snd (run_cmds lru_access pages (lru_init n)))"
    "map a_addr as = refs" "map a_page as = pages" "map a_hit as = fst (run_cmds lru_access pages (lru_init n))"
    using lru_loop_run[OF assms(1), of "lru_init n"] assms(2,3) by (auto simp: lru_init_def)
  have "fst (run_cmds recency_step pages (n, [])) = fst (run_cmds lru_access pages (lru_init n))"
    using lr.run_sim[of "lru_init n" pages] lru_start[OF assms(2,3)] ok_pages[of pages lru_access] assms(1)
    by (simp add: translates_def)
  then show ?thesis
    using as assms(4) lru_counters[of pages "lru_init n"] by (simp add: run_lru_def lru_zero)
qed

section \<open>The n most recently used pages\<close>

definition recent :: "nat \<Rightarrow> int list \<Rightarrow> int list" where
  "recent n pages = take n (rev (remdups pages))"

lemma remdups_snoc: "remdups (xs @ [p]) = removeAll p (remdups xs) @ [p]"
  by (induction xs) auto

lemma take_remove_take:
  assumes "distinct l"
  shows "take n (p # remove1 p (take n l)) = take n (p # removeAll p l)"
proof (cases n)
  case (Suc m)
  define a b where ab: "a = take n l" "b = drop n l"
  have l: "l = a @ b" and d: "distinct a" "distinct b" "set a \<inter> set b = {}" and len: "length a < n \<Longrightarrow> b = []" "length a \<le> n"
    using assms distinct_append[of "take n l" "drop n l"] by (auto simp: ab)
  have "take m (remove1 p a) = take m (removeAll p (a @ b))"
  proof (cases "p \<in> set a")
    case True
    then have "p \<notin> set b"
      using d by auto
    then have "removeAll p (a @ b) = remove1 p a @ b"
      by (simp add: distinct_remove1_removeAll[OF d(1)] removeAll_id)
    moreover have "length a = n \<Longrightarrow> length (remove1 p a) = m"
      using True Suc by (simp add: length_remove1)
    ultimately show ?thesis
      using len by (cases "length a < n") auto
  next
    case False
    then have "removeAll p (a @ b) = a @ removeAll p b" "remove1 p a = a"
      by (simp_all add: removeAll_id remove1_idem)
    then show ?thesis
      using len Suc by (cases "length a < n") auto
  qed
  then have "take m (remove1 p (take n l)) = take m (removeAll p l)"
    unfolding l[symmetric] by (simp only: ab)
  then show ?thesis
    using Suc by simp
qed simp

lemma recency_run:
  "run_cmds recency_step pages (n, []) =
     (map (\<lambda>i. pages ! i \<in> set (recent n (take i pages))) [0..<length pages], (n, recent n pages))"
proof (induction pages rule: rev_induct)
  case (snoc p xs)
  have r: "recency_access n p (recent n xs) = (p \<in> set (recent n xs), recent n (xs @ [p]))"
    using take_remove_take[of "rev (remdups xs)" n p]
    by (simp add: recency_access_def recent_def remdups_snoc removeAll_filter_not_eq rev_filter)
  have "map (\<lambda>i. (xs @ [p]) ! i \<in> set (recent n (take i (xs @ [p])))) [0..<length xs] =
      map (\<lambda>i. xs ! i \<in> set (recent n (take i xs))) [0..<length xs]"
    by (intro map_cong) (simp_all add: nth_append)
  then show ?case
    using snoc by (simp add: run_cmds_append Let_def recency_step_def r split_beta)
qed (simp add: recent_def)

section \<open>Fault counts\<close>

lemma faults_nth: "faults bs = card {i. i < length bs \<and> \<not> bs ! i}"
  by (rule length_filter_conv_card)

lemma first_occurrences:
  assumes "length bs = length ps" "\<And>i. i < length ps \<Longrightarrow> bs ! i \<Longrightarrow> ps ! i \<in> set (take i ps)"
  shows "card (set ps) \<le> faults bs"
proof -
  have "set ps \<subseteq> (\<lambda>i. ps ! i) ` {i. i < length bs \<and> \<not> bs ! i}"
  proof
    fix p assume "p \<in> set ps"
    then obtain i where "i < length ps \<and> ps ! i = p"
      by (auto simp: in_set_conv_nth)
    define k where "k = (LEAST i. i < length ps \<and> ps ! i = p)"
    have k: "k < length ps" "ps ! k = p"
      using LeastI[of "\<lambda>i. i < length ps \<and> ps ! i = p" i] \<open>i < length ps \<and> ps ! i = p\<close> by (simp_all add: k_def)
    have "p \<notin> set (take k ps)"
    proof
      assume "p \<in> set (take k ps)"
      then obtain j where "j < k" "j < length ps" "ps ! j = p"
        by (auto simp: in_set_conv_nth)
      then show False
        using not_less_Least[of j "\<lambda>i. i < length ps \<and> ps ! i = p"] by (simp add: k_def)
    qed
    then have "\<not> bs ! k"
      using assms(2)[of k] k by auto
    then show "p \<in> (\<lambda>i. ps ! i) ` {i. i < length bs \<and> \<not> bs ! i}"
      using k assms(1) by auto
  qed
  then have "card (set ps) \<le> card ((\<lambda>i. ps ! i) ` {i. i < length bs \<and> \<not> bs ! i})"
    by (intro card_mono) auto
  also have "\<dots> \<le> faults bs"
    unfolding faults_nth by (rule card_image_le) simp
  finally show ?thesis .
qed

lemma recent_subset: "set (recent n ps) \<subseteq> set ps" "n \<le> m \<Longrightarrow> set (recent n ps) \<subseteq> set (recent m ps)"
proof -
  show "set (recent n ps) \<subseteq> set ps"
    using set_take_subset[of n "rev (remdups ps)"] by (simp add: recent_def)
  show "n \<le> m \<Longrightarrow> set (recent n ps) \<subseteq> set (recent m ps)"
    unfolding recent_def by (rule set_take_subset_set_take)
qed

definition lru_hits :: "nat \<Rightarrow> int list \<Rightarrow> bool list" where
  "lru_hits n ps = map (\<lambda>i. ps ! i \<in> set (recent n (take i ps))) [0..<length ps]"

definition fifo_hits :: "nat \<Rightarrow> int list \<Rightarrow> bool list" where
  "fifo_hits n ps = fst (run_cmds queue_step ps (n, []))"

lemma fifo_hits_snoc:
  "fifo_hits n (ps @ [p]) = fifo_hits n ps @ [p \<in> set (snd (snd (run_cmds queue_step ps (n, []))))]"
  "fst (snd (run_cmds queue_step ps (n, []))) = n"
proof -
  have n: "fst (snd (run_cmds queue_step ps a)) = fst a" for a
    by (induction ps arbitrary: a) (simp_all add: Let_def split_beta queue_step_def)
  show "fst (snd (run_cmds queue_step ps (n, []))) = n"
    by (simp add: n)
  show "fifo_hits n (ps @ [p]) = fifo_hits n ps @ [p \<in> set (snd (snd (run_cmds queue_step ps (n, []))))]"
    by (simp add: fifo_hits_def run_cmds_append Let_def split_beta queue_step_def queue_access_def n)
qed

lemma queue_run:
  fixes n ps defines "q \<equiv> snd (snd (run_cmds queue_step ps (n, [])))"
  assumes "0 < n"
  shows "set q \<subseteq> set ps \<and> distinct q \<and> length q \<le> n \<and> (card (set ps) \<le> n \<longrightarrow> set q = set ps)"
  unfolding q_def
proof (induction ps rule: rev_induct)
  case (snoc p ps)
  define q where "q = snd (snd (run_cmds queue_step ps (n, [])))"
  have q': "snd (snd (run_cmds queue_step (ps @ [p]) (n, []))) = snd (queue_access n p q)"
    using fifo_hits_snoc(2)[of ps n] by (simp add: run_cmds_append Let_def split_beta queue_step_def q_def)
  have IH: "set q \<subseteq> set ps" "distinct q" "length q \<le> n" "card (set ps) \<le> n \<Longrightarrow> set q = set ps"
    using snoc by (simp_all add: q_def)
  have sub: "set (tl q) \<subseteq> set q" "distinct (tl q)" "length (tl q) \<le> n - 1"
    using IH by (cases q; auto)+
  have card: "card (set (ps @ [p])) \<le> n \<Longrightarrow> card (set ps) \<le> n"
    using card_mono[of "set (ps @ [p])" "set ps"] by (simp add: subset_insertI)
  have room: "length q < n" if "card (set (ps @ [p])) \<le> n" "p \<notin> set q"
  proof -
    have "set q = set ps"
      using IH(4) card that(1) by simp
    then have "card (set (ps @ [p])) = Suc (length q)"
      using that(2) distinct_card[OF IH(2)] by simp
    then show ?thesis
      using that(1) by simp
  qed
  show ?case
    unfolding q' using IH sub card room assms
    by (auto simp: queue_access_def)
qed simp

lemma length_fifo_hits: "length (fifo_hits n ps) = length ps"
  by (induction ps rule: rev_induct) (simp_all add: fifo_hits_snoc, simp add: fifo_hits_def)

lemma fifo_hits_nth:
  "i < length ps \<Longrightarrow> fifo_hits n ps ! i \<longleftrightarrow> ps ! i \<in> set (snd (snd (run_cmds queue_step (take i ps) (n, []))))"
proof (induction ps rule: rev_induct)
  case (snoc p ps)
  then show ?case
    by (cases "i < length ps") (auto simp: fifo_hits_snoc nth_append length_fifo_hits less_Suc_eq)
qed simp

text \<open>With room for all pages only first accesses fault.\<close>

lemma only_first_occurrences:
  assumes "length bs = length ps" "\<And>i. i < length ps \<Longrightarrow> bs ! i \<longleftrightarrow> ps ! i \<in> set (take i ps)"
  shows "faults bs = card (set ps)"
  using assms
proof (induction ps arbitrary: bs rule: rev_induct)
  case (snoc p ps)
  then obtain cs b where bs: "bs = cs @ [b]" "length cs = length ps"
    by (metis length_append_singleton length_Suc_conv_rev)
  have "cs ! i \<longleftrightarrow> ps ! i \<in> set (take i ps)" if "i < length ps" for i
    using snoc.prems(2)[of i] that bs by (simp add: nth_append)
  then have "faults cs = card (set ps)"
    using snoc.IH[of cs] bs by simp
  moreover have "b \<longleftrightarrow> p \<in> set ps"
    using snoc.prems(2)[of "length ps"] bs by (simp add: nth_append)
  ultimately show ?case
    by (simp add: bs insert_absorb)
qed simp

section \<open>Properties\<close>

text \<open>
  Address translation. Addresses built from page numbers (those for which the address fits an
  int) translate back to exactly these page numbers, for every positive page size.
\<close>

theorem translation_inverts_build:
  assumes "0 < page_size" "\<And>p. p \<in> set pattern \<Longrightarrow> 0 \<le> p \<and> p * page_size + page_size div 2 \<le> INT_MAX"
  shows "\<exists>addrs. build_addresses_from_pages pattern page_size = Some addrs \<and>
    map (\<lambda>a. address_to_page a page_size) addrs = map Some pattern"
  using assms(2)
proof (induction pattern)
  case (Cons p ps)
  let ?a = "p * page_size + page_size sdiv 2"
  have half: "page_size sdiv 2 = page_size div 2" "0 \<le> page_size div 2" "page_size div 2 < page_size"
    using assms(1) by (simp_all add: signed_divide_int_def)
  have p: "0 \<le> p" "p * page_size + page_size div 2 \<le> INT_MAX" "0 \<le> p * page_size"
    using Cons.prems[of p] assms(1) by simp_all
  have "?a div page_size = p"
    using half(2,3) by (simp add: half(1))
  moreover have "?a sdiv page_size = ?a div page_size"
  proof -
    have "0 \<le> ?a"
      using p(3) half(1,2) by linarith
    then show ?thesis
      using assms(1) by (cases "?a = 0") (simp_all add: signed_divide_int_def)
  qed
  ultimately have "address_to_page ?a page_size = Some p"
    using assms(1) by (simp add: address_to_page_def)
  moreover have "in_int (p * page_size)" "in_int ?a"
  proof -
    have "INT_MIN \<le> 0"
      by (simp add: INT_MIN_def)
    then show "in_int (p * page_size)" "in_int ?a"
      unfolding in_int_def half(1) using p(2,3) half(2) by (intro conjI; linarith)+
  qed
  moreover obtain as where "build_addresses_from_pages ps page_size = Some as"
    "map (\<lambda>a. address_to_page a page_size) as = map Some ps"
    using Cons by auto
  ultimately show ?case
    by simp
qed simp

theorem translation_inverts_build_witness:
  "map (\<lambda>a. address_to_page a 4096) (the (build_addresses_from_pages pattern1 4096)) = map Some pattern1"
proof -
  have "0 \<le> p \<and> p * 4096 + 4096 div 2 \<le> INT_MAX" if "p \<in> set pattern1" for p
    using that by (auto simp: pattern1_def INT_MAX_def)
  from translation_inverts_build[of 4096, OF _ this] show ?thesis
    by fastforce
qed

text \<open>
  C21: FIFO is first-in first-out. On references to valid pages the simulation of \<open>run_fifo\<close> (frames
  in an array, a circular index) reports, access by access, the hits and faults of a queue of at
  most n pages whose oldest page leaves, and its summary counts them.
\<close>

theorem run_fifo_is_queue:
  assumes "translates page_size refs pages" "0 < n" "n \<le> MAX_FRAMES"
  shows "\<exists>as. run_fifo refs n page_size =
      Some (as, hits (fst (run_cmds queue_step pages (n, []))), faults (fst (run_cmds queue_step pages (n, [])))) \<and>
    map a_addr as = refs \<and> map a_page as = pages \<and> map a_hit as = fst (run_cmds queue_step pages (n, []))"
  using run_fifo_eq[OF assms refl] .

text \<open>
  C20: LRU keeps the most recently used pages. An access in \<open>run_lru\<close> hits exactly when its page is
  among the n pages used last before it (counting distinct pages), whatever happened earlier; the
  summary counts these hits, and every other access is a fault.
\<close>

theorem run_lru_hits_recent:
  assumes "translates page_size refs pages" "0 < n" "n \<le> MAX_FRAMES"
  shows "\<exists>as. run_lru refs n page_size = Some (as, hits (map a_hit as), faults (map a_hit as)) \<and>
    map a_page as = pages \<and>
    (\<forall>i < length pages. a_hit (as ! i) \<longleftrightarrow> pages ! i \<in> set (take n (rev (remdups (take i pages)))))"
proof -
  define hs where "hs = fst (run_cmds recency_step pages (n, []))"
  obtain as where as: "run_lru refs n page_size = Some (as, hits hs, faults hs)" "map a_page as = pages"
    "map a_hit as = hs"
    using run_lru_eq[OF assms hs_def] by blast
  have len: "length as = length pages"
    using as(2) by auto
  have "a_hit (as ! i) \<longleftrightarrow> pages ! i \<in> set (take n (rev (remdups (take i pages))))" if "i < length pages" for i
  proof -
    have "a_hit (as ! i) = hs ! i"
      using that len by (simp flip: as(3))
    then show ?thesis
      using that by (simp add: hs_def recency_run recent_def)
  qed
  then have "\<forall>i < length pages. a_hit (as ! i) \<longleftrightarrow> pages ! i \<in> set (take n (rev (remdups (take i pages))))"
    by blast
  then show ?thesis
    using as by (intro exI[of _ as]) (simp only: simp_thms)
qed

text \<open>
  More frames never hurt LRU. With more frames \<open>run_lru\<close> reports at least as many hits and at
  most as many faults on the same references.
\<close>

theorem lru_has_no_belady_anomaly:
  assumes "translates page_size refs pages" "0 < n" "n \<le> m" "m \<le> MAX_FRAMES"
    and "run_lru refs n page_size = Some (as, h, f)" "run_lru refs m page_size = Some (bs, h', f')"
  shows "h \<le> h' \<and> f' \<le> f"
proof -
  have eq: "h = hits (lru_hits n pages)" "f = faults (lru_hits n pages)"
    "h' = hits (lru_hits m pages)" "f' = faults (lru_hits m pages)"
    using run_lru_eq[OF assms(1,2) _ refl] run_lru_eq[OF assms(1) _ assms(4) refl] assms(2-6)
    by (auto simp: recency_run lru_hits_def)
  have "{i. i < length (lru_hits m pages) \<and> \<not> lru_hits m pages ! i} \<subseteq>
      {i. i < length (lru_hits n pages) \<and> \<not> lru_hits n pages ! i}"
    by (auto simp: lru_hits_def dest: subsetD[OF recent_subset(2)[OF assms(3)]])
  then have "f' \<le> f"
    unfolding eq faults_nth by (intro card_mono) auto
  moreover have "h + f = h' + f'"
    unfolding eq hits_faults by (simp add: lru_hits_def)
  ultimately show ?thesis
    by simp
qed

text \<open>
  Fault counts. In both simulations hits and faults add up to the number of references, every
  distinct page costs at least one fault, and with a frame for every distinct page there are no
  other faults, so the two algorithms then agree.
\<close>

theorem fault_bounds:
  assumes "translates page_size refs pages" "0 < n" "n \<le> MAX_FRAMES"
    and "run_fifo refs n page_size = Some (as, h, f)" "run_lru refs n page_size = Some (bs, h', f')"
  shows "h + f = length refs \<and> h' + f' = length refs \<and> card (set pages) \<le> f \<and> card (set pages) \<le> f' \<and>
    (card (set pages) \<le> n \<longrightarrow> f = card (set pages) \<and> f' = card (set pages))"
proof -
  have eq: "h = hits (fifo_hits n pages)" "f = faults (fifo_hits n pages)"
    "h' = hits (lru_hits n pages)" "f' = faults (lru_hits n pages)"
    using run_fifo_eq[OF assms(1-3) refl] run_lru_eq[OF assms(1-3) refl] assms(4,5)
    by (auto simp: recency_run lru_hits_def fifo_hits_def)
  have len: "length (lru_hits n pages) = length pages"
    by (simp add: lru_hits_def)
  have q: "set (snd (snd (run_cmds queue_step (take i pages) (n, [])))) \<subseteq> set (take i pages)" for i
    using queue_run[OF assms(2), of "take i pages"] by simp
  have small: "card (set (take i pages)) \<le> n" if "card (set pages) \<le> n" for i
    using that card_mono[of "set pages" "set (take i pages)"] set_take_subset[of i pages] by simp
  have "card (set pages) \<le> f" "card (set pages) \<le> f'"
    unfolding eq using q recent_subset(1)[of n]
    by (intro first_occurrences; fastforce simp: length_fifo_hits len fifo_hits_nth lru_hits_def)+
  moreover have "f = card (set pages)" if "card (set pages) \<le> n"
    unfolding eq using queue_run[OF assms(2)] small[OF that]
    by (intro only_first_occurrences) (simp_all add: length_fifo_hits fifo_hits_nth)
  moreover have "f' = card (set pages)" if "card (set pages) \<le> n"
  proof -
    have "recent n (take i pages) = rev (remdups (take i pages))" for i
      using small[OF that, of i] by (simp add: recent_def length_remdups_card_conv)
    then show ?thesis
      unfolding eq by (intro only_first_occurrences) (simp_all add: len, simp add: lru_hits_def)
  qed
  ultimately show ?thesis
    using translates_length[OF assms(1)] eq hits_faults by (auto simp: length_fifo_hits len)
qed

text \<open>
  The program's own test cases. On the reference string of test cases 1 and 2 FIFO faults 9
  times with three frames and 10 times with four (Belady's anomaly), LRU 10 and 8 times; on the
  locality-heavy string of test case 3 LRU and FIFO fault equally often.
\<close>

theorem test_case_results:
  "map (map_option snd) paging_main =
     [Some (3, 9), Some (2, 10), Some (2, 10), Some (4, 8), Some (6, 8), Some (6, 8)]"
  by code_simp

section \<open>Witnesses\<close>

definition demo_refs :: "int list" where
  "demo_refs = [6144, 10240, 6144, 14336, 10240]"

lemma demo_translates: "translates 4096 demo_refs [1, 2, 1, 3, 2]"
  by (simp add: translates_def demo_refs_def address_to_page_def signed_divide_int_def)

theorem run_fifo_is_queue_witness:
  "\<exists>as. run_fifo demo_refs 2 4096 = Some (as, 2, 3) \<and> map a_hit as = [False, False, True, False, True]"
  using run_fifo_is_queue[OF demo_translates, of 2]
  by (auto simp: MAX_FRAMES_def queue_step_def queue_access_def numeral_eq_Suc)

theorem run_lru_hits_recent_witness:
  "\<exists>as. run_lru demo_refs 2 4096 = Some (as, hits (map a_hit as), faults (map a_hit as)) \<and>
     a_hit (as ! 2) \<and> \<not> a_hit (as ! 4)"
proof -
  have "0 < (2::nat)" "2 \<le> MAX_FRAMES"
    by (simp_all add: MAX_FRAMES_def)
  from run_lru_hits_recent[OF demo_translates this] obtain as where "run_lru demo_refs 2 4096 = Some (as, hits (map a_hit as), faults (map a_hit as))"
    "\<forall>i < length [1, 2, 1, 3, 2::int]. a_hit (as ! i) \<longleftrightarrow>
       [1, 2, 1, 3, 2] ! i \<in> set (take 2 (rev (remdups (take i [1, 2, 1, 3, 2::int]))))"
    by blast
  then show ?thesis
    by (intro exI[of _ as]) (simp add: numeral_eq_Suc)
qed

lemma demo_lru_run:
  "0 < n \<Longrightarrow> n \<le> 16 \<Longrightarrow> \<exists>as h f. run_lru demo_refs n 4096 = Some (as, h, f)"
  using run_lru_eq[OF demo_translates, of n] by (auto simp: MAX_FRAMES_def)

theorem lru_has_no_belady_anomaly_witness:
  "\<exists>as bs h f h' f'. run_lru demo_refs 2 4096 = Some (as, h, f) \<and> run_lru demo_refs 3 4096 = Some (bs, h', f') \<and>
     h \<le> h' \<and> f' \<le> f"
proof -
  obtain as h f bs h' f' where r: "run_lru demo_refs 2 4096 = Some (as, h, f)" "run_lru demo_refs 3 4096 = Some (bs, h', f')"
    using demo_lru_run[of 2] demo_lru_run[of 3] by auto
  from lru_has_no_belady_anomaly[OF demo_translates _ _ _ this] show ?thesis
    unfolding r by (simp add: MAX_FRAMES_def)
qed

theorem fault_bounds_witness:
  "\<exists>as bs h h'. run_fifo demo_refs 3 4096 = Some (as, h, 3) \<and> run_lru demo_refs 3 4096 = Some (bs, h', 3)"
proof -
  obtain bs h' f' where l: "run_lru demo_refs 3 4096 = Some (bs, h', f')"
    using demo_lru_run[of 3] by auto
  obtain as h f where q: "run_fifo demo_refs 3 4096 = Some (as, h, f)"
    using run_fifo_eq[OF demo_translates _ _ refl, of 3] by (auto simp: MAX_FRAMES_def)
  have "{1, 2, 1, 3, 2::int} = {1, 2, 3}"
    by auto
  then have "card (set [1, 2, 1, 3, 2::int]) = 3"
    by simp
  with fault_bounds[OF demo_translates _ _ q l] show ?thesis
    unfolding q l by (simp add: MAX_FRAMES_def)
qed

end
