(* ===== verification/Paging_Competitive.thy ===== *)
theory Paging_Competitive
  imports Paging_Props
begin

text \<open>
  How far the two page-replacement algorithms of \<open>paging_sim.c\<close> are from the best possible: neither
  faults more than n times as often as any schedule for the same references, even one that knows
  them all in advance. The proof divides the references into phases of at most n distinct pages.
\<close>

section \<open>Schedules\<close>

text \<open>
  A schedule gives the set of resident pages after each reference: the page referenced is resident,
  at most n pages are, and only the page referenced is brought in.
\<close>

definition serves :: "nat \<Rightarrow> (nat \<Rightarrow> int set) \<Rightarrow> int list \<Rightarrow> bool" where
  "serves n D ps \<longleftrightarrow> D 0 = {} \<and>
     (\<forall>i<length ps. ps ! i \<in> D (Suc i) \<and> D (Suc i) \<subseteq> insert (ps ! i) (D i) \<and> card (D (Suc i)) \<le> n)"

definition sched_faults :: "(nat \<Rightarrow> int set) \<Rightarrow> int list \<Rightarrow> nat" where
  "sched_faults D ps = length (filter (\<lambda>i. ps ! i \<notin> D i) [0..<length ps])"

lemma serves_snoc:
  "serves n D (ps @ [p]) \<longleftrightarrow> serves n D ps \<and> p \<in> D (Suc (length ps)) \<and>
     D (Suc (length ps)) \<subseteq> insert p (D (length ps)) \<and> card (D (Suc (length ps))) \<le> n"
  by (auto simp: serves_def nth_append less_Suc_eq)

lemma sched_faults_snoc:
  "sched_faults D (ps @ [p]) = sched_faults D ps + (if p \<in> D (length ps) then 0 else 1)"
proof -
  have "filter (\<lambda>i. (ps @ [p]) ! i \<notin> D i) [0..<length ps] = filter (\<lambda>i. ps ! i \<notin> D i) [0..<length ps]"
    by (rule filter_cong) (simp_all add: nth_append)
  then show ?thesis
    by (simp add: sched_faults_def)
qed

lemma finite_schedule: "serves n D ps \<Longrightarrow> finite (D (length ps))"
proof (induction ps rule: rev_induct)
  case (snoc p ps)
  then show ?case
    by (auto simp: serves_snoc intro: finite_subset[of _ "insert p (D (length ps))"])
qed (simp add: serves_def)

section \<open>Phases\<close>

text \<open>The number of phases so far and the pages referenced in the current one.\<close>

definition phase_step :: "nat \<Rightarrow> int \<Rightarrow> nat \<times> int set \<Rightarrow> nat \<times> int set" where
  "phase_step n p a =
     (let (m, M) = a in
      if p \<in> M then (m, M) else if card M < n \<and> 0 < m then (m, insert p M) else (Suc m, {p}))"

definition phases :: "nat \<Rightarrow> int list \<Rightarrow> nat \<times> int set" where
  "phases n ps = fold (phase_step n) ps (0, {})"

lemma phases_snoc: "phases n (ps @ [p]) = phase_step n p (phases n ps)"
  by (simp add: phases_def)

lemma phases_card: "0 < n \<Longrightarrow> finite (snd (phases n ps)) \<and> card (snd (phases n ps)) \<le> n \<and>
  (fst (phases n ps) = 0 \<longleftrightarrow> snd (phases n ps) = {}) \<and> (ps \<noteq> [] \<longrightarrow> 0 < fst (phases n ps))"
  by (induction ps rule: rev_induct) (auto simp: phases_snoc phase_step_def split_beta Let_def, simp_all add: phases_def)

text \<open>
  Every schedule faults at least once per phase: when a phase has not yet cost it an extra fault,
  the pages of the phase and the resident pages together are at most n.
\<close>

lemma schedule_pays:
  assumes "0 < n" "serves n D ps"
  shows "fst (phases n ps) \<le> sched_faults D ps \<and>
    (fst (phases n ps) < sched_faults D ps \<or> card (snd (phases n ps) \<union> D (length ps)) \<le> n)"
  using assms(2)
proof (induction ps rule: rev_induct)
  case Nil
  then show ?case
    by (simp add: phases_def sched_faults_def serves_def)
next
  case (snoc p ps)
  define m M C C' where ph: "m = fst (phases n ps)" "M = snd (phases n ps)" "C = D (length ps)" "C' = D (Suc (length ps))"
  have s: "serves n D ps" "p \<in> C'" "C' \<subseteq> insert p C" "card C' \<le> n"
    using snoc.prems by (auto simp: serves_snoc ph)
  have IH: "m \<le> sched_faults D ps" "m < sched_faults D ps \<or> card (M \<union> C) \<le> n"
    using snoc.IH[OF s(1)] by (simp_all add: ph)
  have fin: "finite C" "finite M" "card M \<le> n" "finite C'"
    using finite_schedule[OF s(1)] finite_schedule[OF snoc.prems] phases_card[OF assms(1), of ps] by (simp_all add: ph)
  have step: "phases n (ps @ [p]) = phase_step n p (m, M)"
    by (simp add: phases_snoc ph)
  have f: "sched_faults D (ps @ [p]) = sched_faults D ps + (if p \<in> C then 0 else 1)"
    by (simp add: sched_faults_snoc ph)
  have hit: "card (insert p M \<union> C') \<le> n" if "p \<in> C" "card (M \<union> C) \<le> n"
  proof -
    have "insert p M \<union> C' \<subseteq> M \<union> C"
      using that(1) s(3) by auto
    then have "card (insert p M \<union> C') \<le> card (M \<union> C)"
      using fin by (intro card_mono) auto
    then show ?thesis
      using that(2) by simp
  qed
  have whole: "p \<in> M" if "card (M \<union> C) \<le> n" "card M = n" "p \<in> C"
    using that card_seteq[of "M \<union> C" M] fin by auto
  have start: "ps = []" if "m = 0"
    using that phases_card[OF assms(1), of ps] by (auto simp: ph)
  then have start: "C = {}" if "m = 0"
    using that s(1) by (simp add: ph serves_def)
  show ?case
  proof (cases "p \<in> M \<or> card M < n \<and> 0 < m")
    case True
    then have "phases n (ps @ [p]) = (m, insert p M)"
      by (auto simp: step phase_step_def)
    then show ?thesis
      using IH hit f by (auto simp: ph)
  next
    case False
    then have "phases n (ps @ [p]) = (Suc m, {p})"
      by (auto simp: step phase_step_def)
    moreover have "{p} \<union> C' = C'"
      using s(2) by auto
    moreover have "m < sched_faults D ps" if "p \<in> C"
      using False IH(2) whole start that fin(3) by fastforce
    ultimately show ?thesis
      using IH(1) f s(4) by (auto simp: ph)
  qed
qed

section \<open>LRU and FIFO pay at most n per phase\<close>

lemma lru_hits_snoc: "lru_hits n (ps @ [p]) = lru_hits n ps @ [p \<in> set (recent n ps)]"
proof -
  have "map (\<lambda>i. (ps @ [p]) ! i \<in> set (recent n (take i (ps @ [p])))) [0..<length ps] =
      map (\<lambda>i. ps ! i \<in> set (recent n (take i ps))) [0..<length ps]"
    by (intro map_cong) (simp_all add: nth_append)
  then show ?thesis
    by (simp add: lru_hits_def)
qed

lemma take_removeAll: "distinct xs \<Longrightarrow> p \<notin> set (take k xs) \<Longrightarrow> take k (removeAll p xs) = take k xs"
  by (induction xs arbitrary: k) (auto simp: take_Cons' split: if_splits)

lemma take_removeAll_in:
  "distinct xs \<Longrightarrow> p \<in> set (take (Suc k) xs) \<Longrightarrow> insert p (set (take k (removeAll p xs))) = set (take (Suc k) xs)"
proof (induction xs arbitrary: k)
  case (Cons x xs)
  then show ?case
    by (cases k) (auto simp: removeAll_id)
qed simp

text \<open>The pages of the current phase are the ones used last.\<close>

lemma phase_recent:
  assumes "0 < n"
  shows "snd (phases n ps) = set (take (card (snd (phases n ps))) (rev (remdups ps))) \<and>
    faults (lru_hits n ps) + n \<le> n * fst (phases n ps) + card (snd (phases n ps)) \<or> ps = []"
proof (induction ps rule: rev_induct)
  case (snoc p ps)
  define m M L k where ph: "m = fst (phases n ps)" "M = snd (phases n ps)" "L = rev (remdups ps)" "k = card M"
  have d: "distinct L" and L': "rev (remdups (ps @ [p])) = p # removeAll p L"
    by (simp_all add: ph remdups_snoc removeAll_filter_not_eq rev_filter)
  have fin: "finite M" "k \<le> n" "m = 0 \<longleftrightarrow> M = {}" "m = 0 \<Longrightarrow> ps = []"
    using phases_card[OF assms, of ps] by (auto simp: ph)
  have IH: "M = set (take k L)" "ps = [] \<or> faults (lru_hits n ps) + n \<le> n * m + k"
    using snoc by (auto simp: ph phases_def)
  have step: "phases n (ps @ [p]) = phase_step n p (m, M)"
    by (simp add: phases_snoc ph)
  have f: "faults (lru_hits n (ps @ [p])) = faults (lru_hits n ps) + (if p \<in> set (take n L) then 0 else 1)"
    by (simp add: lru_hits_snoc recent_def ph)
  have in_recent: "p \<in> set (take n L)" if "p \<in> M"
    using that IH(1) fin(2) set_take_subset_set_take[of k n L] by auto
  show ?case
  proof (cases "p \<in> M \<or> k < n \<and> 0 < m")
    case True
    then have "phases n (ps @ [p]) = (m, insert p M)"
      by (auto simp: step phase_step_def ph(4))
    moreover have "insert p M = set (take (card (insert p M)) (p # removeAll p L))"
    proof (cases "p \<in> M")
      case True
      then obtain j where j: "k = Suc j"
        using fin(1) by (cases k) (auto simp: ph(4))
      show ?thesis
        unfolding insert_absorb[OF True] ph(4)[symmetric] j
        using take_removeAll_in[OF d, of p j] IH(1) True j by simp
    next
      case False
      then have "card (insert p M) = Suc k"
        using fin(1) by (simp add: ph(4))
      moreover have "set (take (Suc k) (p # removeAll p L)) = insert p (set (take k L))"
        using take_removeAll[OF d, of p k] IH(1) False by auto
      ultimately show ?thesis
        by (simp only: IH(1)[symmetric])
    qed
    moreover have "faults (lru_hits n (ps @ [p])) + n \<le> n * m + card (insert p M)"
    proof -
      have "ps \<noteq> []"
        using True by (auto simp: ph phases_def)
      then have "faults (lru_hits n ps) + n \<le> n * m + k"
        using IH(2) by blast
      then show ?thesis
        unfolding f using in_recent fin(1) by (cases "p \<in> M") (simp_all add: insert_absorb ph(4))
    qed
    ultimately show ?thesis
      unfolding L' by (simp only: fst_conv snd_conv simp_thms)
  next
    case False
    then have "phases n (ps @ [p]) = (Suc m, {p})"
      by (auto simp: step phase_step_def ph(4))
    then show ?thesis
      using f IH(2) fin(2) unfolding L' by (auto simp: lru_hits_def)
  qed
qed simp


text \<open>The faults of FIFO in the current phase brought in pages that are at the end of the queue.\<close>

lemma phase_queue:
  assumes "0 < n"
  shows "\<exists>c. let q = snd (snd (run_cmds queue_step ps (n, []))) in
    c \<le> length q \<and> set (drop (length q - c) q) \<subseteq> snd (phases n ps) \<and>
    (faults (fifo_hits n ps) + n \<le> n * fst (phases n ps) + c \<or> ps = [])"
proof (induction ps rule: rev_induct)
  case (snoc p ps)
  define m M q where ph: "m = fst (phases n ps)" "M = snd (phases n ps)" "q = snd (snd (run_cmds queue_step ps (n, [])))"
  define q' where "q' = snd (snd (run_cmds queue_step (ps @ [p]) (n, [])))"
  have q': "q' = (if p \<in> set q then q else (if length q < n then q else tl q) @ [p])"
    using fifo_hits_snoc(2)[of ps n]
    by (simp add: q'_def run_cmds_append Let_def split_beta queue_step_def queue_access_def ph)
  have q: "distinct q" "length q \<le> n"
    using queue_run[OF assms, of ps] by (simp_all add: ph)
  have fin: "finite M" "card M \<le> n" "m = 0 \<longleftrightarrow> M = {}" "m = 0 \<Longrightarrow> ps = []"
    using phases_card[OF assms, of ps] by (auto simp: ph)
  obtain c where c: "c \<le> length q" "set (drop (length q - c) q) \<subseteq> M"
      "ps = [] \<or> faults (fifo_hits n ps) + n \<le> n * m + c"
    using snoc by (auto simp: ph Let_def phases_def)
  have step: "phases n (ps @ [p]) = phase_step n p (m, M)"
    by (simp add: phases_snoc ph)
  have f: "faults (fifo_hits n (ps @ [p])) = faults (fifo_hits n ps) + (if p \<in> set q then 0 else 1)"
    by (simp add: fifo_hits_snoc ph)
  have start: "p \<in> set q \<Longrightarrow> ps \<noteq> []" "0 < m \<Longrightarrow> ps \<noteq> []"
    by (auto simp: ph phases_def)
  have cn: "c \<le> card M"
    using card_mono[OF fin(1) c(2)] distinct_card[of "drop (length q - c) q"] q(1) c(1) by simp
  have more: "Suc c \<le> length q' \<and> set (drop (length q' - Suc c) q') \<subseteq> insert p M"
    if "p \<notin> set q" "p \<in> M \<or> card M < n"
  proof -
    have "c < n"
    proof (cases "p \<in> M")
      case True
      have "set (drop (length q - c) q) \<subseteq> M - {p}"
        using c(2) that(1) set_drop_subset[of "length q - c" q] by auto
      then have "c \<le> card (M - {p})"
        using card_mono[of "M - {p}" "set (drop (length q - c) q)"] fin(1) distinct_card[of "drop (length q - c) q"] q(1) c(1) by simp
      then show ?thesis
        using card_Diff1_less[OF fin(1) True] fin(2) by simp
    qed (use that cn in simp)
    define r where "r = (if length q < n then q else tl q)"
    have "drop (length (tl q) - c) (tl q) = drop (length q - c) q" if "length q = n"
    proof -
      have "length q - c = Suc (length (tl q) - c)"
        using \<open>c < n\<close> that by simp
      then show ?thesis
        by (simp add: drop_Suc)
    qed
    then have "drop (length r - c) r = drop (length q - c) q" "c \<le> length r"
      using c(1) q(2) \<open>c < n\<close> by (auto simp: r_def)
    moreover have "q' = r @ [p]"
      using q' that(1) by (simp add: r_def)
    ultimately show ?thesis
      using c(2) by auto
  qed
  have "\<exists>c. c \<le> length q' \<and> set (drop (length q' - c) q') \<subseteq> snd (phases n (ps @ [p])) \<and>
      faults (fifo_hits n (ps @ [p])) + n \<le> n * fst (phases n (ps @ [p])) + c"
  proof (cases "p \<in> M \<or> card M < n \<and> 0 < m")
    case True
    then have ps: "phases n (ps @ [p]) = (m, insert p M)"
      by (auto simp: step phase_step_def)
    show ?thesis
    proof (cases "p \<in> set q")
      case True
      then show ?thesis
        using c ps q' f start(1) by (intro exI[of _ c]) auto
    next
      case False
      then show ?thesis
        using more c(3) ps f True fin start(2) by (intro exI[of _ "Suc c"]) auto
    qed
  next
    case False
    then have ps: "phases n (ps @ [p]) = (Suc m, {p})"
      by (auto simp: step phase_step_def)
    show ?thesis
    proof (cases "p \<in> set q")
      case True
      then show ?thesis
        using c(3) ps f cn fin(2) by (intro exI[of _ 0]) (auto simp: ph)
    next
      case False
      then show ?thesis
        using c(3) ps f q' cn fin(2) by (intro exI[of _ 1]) (auto simp: fifo_hits_def)
    qed
  qed
  then show ?case
    by (auto simp: q'_def Let_def)
qed simp


section \<open>The bound\<close>

text \<open>
  C9: LRU and FIFO are n-competitive. Take any references to valid pages and any schedule of resident
  pages for them with n frames that loads pages on demand, for instance the best one for these
  references, chosen knowing all of them. Then each of \<open>run_lru\<close> and \<open>run_fifo\<close> reports at most n
  times as many faults as the schedule has.
\<close>

theorem lru_and_fifo_are_competitive:
  assumes "translates page_size refs pages" "0 < n" "n \<le> MAX_FRAMES"
    and "run_fifo refs n page_size = Some (as, h, f)" "run_lru refs n page_size = Some (bs, h', f')"
    and "serves n D pages"
  shows "f \<le> n * sched_faults D pages \<and> f' \<le> n * sched_faults D pages"
proof (cases "pages = []")
  case False
  have eq: "f = faults (fifo_hits n pages)" "f' = faults (lru_hits n pages)"
    using run_fifo_eq[OF assms(1-3) refl] run_lru_eq[OF assms(1-3) refl] assms(4,5)
    by (auto simp: recency_run lru_hits_def fifo_hits_def)
  have card: "card (snd (phases n pages)) \<le> n" "finite (snd (phases n pages))"
    using phases_card[OF assms(2), of pages] by auto
  obtain c where c: "f + n \<le> n * fst (phases n pages) + c" "c \<le> n"
  proof -
    define q where "q = snd (snd (run_cmds queue_step pages (n, [])))"
    obtain c where "c \<le> length q" "faults (fifo_hits n pages) + n \<le> n * fst (phases n pages) + c"
      using phase_queue[OF assms(2), of pages] False by (auto simp: q_def Let_def)
    then show thesis
      using that[of c] queue_run[OF assms(2), of pages] by (simp add: eq q_def)
  qed
  have "f' + n \<le> n * fst (phases n pages) + n"
    using phase_recent[OF assms(2), of pages] False card eq by simp
  then have "f \<le> n * fst (phases n pages)" "f' \<le> n * fst (phases n pages)"
    using c by simp_all
  moreover have "n * fst (phases n pages) \<le> n * sched_faults D pages"
    using schedule_pays[OF assms(2,6)] by simp
  ultimately show ?thesis
    using le_trans by blast
next
  case True
  then show ?thesis
    using run_fifo_eq[OF assms(1-3) refl] run_lru_eq[OF assms(1-3) refl] assms(4,5) by auto
qed

text \<open>The best schedule for the pages 1, 2, 1, 3, 2 with two frames drops page 1 for page 3.\<close>

theorem lru_and_fifo_are_competitive_witness:
  "\<exists>as h f bs h' f'. run_fifo demo_refs 2 4096 = Some (as, h, f) \<and> run_lru demo_refs 2 4096 = Some (bs, h', f') \<and>
     f \<le> 6 \<and> f' \<le> 6"
proof -
  let ?D = "\<lambda>i. [{}, {1}, {1, 2}, {1, 2}, {3, 2}, {3, 2}] ! i"
  have "serves 2 ?D [1, 2, 1, 3, 2]"
    by (auto simp: serves_def less_Suc_eq numeral_eq_Suc card_insert_if)
  moreover have "sched_faults ?D [1, 2, 1, 3, 2] = 3"
    by (simp add: sched_faults_def upt_rec numeral_eq_Suc)
  moreover obtain as h f where "run_fifo demo_refs 2 4096 = Some (as, h, f)"
    using run_fifo_eq[OF demo_translates _ _ refl, of 2] by (auto simp: MAX_FRAMES_def)
  moreover obtain bs h' f' where "run_lru demo_refs 2 4096 = Some (bs, h', f')"
    using demo_lru_run[of 2] by auto
  moreover note lru_and_fifo_are_competitive[OF demo_translates _ _ calculation(3,4,1)]
  ultimately show ?thesis
    by (auto simp: MAX_FRAMES_def)
qed

end
