(* ===== verification/Paging_Output.thy ===== *)
theory Paging_Output
  imports Paging_Props Complex_Main "HOL-Library.Code_Target_Nat"
begin

text \<open>
  The text the paging simulator prints (\<open>paging_sim.c\<close>): a line for each access with its columns
  and frames, and the summary with the hit and miss ratios. The ratios are quotients of doubles
  printed with two decimals. A finite double is \<open>m / 2 ^ k\<close> with at most 53 bits in \<open>m\<close>; division and
  printing round to nearest, ties to even, as IEEE 754 has it. For an empty list of references the
  ratio is 0/0: the text C prints for a NaN is up to the implementation, and a parameter.
\<close>

section \<open>Ratios\<close>

text \<open>\<open>p / q\<close> rounded to the nearest integer.\<close>

definition round_half_even :: "nat \<Rightarrow> nat \<Rightarrow> nat" where
  "round_half_even p q =
     (let d = p div q; r = p mod q in if 2 * r < q \<or> 2 * r = q \<and> even d then d else d + 1)"

text \<open>How often \<open>p / q\<close> is doubled until it has 53 bits before the point.\<close>

function scale_bits :: "nat \<Rightarrow> nat \<Rightarrow> nat \<Rightarrow> nat" where
  "scale_bits p q k = (if p = 0 \<or> 2 ^ 52 * q \<le> p then k else scale_bits (2 * p) q (k + 1))"
  by pat_completeness auto
termination
  by (relation "measure (\<lambda>(p, q, k). 2 ^ 52 * q - p)") auto

declare scale_bits.simps [simp del]

text \<open>
  The double nearest to \<open>p / q\<close> below \<open>2 ^ 53\<close>, as \<open>m\<close> and \<open>k\<close>. Neither an overflow nor a subnormal
  number can occur for the ratios of counts.
\<close>

definition double_div :: "nat \<Rightarrow> nat \<Rightarrow> nat \<times> nat" where
  "double_div p q = (let k = scale_bits p q 0 in (round_half_even (p * 2 ^ k) q, k))"

text \<open>The hundredths that \<open>%.2f\<close> shows of a double.\<close>

definition hundredths :: "nat \<times> nat \<Rightarrow> nat" where
  "hundredths d = (case d of (m, k) \<Rightarrow> round_half_even (100 * m) (2 ^ k))"

definition two_decimals :: "nat \<Rightarrow> string" where
  "two_decimals x = decimal (x div 100) @ ''.'' @ decimal (x div 10 mod 10) @ decimal (x mod 10)"

text \<open>\<open>100.0 * num / all_refs\<close>: the product of two integers below \<open>2 ^ 53\<close> is exact.\<close>

definition ratio_hundredths :: "nat \<Rightarrow> nat \<Rightarrow> nat" where
  "ratio_hundredths num all_refs = hundredths (double_div (100 * num) all_refs)"

definition ratio_text :: "string \<Rightarrow> nat \<Rightarrow> nat \<Rightarrow> string" where
  "ratio_text nan num all_refs = (if all_refs = 0 then nan else two_decimals (ratio_hundredths num all_refs))"

section \<open>Lines\<close>

text \<open>\<open>%-5d\<close> and \<open>%-3d\<close> fill up with blanks on the right.\<close>

definition pad_right :: "nat \<Rightarrow> string \<Rightarrow> string" where
  "pad_right width s = s @ replicate (width - length s) CHR '' ''"

definition frames_text :: "int option list \<Rightarrow> string" where
  "frames_text fs = ''[ '' @ concat (map (\<lambda>f. case f of None \<Rightarrow> ''_ '' | Some p \<Rightarrow> int_text p @ '' '') fs) @ '']''"

definition access_text :: "access \<Rightarrow> string" where
  "access_text a = ''Access addr='' @ pad_right 5 (int_text (a_addr a)) @ '' page='' @ pad_right 3 (int_text (a_page a)) @
     (if a_hit a then '' -> HIT   '' else '' -> FAULT '') @ frames_text (a_frames a) @ [NL]"

definition title_text :: "string \<Rightarrow> nat \<Rightarrow> string" where
  "title_text name n = [NL] @ ''--- '' @ name @ '' (frames = '' @ decimal n @ '') ---'' @ [NL]"

definition summary_text :: "string \<Rightarrow> string \<Rightarrow> nat \<Rightarrow> nat \<Rightarrow> string" where
  "summary_text nan name h f =
     (let all_refs = h + f in
      name @ '' summary: hits='' @ decimal h @ '' faults='' @ decimal f @
        '' hit_ratio='' @ ratio_text nan h all_refs @ ''% miss_ratio='' @ ratio_text nan f all_refs @ ''%'' @ [NL])"

definition run_text :: "string \<Rightarrow> string \<Rightarrow> nat \<Rightarrow> access list \<times> nat \<times> nat \<Rightarrow> string" where
  "run_text nan name n r =
     (case r of (as, h, f) \<Rightarrow> title_text name n @ concat (map access_text as) @ summary_text nan name h f)"

definition fifo_output :: "string \<Rightarrow> int list \<Rightarrow> nat \<Rightarrow> int \<Rightarrow> string option" where
  "fifo_output nan refs n page_size = map_option (run_text nan ''FIFO'' n) (run_fifo refs n page_size)"

definition lru_output :: "string \<Rightarrow> int list \<Rightarrow> nat \<Rightarrow> int \<Rightarrow> string option" where
  "lru_output nan refs n page_size = map_option (run_text nan ''LRU'' n) (run_lru refs n page_size)"

section \<open>The program\<close>

definition rule_text :: string where
  "rule_text = ''========================================='' @ [NL]"

text \<open>What \<open>main\<close> prints; \<open>None\<close> if one of its runs is undefined.\<close>

definition paging_main_output :: "string \<Rightarrow> string option" where
  "paging_main_output nan =
     (let page_size = 4096 in
      case (build_addresses_from_pages pattern1 page_size, build_addresses_from_pages pattern2 page_size) of
        (Some addrs1, Some addrs2) \<Rightarrow>
          map_option concat (those
            [Some (rule_text @ ''TEST CASE 1: reference string = 1,2,3,4,1,2,5,1,2,3,4,5'' @ [NL] @
               ''Page size = '' @ int_text page_size @ '' bytes'' @ [NL] @ rule_text),
             fifo_output nan addrs1 3 page_size, lru_output nan addrs1 3 page_size,
             Some ([NL] @ rule_text @ ''TEST CASE 2: same reference string, frames = 4'' @ [NL] @ rule_text),
             fifo_output nan addrs1 4 page_size, lru_output nan addrs1 4 page_size,
             Some ([NL] @ rule_text @ ''TEST CASE 3: locality-heavy pattern, frames = 3'' @ [NL] @
               ''Reference string = 1,2,3,1,2,3,1,2,3,4,5,1,2,3'' @ [NL] @ rule_text),
             fifo_output nan addrs2 3 page_size, lru_output nan addrs2 3 page_size])
      | _ \<Rightarrow> None)"

section \<open>Rounding\<close>

text \<open>The rounded quotient is at most one half away.\<close>

lemma round_half_even_near:
  assumes "0 < q"
  shows "2 * \<bar>int (q * round_half_even p q) - int p\<bar> \<le> int q"
proof -
  define d r where "d = p div q" and "r = p mod q"
  have "p = q * d + r" and r: "r < q"
    using assms by (simp_all add: d_def r_def)
  then have "int p = int q * int d + int r"
    by simp
  with r show ?thesis
    unfolding round_half_even_def Let_def d_def[symmetric] r_def[symmetric]
    by (auto simp: algebra_simps)
qed

lemma round_half_even_scale:
  assumes "0 < c"
  shows "round_half_even (c * p) (c * q) = round_half_even p q"
  using assms by (simp add: round_half_even_def Let_def mult.left_commute[of 2 c] flip: mult_mod_right)

lemma scale_bits_spec:
  assumes "0 < p"
  shows "k \<le> scale_bits p q k \<and> 2 ^ 52 * q \<le> p * 2 ^ (scale_bits p q k - k)"
  using assms
proof (induction p q k rule: scale_bits.induct)
  case (1 p q k)
  show ?case
  proof (cases "2 ^ 52 * q \<le> p")
    case True
    then show ?thesis
      by (subst (1 2) scale_bits.simps) simp
  next
    case False
    define j where "j = scale_bits (2 * p) q (k + 1)"
    have IH: "k + 1 \<le> j" "2 ^ 52 * q \<le> 2 * p * 2 ^ (j - (k + 1))"
      using 1 False by (auto simp: j_def)
    have "j - k = Suc (j - (k + 1))"
      using IH(1) by simp
    then have "2 * p * 2 ^ (j - (k + 1)) = p * 2 ^ (j - k)"
      by simp
    moreover have "k \<le> j"
      using IH(1) by simp
    moreover have "scale_bits p q k = j"
      using False 1(2) by (subst scale_bits.simps) (simp add: j_def)
    ultimately show ?thesis
      using IH by (simp only:)
  qed
qed

text \<open>
  The printed ratio is a nearest number with two decimals, for all counts an \<open>int\<close> can hold: the
  error of the division is too small to carry the second rounding to another number.
\<close>

lemma ratio_near:
  assumes "0 < t" "h < 2 ^ 31"
  shows "\<bar>2 * int t * int (ratio_hundredths h t) - 20000 * int h\<bar> \<le> int t"
proof -
  define k where "k = scale_bits (100 * h) t 0"
  define m where "m = round_half_even (100 * h * 2 ^ k) t"
  define x where "x = ratio_hundredths h t"
  define K T :: int where "K = 2 ^ k" and "T = int t"
  define D where "D = 2 * T * int x - 20000 * int h"
  have x: "x = round_half_even (100 * m) (2 ^ k)"
    by (simp add: x_def ratio_hundredths_def hundredths_def double_div_def Let_def m_def k_def)
  have K: "0 < K" and T: "0 < T"
    using assms(1) by (simp_all add: K_def T_def)
  define A B where "A = K * int x - 100 * int m" and "B = T * int m - 100 * int h * K"
  have B: "2 * \<bar>B\<bar> \<le> T"
    using round_half_even_near[OF assms(1), of "100 * h * 2 ^ k"] by (simp add: B_def m_def T_def K_def)
  have A: "2 * \<bar>A\<bar> \<le> K"
    using round_half_even_near[of "2 ^ k" "100 * m"] by (simp add: A_def x K_def)
  have "D * K = T * (2 * A) + 200 * B"
    by (simp add: A_def B_def D_def algebra_simps)
  then have "\<bar>D * K\<bar> \<le> \<bar>T * (2 * A)\<bar> + \<bar>200 * B\<bar>"
    by linarith
  also have "\<dots> \<le> T * K + 100 * T"
  proof (rule add_mono)
    show "\<bar>T * (2 * A)\<bar> \<le> T * K"
      using A T by (simp add: abs_mult)
    show "\<bar>200 * B\<bar> \<le> 100 * T"
      using B by (simp add: abs_mult)
  qed
  finally have DK: "\<bar>D\<bar> * K \<le> T * K + 100 * T"
    using K by (simp add: abs_mult)
  have "\<bar>D\<bar> \<le> T"
  proof (cases "h = 0")
    case True
    then have "x = 0"
      by (simp add: x k_def m_def scale_bits.simps round_half_even_def assms(1))
    then show ?thesis
      using True T by (simp add: D_def)
  next
    case False
    show ?thesis
    proof (rule ccontr)
      assume "\<not> \<bar>D\<bar> \<le> T"
      then have "(T + 1) * K \<le> \<bar>D\<bar> * K"
        using K by (intro mult_right_mono) auto
      then have "K \<le> 100 * T"
        using DK by (simp add: algebra_simps)
      have "2 ^ 52 * t \<le> 100 * h * 2 ^ k"
        using scale_bits_spec[of "100 * h" 0 t] False by (simp add: k_def)
      then have "int (2 ^ 52 * t) \<le> int (100 * h * 2 ^ k)"
        by (simp only: of_nat_le_iff)
      then have "2 ^ 52 * T \<le> 100 * int h * K"
        by (simp add: T_def K_def)
      also have "\<dots> \<le> 100 * int h * (100 * T)"
        using \<open>K \<le> 100 * T\<close> by (intro mult_left_mono) auto
      also have "\<dots> = (10000 * int h) * T"
        by simp
      finally have "2 ^ 52 \<le> 10000 * int h"
        using T by (simp only: mult_le_cancel_right)
      then show False
        using assms(2) by simp
    qed
  qed
  then show ?thesis
    by (simp add: D_def x_def T_def)
qed

text \<open>Rounding is symmetric about the middle of an even number of units.\<close>

lemma round_half_even_complement:
  assumes "0 < q" "p \<le> n * q" "even n"
  shows "round_half_even p q + round_half_even (n * q - p) q = n"
proof -
  define d r where "d = p div q" and "r = p mod q"
  have p: "p = q * d + r" "r < q"
    using assms(1) by (simp_all add: d_def r_def)
  show ?thesis
  proof (cases "r = 0")
    case True
    have "d \<le> n"
      using assms(1,2) p True by (simp add: mult.commute)
    moreover have "n * q - p = q * (n - d)"
      using p True by (simp add: algebra_simps diff_mult_distrib2)
    ultimately show ?thesis
      using assms(1) p True by (simp add: round_half_even_def)
  next
    case False
    have "d < n"
    proof (rule ccontr)
      assume "\<not> d < n"
      then have "n * q \<le> d * q"
        by simp
      moreover have "d * q < p"
        using p False by (simp add: mult.commute)
      ultimately show False
        using assms(2) by linarith
    qed
    then obtain e where e: "n = Suc (d + e)"
      using less_imp_Suc_add by blast
    have "n * q - p = q * e + (q - r)" "q - r < q"
      using p False assms(1) by (simp_all add: e algebra_simps)
    then have "(n * q - p) div q = e" "(n * q - p) mod q = q - r"
      using assms(1) by simp_all
    moreover have "even d \<longleftrightarrow> odd e"
      using assms(3) by (simp add: e)
    ultimately show ?thesis
      using p e by (auto simp: round_half_even_def Let_def d_def[symmetric] r_def[symmetric])
  qed
qed

text \<open>A quotient that is a double is printed as the rounded quotient itself.\<close>

lemma ratio_exact:
  assumes "0 < t" "0 < h" "h \<le> t" "t dvd 800 * h"
  shows "ratio_hundredths h t = round_half_even (10000 * h) t"
proof -
  define k where "k = scale_bits (100 * h) t 0"
  have "2 ^ 52 * t \<le> 100 * h * 2 ^ k"
    using scale_bits_spec[of "100 * h" 0 t] assms(2) by (simp add: k_def)
  also have "\<dots> \<le> 100 * t * 2 ^ k"
    using assms(3) by simp
  finally have "2 ^ 52 * t \<le> (100 * 2 ^ k) * t"
    by (simp add: mult_ac)
  then have big: "2 ^ 52 \<le> 100 * (2 ^ k :: nat)"
    using assms(1) by (simp only: mult_le_cancel2)
  have "3 \<le> k"
  proof (rule ccontr)
    assume "\<not> 3 \<le> k"
    then have "(2 :: nat) ^ k \<le> 2 ^ 3"
      by (intro power_increasing) auto
    then show False
      using big by simp
  qed
  then have "(2 :: nat) ^ k = 8 * 2 ^ (k - 3)"
    using power_add[of "2 :: nat" 3 "k - 3"] by simp
  then have "100 * h * 2 ^ k = (800 * h) * 2 ^ (k - 3)"
    by simp
  then obtain m where m: "100 * h * 2 ^ k = t * m"
    using assms(4) by (metis dvd_def dvd_mult2)
  then have "round_half_even (100 * h * 2 ^ k) t = m"
    using assms(1) by (simp add: round_half_even_def)
  then have "ratio_hundredths h t = round_half_even (100 * m) (2 ^ k)"
    by (simp add: ratio_hundredths_def double_div_def hundredths_def Let_def k_def[symmetric])
  also have "\<dots> = round_half_even (t * (100 * m)) (t * 2 ^ k)"
    by (rule round_half_even_scale[OF assms(1), symmetric])
  also have "t * (100 * m) = 2 ^ k * (10000 * h)"
    using m by (simp add: algebra_simps)
  also have "round_half_even (2 ^ k * (10000 * h)) (t * 2 ^ k) = round_half_even (10000 * h) t"
    using round_half_even_scale[of "2 ^ k" "10000 * h" t] by (simp add: mult.commute)
  finally show ?thesis .
qed

lemma cancel_fives:
  assumes "\<not> 5 dvd w" "w dvd 5 ^ n * (m :: nat)"
  shows "w dvd m"
proof -
  have "w mod 5 < 5" "w mod 5 \<noteq> 0"
    using assms(1) by (simp_all add: dvd_eq_mod_eq_0)
  then have "w mod 5 = 1 \<or> w mod 5 = 2 \<or> w mod 5 = 3 \<or> w mod 5 = 4"
    by linarith
  moreover have "gcd (5 :: nat) 1 = 1" "gcd (5 :: nat) 2 = 1" "gcd (5 :: nat) 3 = 1" "gcd (5 :: nat) 4 = 1"
    by code_simp+
  ultimately have "gcd 5 w = 1"
    by (metis gcd_red_nat gcd.commute)
  then have "coprime w 5"
    by (simp only: coprime_iff_gcd_eq_1 gcd.commute)
  then have "coprime w (5 ^ n)"
    by (simp add: coprime_power_right_iff)
  then show ?thesis
    using assms(2) by (simp add: coprime_dvd_mult_right_iff)
qed

text \<open>With fewer than 4000 references every tie between two decimals is such a quotient.\<close>

lemma tie_is_double:
  fixes t j h :: nat
  assumes "t * j = 20000 * h" "odd j" "0 < t" "t < 4000"
  shows "t dvd 800 * h"
proof -
  have "(32 :: nat) dvd t * j"
    unfolding assms(1) by (rule dvd_mult2) simp
  moreover have "coprime 32 j"
    using assms(2) coprime_power_left_iff[of 2 5 j] by simp
  ultimately have "32 dvd t"
    by (simp add: coprime_dvd_mult_left_iff)
  then obtain u where u: "t = 32 * u"
    by blast
  then have uj: "u * j = 625 * h" "0 < u" "u < 125"
    using assms by (auto simp: mult.commute)
  have "u dvd 25 * h"
  proof (cases "5 dvd u")
    case False
    then show ?thesis
      using cancel_fives[of u 4 h] dvd_triv_left[of u j] unfolding uj(1) by simp
  next
    case True
    then obtain v where v: "u = 5 * v"
      by blast
    show ?thesis
    proof (cases "5 dvd v")
      case False
      moreover have "v dvd 5 ^ 3 * h"
        using uj(1) unfolding v by (intro dvdI[of _ _ j]) (simp add: mult.commute)
      ultimately show ?thesis
        unfolding v using cancel_fives[of v 3 h] mult_dvd_mono[of 5 25 v h] by simp
    next
      case True
      then obtain w where w: "v = 5 * w"
        by blast
      have "\<not> 5 dvd w"
        using uj(2,3) unfolding v w by (auto elim!: dvdE)
      moreover have "w dvd 5 ^ 2 * h"
        using uj(1) unfolding v w by (intro dvdI[of _ _ j]) (simp add: mult.commute)
      ultimately show ?thesis
        unfolding v w using cancel_fives[of w 2 h] mult_dvd_mono[of 25 25 w h] by simp
    qed
  qed
  then show ?thesis
    unfolding u using mult_dvd_mono[of 32 32 u "25 * h"] by simp
qed

lemma ratios_add_up:
  assumes "0 < t" "h + f = t" "t < 2 ^ 31"
  shows "\<bar>int (ratio_hundredths h t + ratio_hundredths f t) - 10000\<bar> \<le> 1"
    and "t < 4000 \<Longrightarrow> ratio_hundredths h t + ratio_hundredths f t = 10000"
proof -
  define x y where "x = int (ratio_hundredths h t)" and "y = int (ratio_hundredths f t)"
  define X Y where "X = 2 * int t * x - 20000 * int h" and "Y = 2 * int t * y - 20000 * int f"
  have XY: "\<bar>X\<bar> \<le> int t" "\<bar>Y\<bar> \<le> int t"
    using ratio_near[OF assms(1), of h] ratio_near[OF assms(1), of f] assms(2,3)
    by (simp_all add: X_def Y_def x_def y_def)
  have h: "int h + int f = int t"
    using assms(2) by (simp flip: of_nat_add)
  have "X + Y = 2 * int t * (x + y) - 20000 * (int h + int f)"
    by (simp add: X_def Y_def algebra_simps)
  then have sum: "X + Y = 2 * int t * (x + y - 10000)"
    unfolding h by (simp add: algebra_simps)
  then have abs_sum: "\<bar>X + Y\<bar> = 2 * int t * \<bar>x + y - 10000\<bar>"
    by (simp add: abs_mult)
  then have "2 * int t * \<bar>x + y - 10000\<bar> \<le> 2 * int t * 1"
    using XY by linarith
  then have "\<bar>x + y - 10000\<bar> \<le> 1"
    using assms(1) by (simp only: mult_le_cancel_left)
  then show near: "\<bar>int (ratio_hundredths h t + ratio_hundredths f t) - 10000\<bar> \<le> 1"
    by (simp add: x_def y_def)
  assume small: "t < 4000"
  show "ratio_hundredths h t + ratio_hundredths f t = 10000"
  proof (cases "\<bar>X\<bar> = int t")
    case False
    then have "\<bar>X + Y\<bar> < 2 * int t"
      using XY by linarith
    then have "2 * int t * \<bar>x + y - 10000\<bar> < 2 * int t * 1"
      by (simp only: abs_sum mult.right_neutral)
    then have "x + y = 10000"
      using assms(1) by (simp only: mult_less_cancel_left) auto
    then show ?thesis
      by (simp add: x_def y_def)
  next
    case True
    then have "int t * (2 * x - 1) = 20000 * int h \<or> int t * (2 * x + 1) = 20000 * int h"
      by (auto simp: X_def algebra_simps abs_if split: if_splits)
    moreover have "odd (2 * x - 1)" "odd (2 * x + 1)"
      by simp_all
    ultimately obtain j where j: "int t * j = 20000 * int h" "odd j"
      by blast
    have "0 \<le> j"
    proof (rule ccontr)
      assume "\<not> 0 \<le> j"
      then have "int t * j < 0"
        using assms(1) by (intro mult_pos_neg) auto
      then show False
        using j(1) by simp
    qed
    then obtain i where i: "j = int i"
      using nonneg_int_cases by blast
    then have "int (t * i) = int (20000 * h)"
      using j(1) by simp
    then have ti: "t * i = 20000 * h" "odd i"
      using j(2) i by (simp_all only: of_nat_eq_iff) simp
    have "0 < h"
      using ti assms(1) by (cases "h = 0") auto
    have "0 < f"
    proof (rule ccontr)
      assume "\<not> 0 < f"
      then have "t * i = t * 20000"
        using ti(1) assms(2) by (simp add: mult.commute)
      then have "i = 20000"
        using assms(1) by (simp only: nat_mult_eq_cancel1)
      then show False
        using ti(2) by simp
    qed
    have th: "t dvd 800 * h"
      by (rule tie_is_double[OF ti assms(1) small])
    have tf: "t dvd 800 * f"
    proof -
      have "800 * h + 800 * f = 800 * t"
        using assms(2) by simp
      then have "t dvd 800 * h + 800 * f"
        by simp
      then show ?thesis
        using th dvd_add_right_iff by blast
    qed
    have "10000 * f = 10000 * t - 10000 * h"
      using assms(2) by simp
    then have "round_half_even (10000 * h) t + round_half_even (10000 * f) t = 10000"
      using round_half_even_complement[OF assms(1), of "10000 * h" 10000] assms(2) by simp
    then show ?thesis
      using ratio_exact[OF assms(1) \<open>0 < h\<close> _ th] ratio_exact[OF assms(1) \<open>0 < f\<close> _ tf] assms(2) by simp
  qed
qed

section \<open>Summaries\<close>

text \<open>Every access is counted once.\<close>

lemma fifo_access_counts:
  "fifo_access page s = (hit, s1) \<Longrightarrow> page_hits (ft s1) + page_faults (ft s1) = page_hits (ft s) + page_faults (ft s) + 1"
  by (auto simp: fifo_access_def Let_def split: if_splits)

lemma fifo_counts:
  "fifo_loop page_size refs s = Some (as, s1) \<Longrightarrow>
   page_hits (ft s1) + page_faults (ft s1) = page_hits (ft s) + page_faults (ft s) + length refs"
proof (induction page_size refs s arbitrary: as s1 rule: fifo_loop.induct)
  case (2 page_size addr refs s)
  then obtain page bs where p: "address_to_page addr page_size = Some page"
      "fifo_loop page_size refs (snd (fifo_access page s)) = Some (bs, s1)"
      "\<not> (num_frames (ft s) = 0 \<or> MAX_FRAMES < num_frames (ft s))"
    by (auto simp: Let_def split_beta split: if_splits option.splits)
  show ?case
    using 2(1)[OF p(3,1) refl prod.collapse p(2)] fifo_access_counts[OF prod.collapse[symmetric], of page s] by simp
qed simp

lemma lru_access_counts:
  "lru_access page s = (hit, s1) \<Longrightarrow> l_hits s1 + l_faults s1 = l_hits s + l_faults s + 1"
  by (auto simp: lru_access_def Let_def split: if_splits)

lemma lru_counts:
  "lru_loop page_size refs s = Some (as, s1) \<Longrightarrow> l_hits s1 + l_faults s1 = l_hits s + l_faults s + length refs"
proof (induction page_size refs s arbitrary: as s1 rule: lru_loop.induct)
  case (2 page_size addr refs s)
  then obtain page bs where p: "address_to_page addr page_size = Some page"
      "lru_loop page_size refs (snd (lru_access page s)) = Some (bs, s1)" "\<not> MAX_FRAMES < l_num s"
    by (auto simp: Let_def split_beta split: if_splits option.splits)
  show ?case
    using 2(1)[OF p(3,1) refl prod.collapse p(2)] lru_access_counts[OF prod.collapse[symmetric], of page s] by simp
qed simp

lemma output_run:
  assumes "fifo_output nan refs n page_size = Some printed_text \<and> name = ''FIFO'' \<or>
    lru_output nan refs n page_size = Some printed_text \<and> name = ''LRU''"
  shows "\<exists>as h f. h + f = length refs \<and> printed_text = run_text nan name n (as, h, f)"
  using assms fifo_counts[of page_size refs "fifo_init n"] lru_counts[of page_size refs "lru_init n"]
  by (fastforce simp: fifo_output_def lru_output_def run_fifo_def run_lru_def fifo_init_def lru_init_def)

text \<open>
  C22: The printed ratios are right. The output of a run ends with a line that counts every access once,
  as a hit or a fault. The two percentages on it are nearest to the exact ratios among the numbers
  with two decimals, although they went through two roundings; their sum is at most one hundredth
  off 100, and exactly 100.00 for fewer than 4000 references. Without any reference both are the text
  of a NaN.
\<close>

theorem printed_ratios:
  assumes "fifo_output nan refs n page_size = Some printed_text \<and> name = ''FIFO'' \<or>
      lru_output nan refs n page_size = Some printed_text \<and> name = ''LRU''"
    and "length refs < 2 ^ 31"
  shows "\<exists>before h f hit_ratio miss_ratio. h + f = length refs \<and>
    printed_text = before @ name @ '' summary: hits='' @ decimal h @ '' faults='' @ decimal f @
      '' hit_ratio='' @ hit_ratio @ ''% miss_ratio='' @ miss_ratio @ ''%'' @ [NL] \<and>
    (if refs = [] then hit_ratio = nan \<and> miss_ratio = nan
     else \<exists>x y. hit_ratio = two_decimals x \<and> miss_ratio = two_decimals y \<and>
       \<bar>real x / 100 - 100 * real h / real (length refs)\<bar> \<le> 1 / 200 \<and>
       \<bar>real y / 100 - 100 * real f / real (length refs)\<bar> \<le> 1 / 200 \<and>
       \<bar>int (x + y) - 10000\<bar> \<le> 1 \<and> (length refs < 4000 \<longrightarrow> x + y = 10000))"
proof -
  obtain as h f where r: "h + f = length refs" "printed_text = run_text nan name n (as, h, f)"
    using output_run[OF assms(1)] by blast
  have near: "\<bar>real (ratio_hundredths c t) / 100 - 100 * real c / real t\<bar> \<le> 1 / 200" if "0 < t" "c < 2 ^ 31" for c t
  proof -
    have "\<bar>2 * real t * real (ratio_hundredths c t) - 20000 * real c\<bar> \<le> real t"
      using ratio_near[OF that] unfolding of_int_le_iff[where 'a = real, symmetric] by simp
    moreover have "real (ratio_hundredths c t) / 100 - 100 * real c / real t =
        (2 * real t * real (ratio_hundredths c t) - 20000 * real c) / (200 * real t)"
      using that(1) by (simp add: field_simps)
    ultimately show ?thesis
      using that(1) by (simp add: abs_mult divide_le_eq)
  qed
  have lt: "h < 2 ^ 31" "f < 2 ^ 31"
    using r(1) assms(2) by simp_all
  have shown: "printed_text = (title_text name n @ concat (map access_text as)) @ name @ '' summary: hits='' @ decimal h @
      '' faults='' @ decimal f @ '' hit_ratio='' @ ratio_text nan h (length refs) @ ''% miss_ratio='' @
      ratio_text nan f (length refs) @ ''%'' @ [NL]"
    unfolding r(2) run_text_def summary_text_def Let_def r(1)[symmetric] by (simp only: prod.case append_assoc)
  have ratios: "if refs = [] then ratio_text nan h (length refs) = nan \<and> ratio_text nan f (length refs) = nan
     else \<exists>x y. ratio_text nan h (length refs) = two_decimals x \<and> ratio_text nan f (length refs) = two_decimals y \<and>
       \<bar>real x / 100 - 100 * real h / real (length refs)\<bar> \<le> 1 / 200 \<and>
       \<bar>real y / 100 - 100 * real f / real (length refs)\<bar> \<le> 1 / 200 \<and>
       \<bar>int (x + y) - 10000\<bar> \<le> 1 \<and> (length refs < 4000 \<longrightarrow> x + y = 10000)"
  proof (cases "refs = []")
    case False
    then have "0 < length refs"
      by simp
    note near[OF this lt(1)] near[OF this lt(2)] ratios_add_up[OF this r(1) assms(2)]
    then show ?thesis
      using False by (auto simp only: ratio_text_def if_False length_0_conv simp_thms intro!: exI)
  qed (simp add: ratio_text_def)
  show ?thesis
    by (rule exI, rule exI, rule exI, rule exI, rule exI, rule conjI, rule r(1), rule conjI, rule shown, rule ratios)
qed

section \<open>The test cases\<close>

definition lines_text :: "string list \<Rightarrow> string" where
  "lines_text ls = concat (map (\<lambda>l. l @ [NL]) ls)"

lemma lines_text_append: "lines_text (xs @ ys) = lines_text xs @ lines_text ys"
  by (simp add: lines_text_def)

text \<open>The lines expected of the six runs.\<close>

definition case1_fifo :: "string list" where
  "case1_fifo =
    [[],
     ''--- FIFO (frames = 3) ---'',
     ''Access addr=6144  page=1   -> FAULT [ 1 _ _ ]'',
     ''Access addr=10240 page=2   -> FAULT [ 1 2 _ ]'',
     ''Access addr=14336 page=3   -> FAULT [ 1 2 3 ]'',
     ''Access addr=18432 page=4   -> FAULT [ 4 2 3 ]'',
     ''Access addr=6144  page=1   -> FAULT [ 4 1 3 ]'',
     ''Access addr=10240 page=2   -> FAULT [ 4 1 2 ]'',
     ''Access addr=22528 page=5   -> FAULT [ 5 1 2 ]'',
     ''Access addr=6144  page=1   -> HIT   [ 5 1 2 ]'',
     ''Access addr=10240 page=2   -> HIT   [ 5 1 2 ]'',
     ''Access addr=14336 page=3   -> FAULT [ 5 3 2 ]'',
     ''Access addr=18432 page=4   -> FAULT [ 5 3 4 ]'',
     ''Access addr=22528 page=5   -> HIT   [ 5 3 4 ]'',
     ''FIFO summary: hits=3 faults=9 hit_ratio=25.00% miss_ratio=75.00%'']"

definition case1_lru :: "string list" where
  "case1_lru =
    [[],
     ''--- LRU (frames = 3) ---'',
     ''Access addr=6144  page=1   -> FAULT [ 1 _ _ ]'',
     ''Access addr=10240 page=2   -> FAULT [ 1 2 _ ]'',
     ''Access addr=14336 page=3   -> FAULT [ 1 2 3 ]'',
     ''Access addr=18432 page=4   -> FAULT [ 4 2 3 ]'',
     ''Access addr=6144  page=1   -> FAULT [ 4 1 3 ]'',
     ''Access addr=10240 page=2   -> FAULT [ 4 1 2 ]'',
     ''Access addr=22528 page=5   -> FAULT [ 5 1 2 ]'',
     ''Access addr=6144  page=1   -> HIT   [ 5 1 2 ]'',
     ''Access addr=10240 page=2   -> HIT   [ 5 1 2 ]'',
     ''Access addr=14336 page=3   -> FAULT [ 3 1 2 ]'',
     ''Access addr=18432 page=4   -> FAULT [ 3 4 2 ]'',
     ''Access addr=22528 page=5   -> FAULT [ 3 4 5 ]'',
     ''LRU summary: hits=2 faults=10 hit_ratio=16.67% miss_ratio=83.33%'']"

definition case2_fifo :: "string list" where
  "case2_fifo =
    [[],
     ''--- FIFO (frames = 4) ---'',
     ''Access addr=6144  page=1   -> FAULT [ 1 _ _ _ ]'',
     ''Access addr=10240 page=2   -> FAULT [ 1 2 _ _ ]'',
     ''Access addr=14336 page=3   -> FAULT [ 1 2 3 _ ]'',
     ''Access addr=18432 page=4   -> FAULT [ 1 2 3 4 ]'',
     ''Access addr=6144  page=1   -> HIT   [ 1 2 3 4 ]'',
     ''Access addr=10240 page=2   -> HIT   [ 1 2 3 4 ]'',
     ''Access addr=22528 page=5   -> FAULT [ 5 2 3 4 ]'',
     ''Access addr=6144  page=1   -> FAULT [ 5 1 3 4 ]'',
     ''Access addr=10240 page=2   -> FAULT [ 5 1 2 4 ]'',
     ''Access addr=14336 page=3   -> FAULT [ 5 1 2 3 ]'',
     ''Access addr=18432 page=4   -> FAULT [ 4 1 2 3 ]'',
     ''Access addr=22528 page=5   -> FAULT [ 4 5 2 3 ]'',
     ''FIFO summary: hits=2 faults=10 hit_ratio=16.67% miss_ratio=83.33%'']"

definition case2_lru :: "string list" where
  "case2_lru =
    [[],
     ''--- LRU (frames = 4) ---'',
     ''Access addr=6144  page=1   -> FAULT [ 1 _ _ _ ]'',
     ''Access addr=10240 page=2   -> FAULT [ 1 2 _ _ ]'',
     ''Access addr=14336 page=3   -> FAULT [ 1 2 3 _ ]'',
     ''Access addr=18432 page=4   -> FAULT [ 1 2 3 4 ]'',
     ''Access addr=6144  page=1   -> HIT   [ 1 2 3 4 ]'',
     ''Access addr=10240 page=2   -> HIT   [ 1 2 3 4 ]'',
     ''Access addr=22528 page=5   -> FAULT [ 1 2 5 4 ]'',
     ''Access addr=6144  page=1   -> HIT   [ 1 2 5 4 ]'',
     ''Access addr=10240 page=2   -> HIT   [ 1 2 5 4 ]'',
     ''Access addr=14336 page=3   -> FAULT [ 1 2 5 3 ]'',
     ''Access addr=18432 page=4   -> FAULT [ 1 2 4 3 ]'',
     ''Access addr=22528 page=5   -> FAULT [ 5 2 4 3 ]'',
     ''LRU summary: hits=4 faults=8 hit_ratio=33.33% miss_ratio=66.67%'']"

definition case3_fifo :: "string list" where
  "case3_fifo =
    [[],
     ''--- FIFO (frames = 3) ---'',
     ''Access addr=6144  page=1   -> FAULT [ 1 _ _ ]'',
     ''Access addr=10240 page=2   -> FAULT [ 1 2 _ ]'',
     ''Access addr=14336 page=3   -> FAULT [ 1 2 3 ]'',
     ''Access addr=6144  page=1   -> HIT   [ 1 2 3 ]'',
     ''Access addr=10240 page=2   -> HIT   [ 1 2 3 ]'',
     ''Access addr=14336 page=3   -> HIT   [ 1 2 3 ]'',
     ''Access addr=6144  page=1   -> HIT   [ 1 2 3 ]'',
     ''Access addr=10240 page=2   -> HIT   [ 1 2 3 ]'',
     ''Access addr=14336 page=3   -> HIT   [ 1 2 3 ]'',
     ''Access addr=18432 page=4   -> FAULT [ 4 2 3 ]'',
     ''Access addr=22528 page=5   -> FAULT [ 4 5 3 ]'',
     ''Access addr=6144  page=1   -> FAULT [ 4 5 1 ]'',
     ''Access addr=10240 page=2   -> FAULT [ 2 5 1 ]'',
     ''Access addr=14336 page=3   -> FAULT [ 2 3 1 ]'',
     ''FIFO summary: hits=6 faults=8 hit_ratio=42.86% miss_ratio=57.14%'']"

definition case3_lru :: "string list" where
  "case3_lru =
    [[],
     ''--- LRU (frames = 3) ---'',
     ''Access addr=6144  page=1   -> FAULT [ 1 _ _ ]'',
     ''Access addr=10240 page=2   -> FAULT [ 1 2 _ ]'',
     ''Access addr=14336 page=3   -> FAULT [ 1 2 3 ]'',
     ''Access addr=6144  page=1   -> HIT   [ 1 2 3 ]'',
     ''Access addr=10240 page=2   -> HIT   [ 1 2 3 ]'',
     ''Access addr=14336 page=3   -> HIT   [ 1 2 3 ]'',
     ''Access addr=6144  page=1   -> HIT   [ 1 2 3 ]'',
     ''Access addr=10240 page=2   -> HIT   [ 1 2 3 ]'',
     ''Access addr=14336 page=3   -> HIT   [ 1 2 3 ]'',
     ''Access addr=18432 page=4   -> FAULT [ 4 2 3 ]'',
     ''Access addr=22528 page=5   -> FAULT [ 4 5 3 ]'',
     ''Access addr=6144  page=1   -> FAULT [ 4 5 1 ]'',
     ''Access addr=10240 page=2   -> FAULT [ 2 5 1 ]'',
     ''Access addr=14336 page=3   -> FAULT [ 2 3 1 ]'',
     ''LRU summary: hits=6 faults=8 hit_ratio=42.86% miss_ratio=57.14%'']"

definition addresses1 :: "int list" where
  "addresses1 = [6144, 10240, 14336, 18432, 6144, 10240, 22528, 6144, 10240, 14336, 18432, 22528]"

definition addresses2 :: "int list" where
  "addresses2 = [6144, 10240, 14336, 6144, 10240, 14336, 6144, 10240, 14336, 18432, 22528, 6144, 10240, 14336]"

lemma built_addresses:
  "build_addresses_from_pages pattern1 4096 = Some addresses1"
  "build_addresses_from_pages pattern2 4096 = Some addresses2"
  by code_simp+

text \<open>Two decimals are determined by being nearest.\<close>

lemma nearest:
  assumes "0 < t" "h < 2 ^ 31" "\<bar>2 * int t * int x - 20000 * int h\<bar> < int t"
  shows "ratio_hundredths h t = x"
proof -
  define y where "y = int (ratio_hundredths h t)"
  have "\<bar>2 * int t * y - 2 * int t * int x\<bar> < 2 * int t * 1"
    using ratio_near[OF assms(1,2)] assms(3) unfolding y_def by linarith
  then have "2 * int t * \<bar>y - int x\<bar> < 2 * int t * 1"
    by (simp add: abs_mult flip: right_diff_distrib)
  then have "y = int x"
    using assms(1) by (simp only: mult_less_cancel_left) auto
  then show ?thesis
    by (simp add: y_def)
qed

lemma case_ratios:
  "ratio_hundredths 3 12 = 2500" "ratio_hundredths 9 12 = 7500" "ratio_hundredths 2 12 = 1667"
  "ratio_hundredths 10 12 = 8333" "ratio_hundredths 4 12 = 3333" "ratio_hundredths 8 12 = 6667"
  "ratio_hundredths 6 14 = 4286" "ratio_hundredths 8 14 = 5714"
  by (rule nearest; simp)+

definition run_lines :: "(access list \<times> nat \<times> nat) option \<Rightarrow> (string list \<times> nat \<times> nat) option" where
  "run_lines = map_option (\<lambda>(as, h, f). (map access_text as, h, f))"

lemma output_lines:
  "run_lines (run_fifo refs n z) = Some (ls, h, f) \<Longrightarrow>
    fifo_output nan refs n z = Some (title_text ''FIFO'' n @ concat ls @ summary_text nan ''FIFO'' h f)"
  "run_lines (run_lru refs n z) = Some (ls, h, f) \<Longrightarrow>
    lru_output nan refs n z = Some (title_text ''LRU'' n @ concat ls @ summary_text nan ''LRU'' h f)"
  by (auto simp: run_lines_def fifo_output_def lru_output_def run_text_def)

lemmas case_text = title_text_def summary_text_def ratio_text_def case_ratios two_decimals_def decimal.simps lines_text_def

lemma case1_fifo_run:
  "run_lines (run_fifo addresses1 3 4096) = Some (map (\<lambda>l. l @ [NL]) (take 12 (drop 2 case1_fifo)), 3, 9)"
  by code_simp

lemma case1_fifo_output: "fifo_output nan addresses1 3 4096 = Some (lines_text case1_fifo)"
  unfolding output_lines(1)[OF case1_fifo_run] by (simp add: case_text case1_fifo_def)

lemma case1_lru_run:
  "run_lines (run_lru addresses1 3 4096) = Some (map (\<lambda>l. l @ [NL]) (take 12 (drop 2 case1_lru)), 2, 10)"
  by code_simp

lemma case1_lru_output: "lru_output nan addresses1 3 4096 = Some (lines_text case1_lru)"
  unfolding output_lines(2)[OF case1_lru_run] by (simp add: case_text case1_lru_def)

lemma case2_fifo_run:
  "run_lines (run_fifo addresses1 4 4096) = Some (map (\<lambda>l. l @ [NL]) (take 12 (drop 2 case2_fifo)), 2, 10)"
  by code_simp

lemma case2_fifo_output: "fifo_output nan addresses1 4 4096 = Some (lines_text case2_fifo)"
  unfolding output_lines(1)[OF case2_fifo_run] by (simp add: case_text case2_fifo_def)

lemma case2_lru_run:
  "run_lines (run_lru addresses1 4 4096) = Some (map (\<lambda>l. l @ [NL]) (take 12 (drop 2 case2_lru)), 4, 8)"
  by code_simp

lemma case2_lru_output: "lru_output nan addresses1 4 4096 = Some (lines_text case2_lru)"
  unfolding output_lines(2)[OF case2_lru_run] by (simp add: case_text case2_lru_def)

lemma case3_fifo_run:
  "run_lines (run_fifo addresses2 3 4096) = Some (map (\<lambda>l. l @ [NL]) (take 14 (drop 2 case3_fifo)), 6, 8)"
  by code_simp

lemma case3_fifo_output: "fifo_output nan addresses2 3 4096 = Some (lines_text case3_fifo)"
  unfolding output_lines(1)[OF case3_fifo_run] by (simp add: case_text case3_fifo_def)

lemma case3_lru_run:
  "run_lines (run_lru addresses2 3 4096) = Some (map (\<lambda>l. l @ [NL]) (take 14 (drop 2 case3_lru)), 6, 8)"
  by code_simp

lemma case3_lru_output: "lru_output nan addresses2 3 4096 = Some (lines_text case3_lru)"
  unfolding output_lines(2)[OF case3_lru_run] by (simp add: case_text case3_lru_def)

text \<open>
  The output of the paging program. It prints exactly this text. In the second test case, with one
  more frame, FIFO faults more often than in the first (10 times, not 9); on the third, in which the
  source expects LRU to do better, both algorithms print the same summary.
\<close>

theorem paging_program_prints:
  "paging_main_output nan = Some (lines_text (
     [''========================================='',
      ''TEST CASE 1: reference string = 1,2,3,4,1,2,5,1,2,3,4,5'',
      ''Page size = 4096 bytes'',
      ''=========================================''] @
     case1_fifo @ case1_lru @
     [[],
      ''========================================='',
      ''TEST CASE 2: same reference string, frames = 4'',
      ''=========================================''] @
     case2_fifo @ case2_lru @
     [[],
      ''========================================='',
      ''TEST CASE 3: locality-heavy pattern, frames = 3'',
      ''Reference string = 1,2,3,1,2,3,1,2,3,4,5,1,2,3'',
      ''=========================================''] @
     case3_fifo @ case3_lru))"
  unfolding paging_main_output_def Let_def built_addresses option.case prod.case
    case1_fifo_output case1_lru_output case2_fifo_output case2_lru_output case3_fifo_output case3_lru_output
  by (simp add: lines_text_append rule_text_def int_text_def decimal.simps) (simp add: lines_text_def)

theorem printed_ratios_witness:
  "\<exists>before h f x y. lines_text case1_fifo = before @ ''FIFO'' @ '' summary: hits='' @ decimal h @ '' faults='' @ decimal f @
      '' hit_ratio='' @ two_decimals x @ ''% miss_ratio='' @ two_decimals y @ ''%'' @ [NL] \<and>
    h + f = 12 \<and> x + y = 10000"
proof -
  have n: "length addresses1 = 12" "addresses1 \<noteq> []"
    by (simp_all add: addresses1_def)
  have "fifo_output [] addresses1 3 4096 = Some (lines_text case1_fifo) \<and> ''FIFO'' = ''FIFO'' \<or>
      lru_output [] addresses1 3 4096 = Some (lines_text case1_fifo) \<and> ''FIFO'' = ''LRU''"
    by (simp only: case1_fifo_output simp_thms)
  note r = printed_ratios[OF this]
  have small: "(12 :: nat) < 2 ^ 31" "((12 :: nat) < 4000) = True"
    by simp_all
  obtain before h f a b where "h + f = 12"
      "lines_text case1_fifo = before @ ''FIFO'' @ '' summary: hits='' @ decimal h @ '' faults='' @ decimal f @
        '' hit_ratio='' @ a @ ''% miss_ratio='' @ b @ ''%'' @ [NL]"
      "\<exists>x y. a = two_decimals x \<and> b = two_decimals y \<and> x + y = 10000"
    using r[unfolded n(1) if_not_P[OF n(2)] small(2) simp_thms, OF small(1)] by (elim exE conjE) blast
  then show ?thesis
    by blast
qed

end
