(* ===== verification/Server.thy ===== *)
theory Server
  imports Refinement Prelude
begin

text \<open>
  \<open>server.c\<close>: the key-value store shared by all connections, input validation, the line
  protocol over a stream socket, and the per-client thread as a state machine that handles one
  received line at a time. A \<open>recv\<close> of one byte yields a byte, the end of the stream or an
  error; what is sent and what is logged are lists. The store's operations run under
  \<open>store_lock\<close>, and one line performs at most one of them, so the threads of several clients
  interleave line by line on the store.
\<close>

definition MAX_LINE :: nat where "MAX_LINE = 512"
definition MAX_KEY :: nat where "MAX_KEY = 64"
definition MAX_VALUE :: nat where "MAX_VALUE = 400"
definition MAX_STORE :: nat where "MAX_STORE = 128"
definition MAX_AUTH_ATTEMPTS :: nat where "MAX_AUTH_ATTEMPTS = 3"

lemmas server_sizes =
  MAX_LINE_def MAX_KEY_def MAX_VALUE_def MAX_STORE_def MAX_AUTH_ATTEMPTS_def

definition VALID_USERS :: "(string \<times> string) list" where
  "VALID_USERS = [(''alice'', ''alicepass''), (''bob'', ''bobpass'')]"

definition newline :: char where "newline = CHR 0x0A"
definition carriage_return :: char where "carriage_return = CHR 0x0D"

section \<open>The store\<close>

text \<open>The arrays \<open>key[MAX_KEY]\<close> and \<open>value[MAX_VALUE]\<close> with all their bytes.\<close>

record StoreEntry =
  s_key :: string
  s_value :: string
  used :: bool

type_synonym store = "StoreEntry list"

definition store_init :: store where
  "store_init = replicate MAX_STORE \<lparr>s_key = zeros MAX_KEY, s_value = zeros MAX_VALUE, used = False\<rparr>"

definition holds :: "StoreEntry \<Rightarrow> string \<Rightarrow> bool" where
  "holds e key \<longleftrightarrow> used e \<and> cstr (s_key e) = cstr key"

definition set_value :: "string \<Rightarrow> StoreEntry \<Rightarrow> StoreEntry" where
  "set_value v e = e\<lparr>s_value := (strncpy (s_value e) v (MAX_VALUE - 1))[MAX_VALUE - 1 := NUL]\<rparr>"

definition set_key :: "string \<Rightarrow> StoreEntry \<Rightarrow> StoreEntry" where
  "set_key k e = e\<lparr>s_key := (strncpy (s_key e) k (MAX_KEY - 1))[MAX_KEY - 1 := NUL]\<rparr>"

text \<open>The scan of \<open>store_put\<close>: the slot that holds the key, and the first free slot seen.\<close>

fun put_scan :: "store \<Rightarrow> string \<Rightarrow> nat \<Rightarrow> nat option \<Rightarrow> nat option \<times> nat option" where
  "put_scan [] key i free_slot = (None, free_slot)"
| "put_scan (e # es) key i free_slot =
     (if holds e key then (Some i, free_slot)
      else put_scan es key (Suc i) (if \<not> used e \<and> free_slot = None then Some i else free_slot))"

definition store_put :: "store \<Rightarrow> string \<Rightarrow> string \<Rightarrow> bool \<times> store" where
  "store_put st key v =
     (case put_scan st key 0 None of
        (Some i, _) \<Rightarrow> (True, st[i := set_value v (st ! i)])
      | (None, None) \<Rightarrow> (False, st)
      | (None, Some j) \<Rightarrow> (True, st[j := (set_value v (set_key key (st ! j)))\<lparr>used := True\<rparr>]))"

fun scan :: "store \<Rightarrow> string \<Rightarrow> nat \<Rightarrow> nat option" where
  "scan [] key i = None"
| "scan (e # es) key i = (if holds e key then Some i else scan es key (Suc i))"

definition store_get :: "store \<Rightarrow> string \<Rightarrow> string option" where
  "store_get st key = map_option (\<lambda>i. cstr (s_value (st ! i))) (scan st key 0)"

definition store_del :: "store \<Rightarrow> string \<Rightarrow> bool \<times> store" where
  "store_del st key =
     (case scan st key 0 of None \<Rightarrow> (False, st)
      | Some i \<Rightarrow> (True, st[i := (st ! i)\<lparr>used := False\<rparr>]))"

text \<open>
  \<open>store_list\<close>: the count and the text in the buffer. \<open>buf\<close> is the text already written (the
  buffer's old, uninitialised text before the first entry); an entry that does not fit is cut, and
  ends the loop.
\<close>

fun list_loop :: "store \<Rightarrow> nat \<Rightarrow> nat \<Rightarrow> nat \<Rightarrow> string \<Rightarrow> nat \<times> string" where
  "list_loop [] buf_size count offset buf = (count, buf)"
| "list_loop (e # es) buf_size count offset buf =
     (if used e then
        let text = cstr (s_key e) @ '' ''; n = length text;
            buf1 = take offset buf @ take (buf_size - offset - 1) text
        in if n \<ge> buf_size - offset then (count + 1, buf1)
           else list_loop es buf_size (count + 1) (offset + n) buf1
      else list_loop es buf_size count offset buf)"

definition store_list :: "store \<Rightarrow> string \<Rightarrow> nat \<Rightarrow> nat \<times> string" where
  "store_list st old_buf buf_size = list_loop st buf_size 0 0 old_buf"

section \<open>Lines\<close>

definition is_valid_token :: "string \<Rightarrow> nat \<Rightarrow> bool" where
  "is_valid_token s max_len \<longleftrightarrow>
     \<not> (length s = 0 \<or> length s > max_len) \<and>
     list_all (\<lambda>c. \<not> ((of_char c :: nat) < 32 \<or> (of_char c :: nat) = 127)) s"

text \<open>The bytes put on the socket: \<open>snprintf\<close> cuts the message and its newline to the buffer.\<close>

definition send_line :: "string \<Rightarrow> string" where
  "send_line msg = take (MAX_LINE + 2 - 1) (msg @ [newline])"

datatype rcv = Byte char | Eof | Fail

datatype recv_result = Got nat string | Disconnected | Violation

text \<open>
  \<open>recv_line\<close> on the bytes to come: the value returned (the number of characters before the
  newline with the text of the line, 0 or -1) and the rest of the stream; \<open>None\<close> while the newline
  has not arrived. A returned 0 is \<open>Disconnected\<close>, whether it means the end of the stream or a
  line without characters.
\<close>

fun recv_loop :: "rcv list \<Rightarrow> nat \<Rightarrow> string \<Rightarrow> (recv_result \<times> rcv list) option" where
  "recv_loop stream 0 line = Some (Violation, stream)"
| "recv_loop [] (Suc left) line = None"
| "recv_loop (Eof # stream) (Suc left) line = Some (Disconnected, stream)"
| "recv_loop (Fail # stream) (Suc left) line = Some (Violation, stream)"
| "recv_loop (Byte c # stream) (Suc left) line =
     (if c = newline then
        let pos = length line;
            text = (if pos > 0 \<and> line ! (pos - 1) = carriage_return then butlast line else line)
        in Some (if pos = 0 then Disconnected else Got pos (cstr text), stream)
      else recv_loop stream left (line @ [c]))"

definition recv_line :: "rcv list \<Rightarrow> nat \<Rightarrow> (recv_result \<times> rcv list) option" where
  "recv_line stream max_len = recv_loop stream (max_len - 1) []"

text \<open>\<open>sscanf(line, "%63s %63s %399[^\n]", cmd, arg1, arg2)\<close>.\<close>

definition isspace :: "char \<Rightarrow> bool" where
  "isspace c \<longleftrightarrow> c = CHR 0x20 \<or> (9 \<le> (of_char c :: nat) \<and> (of_char c :: nat) \<le> 13)"

definition scan_word :: "nat \<Rightarrow> string \<Rightarrow> string \<times> string" where
  "scan_word width s =
     (let s1 = dropWhile isspace s; w = take width (takeWhile (\<lambda>c. \<not> isspace c) s1)
      in (w, drop (length w) s1))"

definition scan_rest :: "nat \<Rightarrow> string \<Rightarrow> string" where
  "scan_rest width s = take width (takeWhile (\<lambda>c. c \<noteq> newline) (dropWhile isspace s))"

definition parse_line :: "string \<Rightarrow> string \<times> string \<times> string" where
  "parse_line line =
     (let (cmd, s1) = scan_word 63 line in
      if cmd = [] then ([], [], [])
      else let (arg1, s2) = scan_word 63 s1 in
           if arg1 = [] then (cmd, [], []) else (cmd, arg1, scan_rest 399 s2))"

section \<open>The thread of a client\<close>

text \<open>
  The locals of \<open>handle_client\<close>, and whether its loop still runs. What a round does besides is a
  list of actions: bytes sent and messages logged (without the time and the client's address, which
  \<open>log_msg\<close> puts in front).
\<close>

record conn =
  authed_user :: string
  authenticated :: bool
  auth_attempts :: nat
  running :: bool

datatype action = Sent string | Logged string

definition conn_init :: conn where
  "conn_init = \<lparr>authed_user = zeros MAX_KEY, authenticated = False, auth_attempts = 0, running = True\<rparr>"

definition handle_auth :: "string \<Rightarrow> string \<Rightarrow> conn \<Rightarrow> action list \<times> conn" where
  "handle_auth arg1 arg2 c =
     (if authenticated c then ([Sent (send_line ''ERR already_authenticated'')], c)
      else if list_ex (\<lambda>(u, p). arg1 = u \<and> arg2 = p) VALID_USERS then
        ([Logged (''AUTH success user='' @ arg1), Sent (send_line ''OK AUTH'')],
         c\<lparr>authenticated := True, authed_user := strncpy (authed_user c) arg1 (MAX_KEY - 1)\<rparr>)
      else
        let c = c\<lparr>auth_attempts := auth_attempts c + 1\<rparr>;
            acts = [Logged (''AUTH failed user='' @ arg1 @ '' attempt='' @ decimal (auth_attempts c) @ ''/'' @
                      decimal MAX_AUTH_ATTEMPTS),
                    Sent (send_line ''ERR AUTH invalid_credentials'')]
        in if auth_attempts c \<ge> MAX_AUTH_ATTEMPTS
           then (acts @ [Logged ''too many failed AUTH attempts, closing connection'',
                         Sent (send_line ''ERR too_many_attempts_closing'')], c\<lparr>running := False\<rparr>)
           else (acts, c))"

text \<open>
  One line. \<open>old_buf\<close> is the text in the uninitialised buffer \<open>keys\<close> of the \<open>LIST\<close> branch.
\<close>

definition handle_line :: "string \<Rightarrow> string \<Rightarrow> conn \<Rightarrow> store \<Rightarrow> action list \<times> conn \<times> store" where
  "handle_line old_buf line c st =
     (let (cmd, arg1, arg2) = parse_line line; who = ''user='' @ cstr (authed_user c) in
      if cmd = ''AUTH'' then let (acts, c1) = handle_auth arg1 arg2 c in (acts, c1, st)
      else if \<not> authenticated c then
        ([Sent (send_line ''ERR not_authenticated''),
          Logged (''rejected command '' @ [CHR 0x27] @ cmd @ [CHR 0x27] @ '' (not authenticated)'')], c, st)
      else if cmd = ''PUT'' then
        if \<not> is_valid_token arg1 (MAX_KEY - 1) \<or> length arg2 = 0 \<or> length arg2 > MAX_VALUE - 1
        then ([Sent (send_line ''ERR PUT invalid_input''), Logged ''PUT rejected: invalid input''], c, st)
        else ([Sent (send_line ''OK PUT''), Logged (who @ '' PUT key='' @ arg1)], c, snd (store_put st arg1 arg2))
      else if cmd = ''GET'' then
        if \<not> is_valid_token arg1 (MAX_KEY - 1) then ([Sent (send_line ''ERR GET invalid_input'')], c, st)
        else
          ([Sent (case store_get st arg1 of
              Some v \<Rightarrow> send_line (take (MAX_LINE - 1) (''OK GET '' @ v))
            | None \<Rightarrow> send_line ''ERR GET not_found''),
            Logged (who @ '' GET key='' @ arg1)], c, st)
      else if cmd = ''DEL'' then
        if \<not> is_valid_token arg1 (MAX_KEY - 1) then ([Sent (send_line ''ERR DEL invalid_input'')], c, st)
        else let (ok, st1) = store_del st arg1 in
          ([Sent (send_line (if ok then ''OK DEL'' else ''ERR DEL not_found'')),
            Logged (who @ '' DEL key='' @ arg1)], c, st1)
      else if cmd = ''LIST'' then
        let (count, keys) = store_list st old_buf MAX_LINE in
          ([Sent (send_line (take (MAX_LINE + 32 - 1) (''OK LIST '' @ decimal count @ '' '' @ keys))),
            Logged (who @ '' LIST ('' @ decimal count @ '' keys)'')], c, st)
      else if cmd = ''QUIT'' then
        ([Sent (send_line ''OK BYE''), Logged (who @ '' sent QUIT'')], c\<lparr>running := False\<rparr>, st)
      else
        ([Sent (send_line ''ERR unknown_command''),
          Logged (''unknown command '' @ [CHR 0x27] @ cmd @ [CHR 0x27])], c, st))"

text \<open>One iteration of the loop, by what \<open>recv_line\<close> returned.\<close>

definition handle_round :: "string \<Rightarrow> recv_result \<Rightarrow> conn \<Rightarrow> store \<Rightarrow> action list \<times> conn \<times> store" where
  "handle_round old_buf r c st =
     (case r of
        Disconnected \<Rightarrow> ([Logged ''disconnected (client closed connection)''], c\<lparr>running := False\<rparr>, st)
      | Violation \<Rightarrow>
          ([Logged ''disconnected (error or line too long)'', Sent (send_line ''ERR protocol_violation'')],
           c\<lparr>running := False\<rparr>, st)
      | Got n line \<Rightarrow> handle_line old_buf line c st)"

text \<open>
  The loop over a stream: it stops when a round ended it, or waits for more input. Every round
  consumes a byte, so the length of the stream bounds the rounds.
\<close>

lemma recv_loop_shorter:
  "recv_loop stream n line = Some (r, rest) \<Longrightarrow> 0 < n \<Longrightarrow> length rest < length stream"
proof (induction stream n line arbitrary: r rest rule: recv_loop.induct)
  case (5 c stream lft line)
  then show ?case
    by (cases lft) (auto split: if_splits simp: Let_def intro: less_SucI)
qed auto

function client_loop :: "string \<Rightarrow> rcv list \<Rightarrow> conn \<Rightarrow> store \<Rightarrow> action list \<times> conn \<times> store" where
  "client_loop old_buf stream c st =
     (if \<not> running c then ([Logged ''connection closed''], c, st)
      else case recv_line stream MAX_LINE of
        None \<Rightarrow> ([], c, st)
      | Some (r, rest) \<Rightarrow>
          let (acts, c1, st1) = handle_round old_buf r c st;
              (acts2, c2, st2) = client_loop old_buf rest c1 st1
          in (acts @ acts2, c2, st2))"
  by pat_completeness auto
termination
  by (relation "measure (\<lambda>(_, stream, _, _). length stream)")
    (auto simp: recv_line_def MAX_LINE_def dest: recv_loop_shorter)

declare client_loop.simps [simp del]

definition handle_client :: "string \<Rightarrow> rcv list \<Rightarrow> store \<Rightarrow> action list \<times> conn \<times> store" where
  "handle_client old_buf stream st =
     (let (acts, c, st1) = client_loop old_buf stream conn_init st in (Logged ''connected'' # acts, c, st1))"

section \<open>All threads\<close>

text \<open>
  The server: its connections and the store they share. A step is one round of one thread, or a new
  connection; any interleaving of the threads is a sequence of steps.
\<close>

record server =
  conns :: "nat \<Rightarrow> conn option"
  srv_store :: store

text \<open>
  What happens next (the \<open>malloc\<close> of the arguments of a new thread is taken to succeed; the source does
  not check it): a connection gets a thread, a connection is lost because \<open>accept\<close> or
  \<open>pthread_create\<close> failed (a message on \<open>stderr\<close>, and the loop goes on), or a thread does a round.
\<close>

datatype event = Accept nat | Refused | Round nat string recv_result

definition server_init :: server where
  "server_init = \<lparr>conns = Map.empty, srv_store = store_init\<rparr>"

text \<open>
  The loop of \<open>handle_client\<close> is left by the round that ends the connection; what follows it closes the
  socket and logs that.
\<close>

definition closing :: "conn \<Rightarrow> action list" where
  "closing c = (if running c then [] else [Logged ''connection closed''])"

definition server_step :: "event \<Rightarrow> server \<Rightarrow> action list \<times> server" where
  "server_step ev s =
     (case ev of
        Accept i \<Rightarrow>
          (if conns s i = None then ([Logged ''connected''], s\<lparr>conns := (conns s)(i \<mapsto> conn_init)\<rparr>) else ([], s))
      | Refused \<Rightarrow> ([], s)
      | Round i old_buf r \<Rightarrow>
          (case conns s i of
             None \<Rightarrow> ([], s)
           | Some c \<Rightarrow>
               if running c then
                 let (acts, c1, st1) = handle_round old_buf r c (srv_store s)
                 in (acts @ closing c1, s\<lparr>conns := (conns s)(i \<mapsto> c1), srv_store := st1\<rparr>)
               else ([], s)))"

end
