(* ===== verification/Server_Correct.thy ===== *)
theory Server_Correct
  imports Server
begin

text \<open>
  The store implements a finite map with room for \<open>MAX_STORE\<close> keys (an interpretation of
  \<open>data_refinement\<close>), and the facts about parsing, authentication and single rounds that the
  properties of the server rest on.
\<close>

section \<open>The abstract store\<close>

definition ekey :: "StoreEntry \<Rightarrow> string" where "ekey e = cstr (s_key e)"
definition evalue :: "StoreEntry \<Rightarrow> string" where "evalue e = cstr (s_value e)"

definition entries :: "store \<Rightarrow> (string \<times> string) list" where
  "entries st = map (\<lambda>e. (ekey e, evalue e)) (filter used st)"

definition store_map :: "store \<Rightarrow> string \<Rightarrow> string option" where
  "store_map st = map_of (entries st)"

definition store_inv :: "store \<Rightarrow> bool" where
  "store_inv st \<longleftrightarrow> length st = MAX_STORE \<and> distinct (map fst (entries st)) \<and>
     list_all (\<lambda>e. length (s_key e) = MAX_KEY \<and> length (s_value e) = MAX_VALUE) st"

datatype store_cmd = Put string string | Get string | Del string

fun store_step :: "store_cmd \<Rightarrow> store \<Rightarrow> (bool \<times> string option) \<times> store" where
  "store_step (Put k v) st = (let (ok, st1) = store_put st k v in ((ok, None), st1))"
| "store_step (Get k) st = ((store_get st k \<noteq> None, store_get st k), st)"
| "store_step (Del k) st = (let (ok, st1) = store_del st k in ((ok, None), st1))"

fun map_step :: "store_cmd \<Rightarrow> (string \<Rightarrow> string option) \<Rightarrow> (bool \<times> string option) \<times> (string \<Rightarrow> string option)" where
  "map_step (Put k v) m =
     (if k \<in> dom m \<or> card (dom m) < MAX_STORE then ((True, None), m(k \<mapsto> v)) else ((False, None), m))"
| "map_step (Get k) m = ((m k \<noteq> None, m k), m)"
| "map_step (Del k) m = ((m k \<noteq> None, None), m(k := None))"

text \<open>Keys and values that fit their arrays.\<close>

definition key_ok :: "string \<Rightarrow> bool" where
  "key_ok k \<longleftrightarrow> nonul k \<and> length k < MAX_KEY"

definition val_ok :: "string \<Rightarrow> bool" where
  "val_ok v \<longleftrightarrow> nonul v \<and> length v < MAX_VALUE"

fun store_cmd_ok :: "store_cmd \<Rightarrow> bool" where
  "store_cmd_ok (Put k v) \<longleftrightarrow> key_ok k \<and> val_ok v"
| "store_cmd_ok (Get k) \<longleftrightarrow> key_ok k"
| "store_cmd_ok (Del k) \<longleftrightarrow> key_ok k"

section \<open>Scanning and updating\<close>

lemma holds_key: "nonul k \<Longrightarrow> holds e k \<longleftrightarrow> used e \<and> ekey e = k"
  by (simp add: holds_def ekey_def)

lemma scan_spec:
  "case scan st k i of
     None \<Rightarrow> \<forall>e\<in>set st. \<not> holds e k
   | Some j \<Rightarrow> \<exists>m < length st. j = i + m \<and> holds (st ! m) k \<and> (\<forall>e\<in>set (take m st). \<not> holds e k)"
proof (induction st arbitrary: i)
  case (Cons e es)
  show ?case
  proof (cases "holds e k")
    case True
    then show ?thesis
      by (auto intro!: exI[of _ 0])
  next
    case False
    then show ?thesis
    proof (cases "scan es k (Suc i)")
      case (Some j)
      then obtain m where "m < length es" "j = Suc i + m" "holds (es ! m) k" "\<forall>e\<in>set (take m es). \<not> holds e k"
        using Cons[of "Suc i"] by auto
      then show ?thesis
        using Some False by (auto intro!: exI[of _ "Suc m"])
    qed (use Cons[of "Suc i"] in auto)
  qed
qed simp

lemma put_scan_scan: "fst (put_scan st k i f) = scan st k i"
  by (induction st arbitrary: i f) auto

lemma put_scan_free:
  "scan st k i = None \<Longrightarrow>
   (case snd (put_scan st k i f) of
      None \<Rightarrow> f = None \<and> (\<forall>e\<in>set st. used e)
    | Some j \<Rightarrow> f = Some j \<or> f = None \<and> (\<exists>m < length st. j = i + m \<and> \<not> used (st ! m)))"
proof (induction st arbitrary: i f)
  case (Cons e es)
  from Cons.prems have s: "\<not> holds e k" "scan es k (Suc i) = None"
    by (auto split: if_splits)
  show ?case
  proof (cases "\<not> used e \<and> f = None")
    case True
    then show ?thesis
      using Cons.IH[OF s(2), of "Some i"] s by (auto split: option.splits intro!: exI[of _ 0])
  next
    case False
    then show ?thesis
      using Cons.IH[OF s(2), of f] s by (fastforce split: option.splits)
  qed
qed (simp split: option.split)

lemma entries_append [simp]: "entries (a @ b) = entries a @ entries b"
  by (simp add: entries_def)

lemma entries_Cons [simp]: "entries (e # b) = (if used e then [(ekey e, evalue e)] else []) @ entries b"
  by (simp add: entries_def)

lemma entries_Nil [simp]: "entries [] = []"
  by (simp add: entries_def)

lemma split_at:
  assumes "i < length st"
  obtains a b where "st = a @ (st ! i) # b" "length a = i" "\<And>e. st[i := e] = a @ e # b"
proof -
  have "st = take i st @ st ! i # drop (Suc i) st"
    by (rule id_take_nth_drop[OF assms])
  moreover have "st[i := e] = take i st @ e # drop (Suc i) st" for e
    by (rule upd_conv_take_nth_drop[OF assms])
  ultimately show thesis
    using assms by (intro that[of "take i st" "drop (Suc i) st"]) auto
qed

lemma not_held: "nonul k \<Longrightarrow> (\<forall>e\<in>set st. \<not> holds e k) \<longleftrightarrow> k \<notin> fst ` set (entries st)"
  by (auto simp: entries_def holds_key image_iff)

lemma map_of_middle:
  "k \<notin> fst ` set xs \<Longrightarrow> map_of (xs @ (k, v) # ys) = (map_of (xs @ ys))(k \<mapsto> v)"
  by (induction xs) (auto simp: fun_upd_twist)

lemma map_of_without:
  "k \<notin> fst ` set xs \<Longrightarrow> k \<notin> fst ` set ys \<Longrightarrow> map_of (xs @ ys) = (map_of (xs @ (k, v) # ys))(k := None)"
  by (induction xs) (auto simp: fun_upd_twist fun_upd_idem map_of_eq_None_iff)

lemma card_store_map: "distinct (map fst (entries st)) \<Longrightarrow> card (dom (store_map st)) = length (filter used st)"
proof -
  assume "distinct (map fst (entries st))"
  then have "card (fst ` set (entries st)) = length (entries st)"
    using distinct_card by fastforce
  then show ?thesis
    by (simp add: store_map_def dom_map_of_conv_image_fst) (simp add: entries_def)
qed

text \<open>Copies into the arrays.\<close>

lemma cstr_copied:
  assumes "nonul s" "length s < n" "length a = n" "0 < n"
  shows "cstr ((strncpy a s (n - 1))[n - 1 := NUL]) = s"
proof -
  have "length (drop (n - 1) a) = 1"
    using assms by simp
  then obtain c where "drop (n - 1) a = [c]"
    by (metis One_nat_def length_0_conv length_Suc_conv)
  moreover have "length s \<le> n - 1"
    using assms by simp
  ultimately have "(strncpy a s (n - 1))[n - 1 := NUL] = (s @ replicate (n - 1 - length s) NUL) @ [NUL]"
    using assms by (simp add: strncpy_def list_update_append not_less[symmetric])
  then have "\<dots> = s @ replicate (Suc (n - 1 - length s)) NUL"
    by (simp add: replicate_append_same)
  then show ?thesis
    using assms(1) \<open>(strncpy a s (n - 1))[n - 1 := NUL] = _\<close> by (simp only: cstr_append_zeros)
qed

lemma set_value_simps:
  "length (s_value e) = MAX_VALUE \<Longrightarrow> val_ok v \<Longrightarrow> evalue (set_value v e) = v"
  "ekey (set_value v e) = ekey e" "used (set_value v e) = used e"
  "length (s_value e) = MAX_VALUE \<Longrightarrow> length (s_value (set_value v e)) = MAX_VALUE"
  "s_key (set_value v e) = s_key e"
  using cstr_copied[of v MAX_VALUE "s_value e"]
  by (simp_all add: evalue_def ekey_def set_value_def val_ok_def MAX_VALUE_def)

lemma set_key_simps:
  "length (s_key e) = MAX_KEY \<Longrightarrow> key_ok k \<Longrightarrow> ekey (set_key k e) = k"
  "length (s_key e) = MAX_KEY \<Longrightarrow> length (s_key (set_key k e)) = MAX_KEY"
  "s_value (set_key k e) = s_value e"
  using cstr_copied[of k MAX_KEY "s_key e"]
  by (simp_all add: ekey_def set_key_def key_ok_def MAX_KEY_def)

section \<open>The operations on the map\<close>

lemma store_init_inv: "store_inv store_init" "store_map store_init = Map.empty"
proof -
  have "entries store_init = []"
    by (simp add: entries_def store_init_def)
  then show "store_inv store_init" "store_map store_init = Map.empty"
    by (simp_all add: store_inv_def store_map_def) (simp add: store_init_def list_all_iff)
qed

lemma scan_map:
  assumes "store_inv st" "nonul k"
  shows "scan st k 0 = None \<longleftrightarrow> store_map st k = None"
    and "scan st k 0 = Some i \<Longrightarrow> i < length st \<and> used (st ! i) \<and> ekey (st ! i) = k \<and>
      store_map st k = Some (evalue (st ! i))"
proof -
  note sp = scan_spec[of st k 0]
  show some: "scan st k 0 = Some i \<Longrightarrow> i < length st \<and> used (st ! i) \<and> ekey (st ! i) = k \<and>
      store_map st k = Some (evalue (st ! i))" for i
  proof -
    assume "scan st k 0 = Some i"
    then have i: "i < length st" "holds (st ! i) k" "\<forall>e\<in>set (take i st). \<not> holds e k"
      using sp by auto
    have st: "st = take i st @ st ! i # drop (Suc i) st"
      by (rule id_take_nth_drop[OF i(1)])
    have "k \<notin> fst ` set (entries (take i st))"
      using not_held[OF assms(2)] i(3) by blast
    moreover have "entries st = entries (take i st) @ (k, evalue (st ! i)) # entries (drop (Suc i) st)"
      using i(2) assms(2) by (subst st) (simp add: holds_key)
    ultimately show ?thesis
      using i assms(2) by (simp add: store_map_def map_of_middle holds_key del: map_of_append)
  qed
  show "scan st k 0 = None \<longleftrightarrow> store_map st k = None"
    using some sp not_held[OF assms(2), of st]
    by (cases "scan st k 0") (auto simp: store_map_def map_of_eq_None_iff)
qed

lemma store_get_map:
  assumes "store_inv st" "nonul k"
  shows "store_get st k = store_map st k"
  using scan_map[OF assms] by (cases "scan st k 0") (auto simp: store_get_def evalue_def)

lemma store_del_map:
  assumes "store_inv st" "nonul k"
  shows "store_inv (snd (store_del st k))"
    "fst (store_del st k) \<longleftrightarrow> store_map st k \<noteq> None"
    "store_map (snd (store_del st k)) = (store_map st)(k := None)"
proof (atomize (full), cases "scan st k 0")
  case None
  then show "store_inv (snd (store_del st k)) \<and> (fst (store_del st k) \<longleftrightarrow> store_map st k \<noteq> None) \<and>
    store_map (snd (store_del st k)) = (store_map st)(k := None)"
    using scan_map(1)[OF assms] assms(1) by (auto simp: store_del_def)
next
  case (Some i)
  note i = scan_map(2)[OF assms Some]
  then obtain a b where st: "st = a @ (st ! i) # b" "\<And>e. st[i := e] = a @ e # b"
    using split_at[of i st] by metis
  have e: "entries st = entries a @ (k, evalue (st ! i)) # entries b"
    using i by (subst st(1)) simp
  then have k: "k \<notin> fst ` set (entries a)" "k \<notin> fst ` set (entries b)"
    using assms(1) by (auto simp: store_inv_def)
  have "store_inv (a @ (st ! i)\<lparr>used := False\<rparr> # b)"
  proof -
    have "store_inv (a @ (st ! i) # b)"
      using assms(1) st(1) by simp
    then show ?thesis
      using i by (auto simp: store_inv_def)
  qed
  moreover have "store_map (a @ (st ! i)\<lparr>used := False\<rparr> # b) = (store_map st)(k := None)"
    using map_of_without[OF k] by (simp add: store_map_def e del: map_of_append)
  ultimately show "store_inv (snd (store_del st k)) \<and> (fst (store_del st k) \<longleftrightarrow> store_map st k \<noteq> None) \<and>
    store_map (snd (store_del st k)) = (store_map st)(k := None)"
    using Some i by (simp add: store_del_def st(2))
qed

lemma put_found:
  assumes "store_inv st" "key_ok k" "val_ok v" "scan st k 0 = Some i"
  shows "store_put st k v = (True, st[i := set_value v (st ! i)])"
    "store_inv (st[i := set_value v (st ! i)])"
    "store_map (st[i := set_value v (st ! i)]) = (store_map st)(k \<mapsto> v)" "store_map st k \<noteq> None"
proof -
  have k: "nonul k"
    using assms(2) by (simp add: key_ok_def)
  note i = scan_map(2)[OF assms(1) k assms(4)]
  show "store_put st k v = (True, st[i := set_value v (st ! i)])"
    using put_scan_scan[of st k 0 None] assms(4) by (cases "put_scan st k 0 None") (simp add: store_put_def)
  show "store_map st k \<noteq> None"
    using i by simp
  obtain a b where st: "st = a @ (st ! i) # b" "\<And>e. st[i := e] = a @ e # b"
    using i split_at[of i st] by metis
  have inv: "store_inv (a @ (st ! i) # b)"
    using assms(1) st(1) by simp
  then have ks: "k \<notin> fst ` set (entries a)" "length (s_value (st ! i)) = MAX_VALUE"
    using i by (auto simp: store_inv_def)
  show "store_inv (st[i := set_value v (st ! i)])"
    unfolding st(2) using inv i ks(2) assms(3) by (auto simp: store_inv_def set_value_simps)
  have "store_map (a @ (st ! i) # b) = (map_of (entries a @ entries b))(k \<mapsto> evalue (st ! i))"
    using i ks(1) by (simp add: store_map_def map_of_middle del: map_of_append)
  then show "store_map (st[i := set_value v (st ! i)]) = (store_map st)(k \<mapsto> v)"
    unfolding st(2) using i ks assms(3) st(1)
    by (simp add: store_map_def map_of_middle set_value_simps del: map_of_append)
qed

lemma put_free:
  assumes "store_inv st" "key_ok k" "val_ok v" "store_map st k = None" "j < length st" "\<not> used (st ! j)"
    and "e = (set_value v (set_key k (st ! j)))\<lparr>used := True\<rparr>"
  shows "store_inv (st[j := e])" "store_map (st[j := e]) = (store_map st)(k \<mapsto> v)"
proof -
  obtain a b where st: "st = a @ (st ! j) # b" "\<And>e. st[j := e] = a @ e # b"
    using assms(5) split_at[of j st] by metis
  have inv: "store_inv (a @ (st ! j) # b)"
    using assms(1) st(1) by simp
  have "store_map (a @ (st ! j) # b) k = None"
    using assms(4) st(1) by simp
  then have ks: "k \<notin> fst ` set (entries a)" "k \<notin> fst ` set (entries b)"
    using assms(6) by (auto simp: store_map_def map_of_eq_None_iff)
  have len: "length (s_key (st ! j)) = MAX_KEY" "length (s_value (st ! j)) = MAX_VALUE"
    using inv by (auto simp: store_inv_def)
  have e: "used e" "ekey e = k" "evalue e = v" "length (s_key e) = MAX_KEY" "length (s_value e) = MAX_VALUE"
    using len assms(2,3) set_value_simps[where e = "set_key k (st ! j)" and v = v] set_key_simps[where e = "st ! j" and k = k]
    by (simp_all add: assms(7) evalue_def ekey_def)
  show "store_inv (st[j := e])"
    unfolding st(2) using inv assms(6) ks e by (auto simp: store_inv_def)
  show "store_map (st[j := e]) = (store_map st)(k \<mapsto> v)"
  proof -
    have "entries st = entries (a @ (st ! j) # b)"
      using st(1) by simp
    then have "entries st = entries a @ entries b"
      using assms(6) by simp
    then show ?thesis
      unfolding st(2) using e map_of_middle[OF ks(1)] by (simp add: store_map_def del: map_of_append)
  qed
qed

lemma store_put_map:
  assumes "store_inv st" "key_ok k" "val_ok v"
  shows "store_inv (snd (store_put st k v))"
    "map_step (Put k v) (store_map st) = ((fst (store_put st k v), None), store_map (snd (store_put st k v)))"
proof -
  have k: "nonul k"
    using assms(2) by (simp add: key_ok_def)
  have card: "card (dom (store_map st)) = length (filter used st)"
    using assms(1) by (intro card_store_map) (simp add: store_inv_def)
  have "store_inv (snd (store_put st k v)) \<and>
    map_step (Put k v) (store_map st) = ((fst (store_put st k v), None), store_map (snd (store_put st k v)))"
  proof (cases "scan st k 0")
    case (Some i)
    then show ?thesis
      using put_found[OF assms Some] by auto
  next
    case None
    then have kn: "store_map st k = None"
      using scan_map(1)[OF assms(1) k] by simp
    obtain fr where ps: "put_scan st k 0 None = (None, fr)"
      using put_scan_scan[of st k 0 None] None by (cases "put_scan st k 0 None") auto
    show ?thesis
    proof (cases fr)
      case free: None
      then have "\<forall>e\<in>set st. used e"
        using put_scan_free[OF None, of None] ps by simp
      then have "length (filter used st) = length st"
        by (simp add: filter_id_conv)
      then have "\<not> card (dom (store_map st)) < MAX_STORE"
        using card assms(1) by (simp add: store_inv_def)
      then show ?thesis
        using kn ps free assms(1) by (simp add: store_put_def domIff)
    next
      case (Some j)
      then have j: "j < length st" "\<not> used (st ! j)"
        using put_scan_free[OF None, of None] ps by auto
      then have "length (filter used st) < length st"
        by (intro length_filter_less[of "st ! j"]) auto
      then have "card (dom (store_map st)) < MAX_STORE"
        using card assms(1) by (simp add: store_inv_def)
      then show ?thesis
        using put_free[OF assms kn j refl] ps Some by (simp add: store_put_def)
    qed
  qed
  then show "store_inv (snd (store_put st k v))"
    "map_step (Put k v) (store_map st) = ((fst (store_put st k v), None), store_map (snd (store_put st k v)))"
    by auto
qed

interpretation sm: data_refinement store_inv store_map "\<lambda>c _. store_cmd_ok c" store_step map_step
proof
  fix st c assume inv: "store_inv st" and ok: "store_cmd_ok c"
  have "store_inv (snd (store_step c st)) \<and>
    map_step c (store_map st) = (fst (store_step c st), store_map (snd (store_step c st)))"
  proof (cases c)
    case (Put k v)
    then show ?thesis
      using store_put_map[OF inv, of k v] ok by (simp add: split_beta Let_def del: map_step.simps)
  next
    case (Get k)
    then show ?thesis
      using store_get_map[OF inv, of k] inv ok by (simp add: key_ok_def)
  next
    case (Del k)
    then show ?thesis
      using store_del_map[OF inv, of k] ok by (simp add: key_ok_def split_beta Let_def)
  qed
  then show "store_inv (snd (store_step c st))"
    "map_step c (store_map st) = (fst (store_step c st), store_map (snd (store_step c st)))"
    by auto
qed

end
