(* ===== verification/Transitions.thy ===== *)
theory Transitions
  imports Main
begin

text \<open>
  Concurrent programs as step relations, and the contract of a program that always finishes: an
  invariant every step keeps, a measure every step decreases, and a step from every state that
  satisfies the invariant and is not final. Then no run is longer than the measure, nothing gets
  stuck before it is final, and every run can be completed. The scheduler and the lock-ordered
  threads (\<open>task1_process_threading\<close>) interpret the contract.
\<close>

locale finishing_system =
  fixes step :: "'s \<Rightarrow> 's \<Rightarrow> bool" and inv :: "'s \<Rightarrow> bool" and weight :: "'s \<Rightarrow> nat"
    and final :: "'s \<Rightarrow> bool"
  assumes step_inv: "inv s \<Longrightarrow> step s t \<Longrightarrow> inv t"
    and step_weight: "inv s \<Longrightarrow> step s t \<Longrightarrow> weight t < weight s"
    and progress: "inv s \<Longrightarrow> \<not> final s \<Longrightarrow> \<exists>t. step s t"
begin

lemma run_inv: "step\<^sup>*\<^sup>* s t \<Longrightarrow> inv s \<Longrightarrow> inv t"
  by (induction rule: rtranclp_induct) (auto dest: step_inv)

lemma run_length: "(step ^^ n) s t \<Longrightarrow> inv s \<Longrightarrow> inv t \<and> n + weight t \<le> weight s"
proof (induction n arbitrary: t)
  case (Suc n)
  then obtain u where u: "(step ^^ n) s u" "step u t"
    by auto
  then show ?case
    using Suc.IH[OF u(1) Suc.prems(2)] step_inv[of u t] step_weight[of u t] by auto
qed simp

text \<open>A run that cannot go on has reached a final state.\<close>

lemma stuck_final: "inv s \<Longrightarrow> step\<^sup>*\<^sup>* s t \<Longrightarrow> (\<And>u. \<not> step t u) \<Longrightarrow> final t"
  using run_inv progress by blast

lemma reaches_final: "inv s \<Longrightarrow> \<exists>t. step\<^sup>*\<^sup>* s t \<and> final t"
proof (induction s rule: measure_induct_rule[of weight])
  case (less s)
  show ?case
  proof (cases "final s")
    case False
    then obtain t where "step s t"
      using progress less.prems by blast
    then show ?thesis
      using less.IH[of t] less.prems step_inv step_weight by (meson converse_rtranclp_into_rtranclp)
  qed blast
qed

end

end
