(* ===== verification/Store_Lock.thy ===== *)
theory Store_Lock
  imports Server_Correct Transitions
begin

text \<open>
  The store operations of \<open>server.c\<close> statement by statement, run by any number of threads whose steps
  interleave: the lock, each test of the scanning loops, each write to an entry, the unlock. The rest
  of the development treats an operation as one step; here this is derived. Whatever the
  interleaving, the calls take effect one after the other in the order in which they got
  \<open>store_lock\<close>, and return what the functions of \<open>Server\<close> return in that order.
\<close>

section \<open>The statements\<close>

datatype call = Call_put string string | Call_get string | Call_del string | Call_list string nat

datatype answer = Flag bool | Found "string option" | Listing "nat \<times> string"

text \<open>Where a thread inside a call is; \<open>Done\<close> is the unlock before the return.\<close>

datatype point =
    Put_Test nat "nat option" | Put_Free nat "nat option"
  | Old_Value nat | Old_Value_End nat
  | New_Key nat | New_Key_End nat | New_Value nat | New_Value_End nat | New_Used nat
  | Get_Test nat | Get_Copy nat
  | Del_Test nat | Del_Clear nat
  | List_Test nat nat nat string
  | Done answer

fun entry_point :: "call \<Rightarrow> point" where
  "entry_point (Call_put k v) = Put_Test 0 None"
| "entry_point (Call_get k) = Get_Test 0"
| "entry_point (Call_del k) = Del_Test 0"
| "entry_point (Call_list old_buf buf_size) = List_Test 0 0 0 old_buf"

definition copy_value :: "string \<Rightarrow> StoreEntry \<Rightarrow> StoreEntry" where
  "copy_value v e = e\<lparr>s_value := strncpy (s_value e) v (MAX_VALUE - 1)\<rparr>"

definition end_value :: "StoreEntry \<Rightarrow> StoreEntry" where
  "end_value e = e\<lparr>s_value := (s_value e)[MAX_VALUE - 1 := NUL]\<rparr>"

definition copy_key :: "string \<Rightarrow> StoreEntry \<Rightarrow> StoreEntry" where
  "copy_key k e = e\<lparr>s_key := strncpy (s_key e) k (MAX_KEY - 1)\<rparr>"

definition end_key :: "StoreEntry \<Rightarrow> StoreEntry" where
  "end_key e = e\<lparr>s_key := (s_key e)[MAX_KEY - 1 := NUL]\<rparr>"

abbreviation write_at :: "store \<Rightarrow> nat \<Rightarrow> (StoreEntry \<Rightarrow> StoreEntry) \<Rightarrow> store" where
  "write_at st i f \<equiv> st[i := f (st ! i)]"

text \<open>One statement of \<open>store_put\<close>, with the arguments of the call.\<close>

fun put_stmt :: "string \<Rightarrow> string \<Rightarrow> point \<Rightarrow> store \<Rightarrow> point \<times> store" where
  "put_stmt k v (Put_Test i free_slot) st =
     (if i < MAX_STORE
      then (if holds (st ! i) k then Old_Value i else Put_Free i free_slot, st)
      else (case free_slot of None \<Rightarrow> Done (Flag False) | Some j \<Rightarrow> New_Key j, st))"
| "put_stmt k v (Put_Free i free_slot) st =
     (Put_Test (Suc i) (if \<not> used (st ! i) \<and> free_slot = None then Some i else free_slot), st)"
| "put_stmt k v (Old_Value i) st = (Old_Value_End i, write_at st i (copy_value v))"
| "put_stmt k v (Old_Value_End i) st = (Done (Flag True), write_at st i end_value)"
| "put_stmt k v (New_Key j) st = (New_Key_End j, write_at st j (copy_key k))"
| "put_stmt k v (New_Key_End j) st = (New_Value j, write_at st j end_key)"
| "put_stmt k v (New_Value j) st = (New_Value_End j, write_at st j (copy_value v))"
| "put_stmt k v (New_Value_End j) st = (New_Used j, write_at st j end_value)"
| "put_stmt k v (New_Used j) st = (Done (Flag True), write_at st j (\<lambda>e. e\<lparr>used := True\<rparr>))"
| "put_stmt k v p st = (p, st)"

fun get_stmt :: "string \<Rightarrow> point \<Rightarrow> store \<Rightarrow> point \<times> store" where
  "get_stmt k (Get_Test i) st =
     (if i < MAX_STORE then (if holds (st ! i) k then Get_Copy i else Get_Test (Suc i), st)
      else (Done (Found None), st))"
| "get_stmt k (Get_Copy i) st = (Done (Found (Some (cstr (s_value (st ! i))))), st)"
| "get_stmt k p st = (p, st)"

fun del_stmt :: "string \<Rightarrow> point \<Rightarrow> store \<Rightarrow> point \<times> store" where
  "del_stmt k (Del_Test i) st =
     (if i < MAX_STORE then (if holds (st ! i) k then Del_Clear i else Del_Test (Suc i), st)
      else (Done (Flag False), st))"
| "del_stmt k (Del_Clear i) st = (Done (Flag True), write_at st i (\<lambda>e. e\<lparr>used := False\<rparr>))"
| "del_stmt k p st = (p, st)"

fun list_stmt :: "nat \<Rightarrow> point \<Rightarrow> store \<Rightarrow> point \<times> store" where
  "list_stmt buf_size (List_Test i count offset buf) st =
     (if i < MAX_STORE then
        (if used (st ! i) then
           let text = cstr (s_key (st ! i)) @ '' ''; n = length text;
               buf1 = take offset buf @ take (buf_size - offset - 1) text
           in if n \<ge> buf_size - offset then Done (Listing (count + 1, buf1))
              else List_Test (Suc i) (count + 1) (offset + n) buf1
         else List_Test (Suc i) count offset buf, st)
      else (Done (Listing (count, buf)), st))"
| "list_stmt buf_size p st = (p, st)"

fun stmt :: "call \<Rightarrow> point \<times> store \<Rightarrow> point \<times> store" where
  "stmt (Call_put k v) (p, st) = put_stmt k v p st"
| "stmt (Call_get k) (p, st) = get_stmt k p st"
| "stmt (Call_del k) (p, st) = del_stmt k p st"
| "stmt (Call_list old_buf buf_size) (p, st) = list_stmt buf_size p st"

section \<open>The threads\<close>

text \<open>
  A thread has calls to make, the point it is at inside the first of them (\<open>None\<close> before it has the
  lock), and the answers it got. \<open>acquired\<close> records who took the lock for which call; no statement
  reads it.
\<close>

record thread =
  todo :: "call list"
  at :: "point option"
  answers :: "answer list"

record shared =
  the_store :: store
  store_lock :: "nat option"
  threads :: "thread list"
  acquired :: "(nat \<times> call) list"

text \<open>\<open>pthread_mutex_lock\<close>, a statement, \<open>pthread_mutex_unlock\<close>.\<close>

inductive thread_step :: "shared \<Rightarrow> shared \<Rightarrow> bool" where
  lock: "\<lbrakk>i < length (threads s); threads s ! i = T; at T = None; todo T = c # cs; store_lock s = None\<rbrakk>
    \<Longrightarrow> thread_step s (s\<lparr>store_lock := Some i, threads := (threads s)[i := T\<lparr>at := Some (entry_point c)\<rparr>],
          acquired := acquired s @ [(i, c)]\<rparr>)"
| statement: "\<lbrakk>i < length (threads s); threads s ! i = T; at T = Some p; \<forall>a. p \<noteq> Done a; todo T = c # cs;
      stmt c (p, the_store s) = (p', st')\<rbrakk>
    \<Longrightarrow> thread_step s (s\<lparr>the_store := st', threads := (threads s)[i := T\<lparr>at := Some p'\<rparr>]\<rparr>)"
| unlock: "\<lbrakk>i < length (threads s); threads s ! i = T; at T = Some (Done a); todo T = c # cs\<rbrakk>
    \<Longrightarrow> thread_step s (s\<lparr>store_lock := None,
          threads := (threads s)[i := T\<lparr>at := None, todo := cs, answers := answers T @ [a]\<rparr>]\<rparr>)"

definition start :: "store \<Rightarrow> call list list \<Rightarrow> shared" where
  "start st progs = \<lparr>the_store = st, store_lock = None,
     threads = map (\<lambda>cs. \<lparr>todo = cs, at = None, answers = []\<rparr>) progs, acquired = []\<rparr>"

definition finished :: "shared \<Rightarrow> bool" where
  "finished s \<longleftrightarrow> list_all (\<lambda>T. todo T = []) (threads s)"

text \<open>The same calls as single operations.\<close>

fun at_once :: "call \<Rightarrow> store \<Rightarrow> answer \<times> store" where
  "at_once (Call_put k v) st = (Flag (fst (store_put st k v)), snd (store_put st k v))"
| "at_once (Call_get k) st = (Found (store_get st k), st)"
| "at_once (Call_del k) st = (Flag (fst (store_del st k)), snd (store_del st k))"
| "at_once (Call_list old_buf buf_size) st = (Listing (store_list st old_buf buf_size), st)"

section \<open>One call alone\<close>

definition leads :: "call \<Rightarrow> point \<times> store \<Rightarrow> point \<times> store \<Rightarrow> bool" where
  "leads c a b \<longleftrightarrow> (\<exists>n. (stmt c ^^ n) a = b)"

lemma leads_refl [simp]: "leads c a a"
  unfolding leads_def by (intro exI[of _ 0]) simp

lemma leads_step: "leads c (stmt c a) b \<Longrightarrow> leads c a b"
  unfolding leads_def by (metis funpow_simps_right(2) comp_apply)

lemma leads_snoc: "leads c a b \<Longrightarrow> leads c a (stmt c b)"
  unfolding leads_def by (metis funpow.simps(2) comp_apply)

lemma stmt_done [simp]: "stmt c (Done a, st) = (Done a, st)"
  by (cases c) simp_all

lemma length_store: "length (snd (stmt c (p, st))) = length st"
  by (cases c; cases p) (simp_all add: Let_def)

text \<open>A call that has come to its end is at the same end however many statements are counted.\<close>

lemma leads_done_unique: "leads c a (Done x, st) \<Longrightarrow> leads c a (Done y, st') \<Longrightarrow> x = y \<and> st = st'"
proof -
  have more: "(stmt c ^^ n) a = (Done x, st) \<Longrightarrow> n \<le> m \<Longrightarrow> (stmt c ^^ m) a = (Done x, st)" for n m x st
  proof (induction m)
    case (Suc m)
    then show ?case
      by (cases "n = Suc m") (simp_all add: le_Suc_eq)
  qed simp
  assume "leads c a (Done x, st)" "leads c a (Done y, st')"
  then obtain n m where "(stmt c ^^ n) a = (Done x, st)" "(stmt c ^^ m) a = (Done y, st')"
    by (auto simp: leads_def)
  then show ?thesis
    using more[of n x st "max n m"] more[of m y st' "max n m"] by simp
qed

lemma value_written: "end_value (copy_value v e) = set_value v e" "end_key (copy_key k e) = set_key k e"
  by (simp_all add: end_value_def copy_value_def set_value_def end_key_def copy_key_def set_key_def)

lemma old_written:
  assumes "i < length st"
  shows "leads (Call_put k v) (Old_Value i, st) (Done (Flag True), st[i := set_value v (st ! i)])"
  using assms by - (rule leads_step, simp add: value_written)+

lemma new_written:
  assumes "j < length st"
  shows "leads (Call_put k v) (New_Key j, st) (Done (Flag True), st[j := (set_value v (set_key k (st ! j)))\<lparr>used := True\<rparr>])"
  using assms by - (rule leads_step, simp add: value_written)+

lemma put_leads:
  assumes "length st = MAX_STORE" "i \<le> MAX_STORE" "\<And>j. f = Some j \<Longrightarrow> j < i"
  shows "leads (Call_put k v) (Put_Test i f, st)
    (case put_scan (drop i st) k i f of
       (Some i, _) \<Rightarrow> (Done (Flag True), st[i := set_value v (st ! i)])
     | (None, None) \<Rightarrow> (Done (Flag False), st)
     | (None, Some j) \<Rightarrow> (Done (Flag True), st[j := (set_value v (set_key k (st ! j)))\<lparr>used := True\<rparr>]))"
  using assms(2,3)
proof (induction "MAX_STORE - i" arbitrary: i f)
  case 0
  then show ?case
    using assms(1) new_written[of _ st] by - (rule leads_step, auto split: option.split)
next
  case (Suc n)
  then have i: "i < length st" and d: "drop i st = st ! i # drop (Suc i) st"
    using assms(1) by (simp_all add: Cons_nth_drop_Suc)
  show ?case
  proof (cases "holds (st ! i) k")
    case True
    then show ?thesis
      using i assms(1) old_written[OF i, of k v] by - (rule leads_step, simp add: d)
  next
    case False
    let ?f = "if \<not> used (st ! i) \<and> f = None then Some i else f"
    have "j < Suc i" if "?f = Some j" for j
      using that Suc.prems(2)[of j] by (auto split: if_splits)
    note IH = Suc.hyps(1)[of "Suc i" ?f, OF _ _ this]
    have "stmt (Call_put k v) (stmt (Call_put k v) (Put_Test i f, st)) = (Put_Test (Suc i) ?f, st)"
      using False i assms(1) by simp
    moreover have "put_scan (drop i st) k i f = put_scan (drop (Suc i) st) k (Suc i) ?f"
      using False by (simp add: d)
    ultimately show ?thesis
      using IH Suc.hyps(2) i assms(1) by - (rule leads_step, rule leads_step, simp)
  qed
qed


lemma get_leads:
  assumes "length st = MAX_STORE" "i \<le> MAX_STORE"
  shows "leads (Call_get k) (Get_Test i, st)
    (Done (Found (map_option (\<lambda>i. cstr (s_value (st ! i))) (scan (drop i st) k i))), st)"
  using assms(2)
proof (induction "MAX_STORE - i" arbitrary: i)
  case 0
  then show ?case
    using assms(1) by - (rule leads_step, simp)
next
  case (Suc n)
  then have i: "i < length st" and d: "drop i st = st ! i # drop (Suc i) st"
    using assms(1) by (simp_all add: Cons_nth_drop_Suc)
  show ?case
  proof (cases "holds (st ! i) k")
    case True
    then show ?thesis
      using i assms(1) by - (rule leads_step, simp add: d, rule leads_step, simp)
  next
    case False
    then show ?thesis
      using Suc.hyps(1)[of "Suc i"] Suc.hyps(2) i assms(1) by - (rule leads_step, simp add: d)
  qed
qed

lemma del_leads:
  assumes "length st = MAX_STORE" "i \<le> MAX_STORE"
  shows "leads (Call_del k) (Del_Test i, st)
    (case scan (drop i st) k i of None \<Rightarrow> (Done (Flag False), st)
     | Some i \<Rightarrow> (Done (Flag True), st[i := (st ! i)\<lparr>used := False\<rparr>]))"
  using assms(2)
proof (induction "MAX_STORE - i" arbitrary: i)
  case 0
  then show ?case
    using assms(1) by - (rule leads_step, simp)
next
  case (Suc n)
  then have i: "i < length st" and d: "drop i st = st ! i # drop (Suc i) st"
    using assms(1) by (simp_all add: Cons_nth_drop_Suc)
  show ?case
  proof (cases "holds (st ! i) k")
    case True
    then show ?thesis
      using i assms(1) by - (rule leads_step, simp add: d, rule leads_step, simp)
  next
    case False
    then show ?thesis
      using Suc.hyps(1)[of "Suc i"] Suc.hyps(2) i assms(1) by - (rule leads_step, simp add: d)
  qed
qed

lemma list_leads:
  assumes "length st = MAX_STORE" "i \<le> MAX_STORE"
  shows "leads (Call_list ob bs) (List_Test i count offset buf, st)
    (Done (Listing (list_loop (drop i st) bs count offset buf)), st)"
  using assms(2)
proof (induction "MAX_STORE - i" arbitrary: i count offset buf)
  case 0
  then show ?case
    using assms(1) by - (rule leads_step, simp)
next
  case (Suc n)
  then have i: "i < length st" and d: "drop i st = st ! i # drop (Suc i) st"
    using assms(1) by (simp_all add: Cons_nth_drop_Suc)
  note IH = Suc.hyps(1)[of "Suc i"]
  have "stmt (Call_list ob bs) (List_Test i count offset buf, st) =
      (let text = cstr (s_key (st ! i)) @ '' ''; buf1 = take offset buf @ take (bs - offset - 1) text in
       if \<not> used (st ! i) then (List_Test (Suc i) count offset buf, st)
       else if length text \<ge> bs - offset then (Done (Listing (count + 1, buf1)), st)
       else (List_Test (Suc i) (count + 1) (offset + length text) buf1, st))"
    using i assms(1) by (simp add: Let_def)
  moreover have "list_loop (drop i st) bs count offset buf =
      (let text = cstr (s_key (st ! i)) @ '' ''; buf1 = take offset buf @ take (bs - offset - 1) text in
       if \<not> used (st ! i) then list_loop (drop (Suc i) st) bs count offset buf
       else if length text \<ge> bs - offset then (count + 1, buf1)
       else list_loop (drop (Suc i) st) bs (count + 1) (offset + length text) buf1)"
    by (simp add: d Let_def)
  ultimately show ?case
    using IH Suc.hyps(2) i assms(1)
    by - (rule leads_step, simp only: Let_def split: if_split, auto)
qed

lemma call_leads:
  assumes "length st = MAX_STORE"
  shows "leads c (entry_point c, st) (Done (fst (at_once c st)), snd (at_once c st))"
proof (cases c)
  case (Call_put k v)
  show ?thesis
    using put_leads[OF assms, of 0 None k v] Call_put
    by (auto simp: store_put_def split: prod.splits option.splits)
next
  case (Call_get k)
  then show ?thesis
    using get_leads[OF assms, of 0 k] by (simp add: store_get_def)
next
  case (Call_del k)
  then show ?thesis
    using del_leads[OF assms, of 0 k] by (simp add: store_del_def split: option.splits)
next
  case (Call_list ob bs)
  then show ?thesis
    using list_leads[OF assms, of 0 ob bs 0 0 ob] by (simp add: store_list_def)
qed


section \<open>All threads\<close>

text \<open>The calls that have returned, in the order in which they got the lock.\<close>

definition served :: "shared \<Rightarrow> (nat \<times> call) list" where
  "served s = (case store_lock s of None \<Rightarrow> acquired s | Some _ \<Rightarrow> butlast (acquired s))"

definition calls_of :: "(nat \<times> call) list \<Rightarrow> nat \<Rightarrow> call list" where
  "calls_of xs i = map snd (filter (\<lambda>x. fst x = i) xs)"

definition store_after :: "store \<Rightarrow> (nat \<times> call) list \<Rightarrow> store" where
  "store_after st xs = snd (run_cmds at_once (map snd xs) st)"

definition answers_of :: "store \<Rightarrow> (nat \<times> call) list \<Rightarrow> nat \<Rightarrow> answer list" where
  "answers_of st xs i =
     map snd (filter (\<lambda>x. fst x = i) (zip (map fst xs) (fst (run_cmds at_once (map snd xs) st))))"

lemma snoc_simps:
  "calls_of (xs @ [(j, c)]) i = calls_of xs i @ (if j = i then [c] else [])"
  "store_after st (xs @ [(j, c)]) = snd (at_once c (store_after st xs))"
  "answers_of st (xs @ [(j, c)]) i = answers_of st xs i @ (if j = i then [fst (at_once c (store_after st xs))] else [])"
proof -
  have len: "length (fst (run_cmds at_once cs st)) = length cs" for cs st
    by (induction cs arbitrary: st) (simp_all add: Let_def split_beta)
  show "calls_of (xs @ [(j, c)]) i = calls_of xs i @ (if j = i then [c] else [])"
    "store_after st (xs @ [(j, c)]) = snd (at_once c (store_after st xs))"
    "answers_of st (xs @ [(j, c)]) i = answers_of st xs i @ (if j = i then [fst (at_once c (store_after st xs))] else [])"
    by (simp_all add: calls_of_def store_after_def answers_of_def run_cmds_append Let_def split_beta len)
qed

lemma leads_length: "leads c a b \<Longrightarrow> length (snd b) = length (snd a)"
proof -
  have "length (snd ((stmt c ^^ n) a)) = length (snd a)" for n
  proof (induction n)
    case (Suc n)
    then show ?case
      using length_store[of c "fst ((stmt c ^^ n) a)" "snd ((stmt c ^^ n) a)"] by simp
  qed simp
  then show "leads c a b \<Longrightarrow> length (snd b) = length (snd a)"
    by (auto simp: leads_def)
qed

lemma length_store_after: "length st = MAX_STORE \<Longrightarrow> length (store_after st xs) = MAX_STORE"
proof (induction xs rule: rev_induct)
  case (snoc x xs)
  then show ?case
    using leads_length[OF call_leads[of "store_after st xs" "snd x"]] by (cases x) (simp add: snoc_simps)
qed (simp add: store_after_def)

text \<open>
  Between calls the store is that of the served calls; during a call only its thread is past the
  lock, and it is on the way of that call alone.
\<close>

definition lock_inv :: "store \<Rightarrow> call list list \<Rightarrow> shared \<Rightarrow> bool" where
  "lock_inv st progs s \<longleftrightarrow> length st = MAX_STORE \<and> length (threads s) = length progs \<and>
     (\<forall>x\<in>set (acquired s). fst x < length progs) \<and>
     (\<forall>i<length progs. progs ! i = calls_of (served s) i @ todo (threads s ! i) \<and>
        answers (threads s ! i) = answers_of st (served s) i \<and>
        (at (threads s ! i) \<noteq> None \<longrightarrow> store_lock s = Some i)) \<and>
     (case store_lock s of
        None \<Rightarrow> the_store s = store_after st (served s)
      | Some h \<Rightarrow> h < length progs \<and> (\<exists>c cs p. acquired s = served s @ [(h, c)] \<and>
          at (threads s ! h) = Some p \<and> todo (threads s ! h) = c # cs \<and>
          leads c (entry_point c, store_after st (served s)) (p, the_store s)))"

lemma lock_inv_start: "length st = MAX_STORE \<Longrightarrow> lock_inv st progs (start st progs)"
  by (simp add: lock_inv_def start_def served_def calls_of_def answers_of_def store_after_def)

lemma lock_invD:
  assumes "lock_inv st progs s" "i < length (threads s)" "at (threads s ! i) = Some p" "todo (threads s ! i) = c # cs"
  shows "store_lock s = Some i" "acquired s = served s @ [(i, c)]"
    "leads c (entry_point c, store_after st (served s)) (p, the_store s)"
  using assms by (auto simp: lock_inv_def)

lemma lock_inv_step:
  assumes inv: "lock_inv st progs s" and step: "thread_step s t"
  shows "lock_inv st progs t"
  using step
proof cases
  case (lock i T c cs)
  have "served t = served s" "acquired s = served s"
    using lock by (simp_all add: served_def)
  then show ?thesis
    using inv lock by (auto simp: lock_inv_def nth_list_update split: option.splits)
next
  case (statement i T p c cs p' st')
  note d = lock_invD[OF inv, of i p c cs]
  have "served t = served s" "store_lock s = Some i"
    using statement d by (simp_all add: served_def)
  then show ?thesis
    using inv statement d leads_snoc[of c "(entry_point c, store_after st (served s))" "(p, the_store s)"]
    by (auto simp: lock_inv_def nth_list_update)
next
  case (unlock i T a c cs)
  note d = lock_invD[OF inv, of i "Done a" c cs]
  have "length (store_after st (served s)) = MAX_STORE"
    using inv by (simp add: lock_inv_def length_store_after)
  from leads_done_unique[OF d(3) call_leads[OF this]] unlock
  have a: "a = fst (at_once c (store_after st (served s)))" "the_store s = snd (at_once c (store_after st (served s)))"
    by auto
  have t: "served t = served s @ [(i, c)]" "store_lock s = Some i" "store_lock t = None" "the_store t = the_store s"
    "threads t = (threads s)[i := T\<lparr>at := None, todo := cs, answers := answers T @ [a]\<rparr>]" "acquired t = acquired s"
    using unlock d by (simp_all add: served_def)
  have s: "length (threads s) = length progs" "i < length progs"
    using inv unlock by (simp_all add: lock_inv_def)
  have old: "progs ! j = calls_of (served s) j @ todo (threads s ! j) \<and> answers (threads s ! j) = answers_of st (served s) j \<and>
      (at (threads s ! j) \<noteq> None \<longrightarrow> i = j)" if "j < length progs" for j
    using inv that t(2) by (simp add: lock_inv_def)
  have "progs ! j = calls_of (served t) j @ todo (threads t ! j) \<and> answers (threads t ! j) = answers_of st (served t) j \<and>
      at (threads t ! j) = None" if "j < length progs" for j
  proof (cases "j = i")
    case True
    then show ?thesis
      using old[OF that] unlock s unfolding t(1,5) snoc_simps a(1) by simp
  next
    case False
    then show ?thesis
      using old[OF that] unfolding t(1,5) snoc_simps by simp
  qed
  moreover have "the_store t = store_after st (served t)"
    unfolding t(1,4) snoc_simps by (rule a(2))
  ultimately show ?thesis
    using inv s unfolding lock_inv_def t(3,5,6) by simp
qed

text \<open>Every statement brings a call closer to its end.\<close>

fun rank :: "point \<Rightarrow> nat" where
  "rank (Put_Test i f) = 2 * (MAX_STORE - i) + 10"
| "rank (Put_Free i f) = 2 * (MAX_STORE - Suc i) + 11"
| "rank (Old_Value i) = 7" | "rank (Old_Value_End i) = 6"
| "rank (New_Key j) = 7" | "rank (New_Key_End j) = 6" | "rank (New_Value j) = 5"
| "rank (New_Value_End j) = 4" | "rank (New_Used j) = 3"
| "rank (Get_Test i) = MAX_STORE - i + 3" | "rank (Get_Copy i) = 2"
| "rank (Del_Test i) = MAX_STORE - i + 3" | "rank (Del_Clear i) = 2"
| "rank (List_Test i count offset buf) = MAX_STORE - i + 3"
| "rank (Done a) = 1"

fun point_of :: "call \<Rightarrow> point \<Rightarrow> bool" where
  "point_of c (Done a) \<longleftrightarrow> True"
| "point_of (Call_get k) p \<longleftrightarrow> (\<exists>i. p = Get_Test i \<or> p = Get_Copy i)"
| "point_of (Call_del k) p \<longleftrightarrow> (\<exists>i. p = Del_Test i \<or> p = Del_Clear i)"
| "point_of (Call_list ob bs) p \<longleftrightarrow> (\<exists>i count offset buf. p = List_Test i count offset buf)"
| "point_of (Call_put k v) p \<longleftrightarrow> (\<exists>i f. p = Put_Test i f \<or> p = Put_Free i f \<or> p = Old_Value i \<or> p = Old_Value_End i \<or>
     p = New_Key i \<or> p = New_Key_End i \<or> p = New_Value i \<or> p = New_Value_End i \<or> p = New_Used i)"

lemma stmt_rank:
  assumes "point_of c p" "\<forall>a. p \<noteq> Done a" "stmt c (p, st) = (p', st')"
  shows "point_of c p' \<and> rank p' < rank p"
  using assms by (cases c; cases p) (auto simp: Let_def split: if_splits option.splits)


lemma leads_point:
  assumes "leads c (entry_point c, st) (p, st')"
  shows "point_of c p"
proof -
  have "point_of c (fst ((stmt c ^^ n) (entry_point c, st)))" for n
  proof (induction n)
    case 0
    show ?case by (cases c) auto
  next
    case (Suc n)
    obtain q st1 where q: "(stmt c ^^ n) (entry_point c, st) = (q, st1)"
      by fastforce
    show ?case
    proof (cases "\<exists>a. q = Done a")
      case False
      then show ?thesis
        using Suc q stmt_rank[of c q st1] by (cases "stmt c (q, st1)") simp
    qed (use Suc q in auto)
  qed
  then show ?thesis
    using assms by (metis fst_conv leads_def)
qed

definition call_bound :: nat where
  "call_bound = 2 * MAX_STORE + 11"

definition thread_weight :: "thread \<Rightarrow> nat" where
  "thread_weight T =
     (case at T of None \<Rightarrow> call_bound * length (todo T)
      | Some p \<Rightarrow> call_bound * (length (todo T) - 1) + rank p)"

definition lock_weight :: "shared \<Rightarrow> nat" where
  "lock_weight s = sum_list (map thread_weight (threads s))"

lemma lock_weight_update:
  assumes "i < length ts" "thread_weight T' < thread_weight (ts ! i)"
  shows "sum_list (map thread_weight (ts[i := T'])) < sum_list (map thread_weight ts)"
proof -
  have "ts = take i ts @ ts ! i # drop (Suc i) ts"
    using assms(1) by (rule id_take_nth_drop)
  then have "sum_list (map thread_weight ts) = sum_list (map thread_weight (take i ts)) +
      (thread_weight (ts ! i) + sum_list (map thread_weight (drop (Suc i) ts)))"
    by (metis list.simps(9) map_append sum_list.Cons sum_list_append)
  then show ?thesis
    using assms by (simp add: upd_conv_take_nth_drop)
qed

lemma lock_step_weight:
  assumes inv: "lock_inv st progs s" and step: "thread_step s t"
  shows "lock_weight t < lock_weight s"
  using step
proof cases
  case (lock i T c cs)
  have "rank (entry_point c) < call_bound"
    by (cases c) (simp_all add: call_bound_def)
  then show ?thesis
    using lock unfolding lock_weight_def by (auto intro!: lock_weight_update simp: thread_weight_def)
next
  case (statement i T p c cs p' st')
  have "point_of c p"
    using lock_invD(3)[OF inv, of i p c cs] statement leads_point by auto
  then have "rank p' < rank p"
    using stmt_rank statement by blast
  then show ?thesis
    using statement unfolding lock_weight_def by (auto intro!: lock_weight_update simp: thread_weight_def)
next
  case (unlock i T a c cs)
  then show ?thesis
    unfolding lock_weight_def by (auto intro!: lock_weight_update simp: thread_weight_def)
qed

lemma lock_progress:
  assumes inv: "lock_inv st progs s" and "\<not> finished s"
  shows "\<exists>t. thread_step s t"
proof (cases "store_lock s")
  case None
  obtain i where i: "i < length (threads s)" "todo (threads s ! i) \<noteq> []"
    using assms(2) by (auto simp: finished_def list_all_length)
  then have "at (threads s ! i) = None"
    using inv None by (fastforce simp: lock_inv_def)
  then show ?thesis
    using i None thread_step.lock[OF i(1) refl] by (cases "todo (threads s ! i)") auto
next
  case (Some h)
  then obtain c cs p where h: "h < length (threads s)" "at (threads s ! h) = Some p" "todo (threads s ! h) = c # cs"
    using inv by (auto simp: lock_inv_def)
  show ?thesis
  proof (cases "\<exists>a. p = Done a")
    case True
    then show ?thesis
      using h thread_step.unlock[OF h(1) refl] by blast
  next
    case False
    then show ?thesis
      using thread_step.statement[OF h(1) refl h(2) _ h(3)] by (metis surj_pair)
  qed
qed

lemma finished_free:
  assumes inv: "lock_inv st progs s" and "finished s"
  shows "store_lock s = None"
proof (cases "store_lock s")
  case (Some h)
  then obtain c cs where "h < length progs" "todo (threads s ! h) = c # cs"
    using inv by (auto simp only: lock_inv_def option.case)
  moreover have "length (threads s) = length progs"
    using inv by (simp add: lock_inv_def)
  ultimately show ?thesis
    using assms(2) by (fastforce simp: finished_def list_all_length)
qed simp

interpretation sl: finishing_system thread_step "lock_inv st progs" lock_weight finished for st progs
  by unfold_locales (auto intro: lock_inv_step lock_step_weight lock_progress)

section \<open>Linearizability\<close>

text \<open>
  C8: The lock makes the store operations atomic. Let any number of threads call the operations of
  the store, each running them statement by statement, in any interleaving. Whenever nobody holds
  the lock, the store and every answer given so far are those of performing the calls as single
  operations, one after the other in the order in which they got the lock; a thread's calls get it
  in the thread's order. No run is longer than a bound that grows with the number of calls only,
  and none stops before every call has returned.
\<close>

theorem store_lock_linearizes:
  assumes "length st = MAX_STORE" "thread_step\<^sup>*\<^sup>* (start st progs) s"
  shows "(store_lock s = None \<longrightarrow> the_store s = store_after st (acquired s) \<and>
      (\<forall>i<length progs. answers (threads s ! i) = answers_of st (acquired s) i \<and>
         progs ! i = calls_of (acquired s) i @ todo (threads s ! i))) \<and>
    ((\<forall>t. \<not> thread_step s t) \<longrightarrow> store_lock s = None \<and> finished s) \<and>
    (\<forall>n t. (thread_step ^^ n) (start st progs) t \<longrightarrow> n \<le> call_bound * sum_list (map length progs))"
proof -
  have start: "lock_inv st progs (start st progs)"
    by (rule lock_inv_start[OF assms(1)])
  have inv: "lock_inv st progs s"
    using sl.run_inv[OF assms(2) start] .
  have "lock_weight (start st progs) = call_bound * sum_list (map length progs)"
    unfolding lock_weight_def start_def by (induction progs) (simp_all add: thread_weight_def add_mult_distrib2)
  then have bound: "n \<le> call_bound * sum_list (map length progs)" if "(thread_step ^^ n) (start st progs) t" for n t
    using sl.run_length[OF that start] by simp
  have fin: "finished s" if "\<forall>t. \<not> thread_step s t"
    using lock_progress[OF inv] that by blast
  have main: "the_store s = store_after st (acquired s) \<and>
      (\<forall>i<length progs. answers (threads s ! i) = answers_of st (acquired s) i \<and>
         progs ! i = calls_of (acquired s) i @ todo (threads s ! i))" if "store_lock s = None"
    using inv that by (simp add: lock_inv_def served_def)
  show ?thesis
    by (intro conjI impI) (use main fin finished_free[OF inv] bound in simp_all)
qed

text \<open>One thread stores while another looks up: the run can be completed, and has one of the two orders.\<close>

theorem store_lock_linearizes_witness:
  "\<exists>s. thread_step\<^sup>*\<^sup>* (start store_init [[Call_put ''k'' ''v''], [Call_get ''k'']]) s \<and> finished s \<and>
     the_store s = store_after store_init (acquired s) \<and>
     calls_of (acquired s) 0 = [Call_put ''k'' ''v''] \<and> calls_of (acquired s) 1 = [Call_get ''k'']"
proof -
  define progs where "progs = [[Call_put ''k'' ''v''], [Call_get ''k'']]"
  have len: "length store_init = MAX_STORE"
    by (simp add: store_init_def)
  have start: "lock_inv store_init progs (start store_init progs)"
    by (rule lock_inv_start[OF len])
  obtain s where s: "thread_step\<^sup>*\<^sup>* (start store_init progs) s" "finished s"
    using sl.reaches_final[OF start] by blast
  have inv: "lock_inv store_init progs s"
    by (rule sl.run_inv[OF s(1) start])
  have "todo (threads s ! i) = []" if "i < length progs" for i
    using s(2) inv that by (simp add: finished_def list_all_length lock_inv_def)
  then have "todo (threads s ! 0) = []" "todo (threads s ! 1) = []"
    by (simp_all add: progs_def)
  moreover have "the_store s = store_after store_init (acquired s) \<and>
      (\<forall>i<length progs. answers (threads s ! i) = answers_of store_init (acquired s) i \<and>
         progs ! i = calls_of (acquired s) i @ todo (threads s ! i))"
    using store_lock_linearizes[OF len s(1)] finished_free[OF inv s(2)] by blast
  ultimately show ?thesis
    using s unfolding progs_def by (intro exI[of _ s]) (auto simp: less_Suc_eq)
qed

end
