(* ===== verification/Server_Props.thy ===== *)
theory Server_Props
  imports Server_Correct
begin

text \<open>
  Properties of the server: the store over whole histories, linearity of the threads' operations on
  it, authentication and lockout, the line protocol, and the inputs on which a reply is wrong.
\<close>

section \<open>Shared lemmas\<close>

lemma scan_word_simps:
  "scan_word n s = (w, r) \<Longrightarrow> length w \<le> n \<and> (nonul s \<longrightarrow> nonul w \<and> nonul r)"
  by (auto simp: scan_word_def Let_def nonul_def list_all_iff dest: in_set_takeD in_set_dropD set_takeWhileD set_dropWhileD)

lemma scan_rest_simps: "length (scan_rest n s) \<le> n \<and> (nonul s \<longrightarrow> nonul (scan_rest n s))"
  by (auto simp: scan_rest_def nonul_def list_all_iff dest: in_set_takeD set_takeWhileD set_dropWhileD)

lemma parse_sizes:
  assumes "parse_line l = (cmd, a1, a2)"
  shows "length cmd \<le> 63" "length a1 \<le> 63" "length a2 \<le> 399" "nonul l \<Longrightarrow> nonul a2"
proof -
  obtain c s1 a s2 where w: "scan_word 63 l = (c, s1)" "scan_word 63 s1 = (a, s2)"
    by fastforce
  show "length cmd \<le> 63" "length a1 \<le> 63" "length a2 \<le> 399" "nonul l \<Longrightarrow> nonul a2"
    using assms w scan_word_simps[OF w(1)] scan_word_simps[OF w(2)] scan_rest_simps[of 399 s2]
    by (auto simp: parse_line_def Let_def split: if_splits)
qed

lemma token_key: "is_valid_token k (MAX_KEY - 1) \<Longrightarrow> key_ok k"
  by (auto simp: is_valid_token_def key_ok_def nonul_def list_all_iff MAX_KEY_def NUL_def)

text \<open>The store command a round performs, if any.\<close>

definition line_cmd :: "conn \<Rightarrow> string \<Rightarrow> store_cmd option" where
  "line_cmd c line =
     (let (cmd, a1, a2) = parse_line line in
      if \<not> authenticated c \<or> \<not> is_valid_token a1 (MAX_KEY - 1) then None
      else if cmd = ''PUT'' \<and> a2 \<noteq> [] then Some (Put a1 a2)
      else if cmd = ''GET'' then Some (Get a1)
      else if cmd = ''DEL'' then Some (Del a1)
      else None)"

fun round_cmd :: "conn \<Rightarrow> recv_result \<Rightarrow> store_cmd option" where
  "round_cmd c (Got n line) = line_cmd c line"
| "round_cmd c _ = None"

fun round_ok :: "recv_result \<Rightarrow> bool" where
  "round_ok (Got n line) \<longleftrightarrow> nonul line"
| "round_ok _ \<longleftrightarrow> True"

fun event_ok :: "event \<Rightarrow> bool" where
  "event_ok (Accept i) \<longleftrightarrow> True"
| "event_ok Refused \<longleftrightarrow> True"
| "event_ok (Round i b r) \<longleftrightarrow> round_ok r"

lemma value_size: "parse_line l = (cmd, a1, a2) \<Longrightarrow> \<not> length a2 > MAX_VALUE - 1"
  using parse_sizes(3)[of l cmd a1 a2] by (simp add: MAX_VALUE_def)

lemma round_store:
  "snd (snd (handle_round b r c st)) = (case round_cmd c r of None \<Rightarrow> st | Some k \<Rightarrow> snd (store_step k st))"
proof (cases r)
  case (Got n line)
  obtain cmd a1 a2 where p: "parse_line line = (cmd, a1, a2)"
    by (metis prod_cases3)
  then show ?thesis
    using Got value_size[OF p]
    by (auto simp: handle_round_def handle_line_def line_cmd_def Let_def split_beta)
qed (simp_all add: handle_round_def)

lemma round_cmd_ok: "round_ok r \<Longrightarrow> round_cmd c r = Some k \<Longrightarrow> store_cmd_ok k"
proof (cases r)
  case (Got n line)
  assume "round_ok r" "round_cmd c r = Some k"
  obtain cmd a1 a2 where p: "parse_line line = (cmd, a1, a2)"
    by (metis prod_cases3)
  have "val_ok a2"
    using parse_sizes(3,4)[OF p] \<open>round_ok r\<close> Got by (simp add: val_ok_def MAX_VALUE_def)
  then show ?thesis
    using \<open>round_cmd c r = Some k\<close> Got p token_key by (auto simp: line_cmd_def split: if_splits)
qed simp_all

section \<open>The store over histories of all threads\<close>

text \<open>The store commands of a sequence of events, in the order of the events.\<close>

fun event_cmd :: "event \<Rightarrow> server \<Rightarrow> store_cmd list" where
  "event_cmd (Accept i) s = []"
| "event_cmd Refused s = []"
| "event_cmd (Round i b r) s =
     (case conns s i of None \<Rightarrow> []
      | Some c \<Rightarrow> if running c then (case round_cmd c r of None \<Rightarrow> [] | Some k \<Rightarrow> [k]) else [])"

fun history :: "event list \<Rightarrow> server \<Rightarrow> store_cmd list" where
  "history [] s = []"
| "history (ev # evs) s = event_cmd ev s @ history evs (snd (server_step ev s))"

lemma step_store:
  "srv_store (snd (server_step ev s)) = snd (run_cmds store_step (event_cmd ev s) (srv_store s))"
proof (cases ev)
  case (Round i b r)
  then show ?thesis
    using round_store[of b r _ "srv_store s"]
    by (auto simp: server_step_def split_beta Let_def split: option.split)
qed (simp_all add: server_step_def)

lemma history_store:
  "srv_store (snd (run_cmds server_step evs s)) = snd (run_cmds store_step (history evs s) (srv_store s))"
proof (induction evs arbitrary: s)
  case (Cons ev evs)
  then show ?case
    by (simp add: split_beta Let_def run_cmds_append step_store)
qed simp

lemma event_cmd_mem:
  assumes "x \<in> set (event_cmd (Round i b r) s)"
  shows "\<exists>c. round_cmd c r = Some x"
proof (cases "conns s i")
  case (Some c)
  then show ?thesis
    using assms by (cases "round_cmd c r"; cases "running c") auto
qed (use assms in simp)

lemma event_cmds_ok: "event_ok ev \<Longrightarrow> k \<in> set (event_cmd ev s) \<Longrightarrow> store_cmd_ok k"
proof (cases ev)
  case (Round i b r)
  assume "event_ok ev" "k \<in> set (event_cmd ev s)"
  then obtain c where "round_cmd c r = Some k"
    using Round event_cmd_mem by blast
  then show ?thesis
    using round_cmd_ok[of r c k] \<open>event_ok ev\<close> Round by simp
qed simp_all

lemma history_ok: "list_all event_ok evs \<Longrightarrow> k \<in> set (history evs s) \<Longrightarrow> store_cmd_ok k"
  by (induction evs arbitrary: s) (auto dest: event_cmds_ok)

lemma cmds_all_ok: "(\<And>k. k \<in> set ks \<Longrightarrow> store_cmd_ok k) \<Longrightarrow> all_ok (\<lambda>c _. store_cmd_ok c) store_step ks st"
  by (induction ks arbitrary: st) auto

text \<open>
  The store is a map. Every history of puts, gets and deletions with keys and values that fit
  their arrays returns, operation by operation, what a finite map with room for 128 keys returns,
  from the initial store on: a put fails only for a new key when 128 keys are in use.
\<close>

theorem store_implements_map:
  assumes "list_all store_cmd_ok ks"
  shows "run_cmds map_step ks Map.empty =
    (fst (run_cmds store_step ks store_init), store_map (snd (run_cmds store_step ks store_init)))"
proof -
  have "all_ok (\<lambda>c _. store_cmd_ok c) store_step ks store_init"
    using assms by (intro cmds_all_ok) (simp add: list_all_iff)
  from sm.run_sim[OF store_init_inv(1) this] show ?thesis
    by (simp add: store_init_inv)
qed

theorem store_implements_map_witness:
  "fst (run_cmds store_step [Put ''k'' ''1'', Put ''k'' ''2'', Get ''k'', Del ''k'', Get ''k''] store_init) =
     [(True, None), (True, None), (True, Some ''2''), (True, None), (False, None)]"
  using store_implements_map[of "[Put ''k'' ''1'', Put ''k'' ''2'', Get ''k'', Del ''k'', Get ''k'']"]
  by (simp add: key_ok_def val_ok_def NUL_def MAX_KEY_def MAX_VALUE_def MAX_STORE_def)

text \<open>
  C14: The threads are linearizable. However the rounds of any number of clients interleave, the
  store at the end stands for the map that results from performing the clients' store commands one
  after the other in the order of their rounds; it keeps its shape, and no key is held twice.
\<close>

theorem server_store_linear:
  assumes "list_all event_ok evs"
  shows "store_inv (srv_store (snd (run_cmds server_step evs server_init))) \<and>
    store_map (srv_store (snd (run_cmds server_step evs server_init))) =
      snd (run_cmds map_step (history evs server_init) Map.empty)"
proof -
  have ok: "all_ok (\<lambda>c _. store_cmd_ok c) store_step (history evs server_init) store_init"
    using history_ok[OF assms] by (intro cmds_all_ok)
  show ?thesis
    using sm.run_sim[OF store_init_inv(1) ok] sm.run_inv[OF store_init_inv(1) ok]
    by (simp add: history_store store_init_inv) (simp add: server_init_def)
qed

section \<open>Authentication\<close>

lemma auth_step:
  assumes "handle_round b r c st = (acts, c1, st1)"
  shows "authenticated c1 \<Longrightarrow> authenticated c \<or>
      (\<exists>n line u p. r = Got n line \<and> parse_line line = (''AUTH'', u, p) \<and> (u, p) \<in> set VALID_USERS)"
    and "\<not> authenticated c \<Longrightarrow> st1 = st \<and> (\<forall>b' st'. handle_round b' r c st' = (acts, c1, st'))"
    and "auth_attempts c \<le> 2 \<Longrightarrow> auth_attempts c1 \<le> 3 \<and> (running c1 \<longrightarrow> auth_attempts c1 \<le> 2)"
proof -
  show "authenticated c1 \<Longrightarrow> authenticated c \<or>
      (\<exists>n line u p. r = Got n line \<and> parse_line line = (''AUTH'', u, p) \<and> (u, p) \<in> set VALID_USERS)"
    using assms
    by (cases r) (auto simp: handle_round_def handle_line_def handle_auth_def Let_def split_beta list_ex_iff prod_eq_iff
        split: if_splits)
  show "\<not> authenticated c \<Longrightarrow> st1 = st \<and> (\<forall>b' st'. handle_round b' r c st' = (acts, c1, st'))"
    using assms by (cases r) (auto simp: handle_round_def handle_line_def Let_def split_beta split: if_splits)
  show "auth_attempts c \<le> 2 \<Longrightarrow> auth_attempts c1 \<le> 3 \<and> (running c1 \<longrightarrow> auth_attempts c1 \<le> 2)"
    using assms
    by (cases r) (auto simp: handle_round_def handle_line_def handle_auth_def Let_def split_beta MAX_AUTH_ATTEMPTS_def
        split: if_splits)
qed

text \<open>What holds of every connection in every run, after the events \<open>evs\<close>.\<close>

definition valid_auth :: "nat \<Rightarrow> event \<Rightarrow> bool" where
  "valid_auth i ev \<longleftrightarrow> (\<exists>b n line u p. ev = Round i b (Got n line) \<and>
     parse_line line = (''AUTH'', u, p) \<and> (u, p) \<in> set VALID_USERS)"

definition conn_inv :: "event list \<Rightarrow> nat \<Rightarrow> conn \<Rightarrow> bool" where
  "conn_inv evs i c \<longleftrightarrow> auth_attempts c \<le> 3 \<and> (running c \<longrightarrow> auth_attempts c \<le> 2) \<and>
     (authenticated c \<longrightarrow> (\<exists>ev\<in>set evs. valid_auth i ev))"

lemma conn_inv_step:
  assumes "\<And>i c. conns s i = Some c \<Longrightarrow> conn_inv evs i c" "conns (snd (server_step ev s)) i = Some c"
  shows "conn_inv (evs @ [ev]) i c"
proof (cases ev)
  case (Accept j)
  then show ?thesis
    using assms by (fastforce simp: server_step_def conn_inv_def conn_init_def split: if_splits)
next
  case Refused
  then show ?thesis
    using assms by (fastforce simp: server_step_def conn_inv_def)
next
  case (Round j b r)
  show ?thesis
  proof (cases "j = i \<and> (\<exists>d. conns s i = Some d \<and> running d)")
    case True
    then obtain d where d: "conns s i = Some d" "running d" "j = i"
      by blast
    obtain acts c1 st1 where h: "handle_round b r d (srv_store s) = (acts, c1, st1)"
      by (metis prod_cases3)
    have "c = c1"
      using assms(2) d h Round by (simp add: server_step_def)
    moreover have "authenticated c1 \<Longrightarrow> authenticated d \<or> valid_auth i ev"
      using auth_step(1)[OF h] d(3) Round by (auto simp: valid_auth_def)
    ultimately show ?thesis
      using auth_step(3)[OF h] assms(1)[OF d(1)] d(2) by (auto simp: conn_inv_def)
  next
    case False
    then have "conns s i = Some c"
      using assms(2) Round by (auto simp: server_step_def Let_def split_beta split: option.splits if_splits)
    then show ?thesis
      using assms(1) by (fastforce simp: conn_inv_def)
  qed
qed

lemma conn_inv_run:
  "conns (snd (run_cmds server_step evs server_init)) i = Some c \<Longrightarrow> conn_inv evs i c"
proof (induction evs arbitrary: i c rule: rev_induct)
  case (snoc ev evs)
  show ?case
    using conn_inv_step[of "snd (run_cmds server_step evs server_init)" evs ev i c] snoc
    by (simp add: run_cmds_append Let_def split_beta)
qed (simp add: server_init_def)

text \<open>
  C16: Only clients that authenticated reach the store. In every run of the server a connection is
  marked authenticated only if that very client sent an \<open>AUTH\<close> line with a valid pair of name and
  password; a round of a client not authenticated leaves the store alone, and what the client is
  sent does not depend on the store.
\<close>

theorem store_needs_authentication:
  assumes "conns (snd (run_cmds server_step evs server_init)) i = Some c"
  shows "(authenticated c \<longrightarrow> (\<exists>b n line u p. Round i b (Got n line) \<in> set evs \<and>
      parse_line line = (''AUTH'', u, p) \<and> (u, p) \<in> set VALID_USERS)) \<and>
    (\<not> authenticated c \<longrightarrow> (\<exists>acts c1. \<forall>b st. handle_round b r c st = (acts, c1, st)))"
proof -
  have "\<exists>acts c1. \<forall>b st. handle_round b r c st = (acts, c1, st)" if "\<not> authenticated c"
  proof -
    obtain acts c1 st1 where h: "handle_round [] r c store_init = (acts, c1, st1)"
      by (metis prod_cases3)
    then have "\<forall>b st. handle_round b r c st = (acts, c1, st)"
      using auth_step(2)[OF h that] by blast
    then show ?thesis
      by blast
  qed
  then show ?thesis
    using conn_inv_run[OF assms] by (auto simp: conn_inv_def valid_auth_def) blast+
qed

text \<open>
  Lockout. In every run no connection ever counts more than three failed authentications, a
  connection still served has at most two, a wrong \<open>AUTH\<close> line on a connection with two failures
  closes it, and nothing received later on a closed connection has any effect.
\<close>

theorem three_failures_close:
  assumes "s = snd (run_cmds server_step evs server_init)" "conns s i = Some c"
    and "parse_line line = (''AUTH'', u, p)" "(u, p) \<notin> set VALID_USERS" "\<not> authenticated c"
  shows "auth_attempts c \<le> 3 \<and> (running c \<longrightarrow> auth_attempts c \<le> 2) \<and>
    (running c \<longrightarrow> auth_attempts c = 2 \<longrightarrow>
       (\<exists>d. conns (snd (server_step (Round i b (Got n line)) s)) i = Some d \<and> \<not> running d)) \<and>
    (\<not> running c \<longrightarrow> server_step (Round i b r) s = ([], s))"
proof -
  have "list_ex (\<lambda>(u', p'). u = u' \<and> p = p') VALID_USERS = False"
    using assms(4) by (auto simp: list_ex_iff)
  then have "\<not> running (fst (snd (handle_round b (Got n line) c (srv_store s))))" if "auth_attempts c = 2"
    using assms(3,5) that
    by (simp add: handle_round_def handle_line_def handle_auth_def Let_def MAX_AUTH_ATTEMPTS_def)
  then show ?thesis
    using conn_inv_run[of evs i c] assms(1,2)
    by (auto simp: conn_inv_def server_step_def Let_def split_beta)
qed

section \<open>Puts and gets of different clients\<close>

text \<open>An event that cannot change the value of the key.\<close>

fun spares :: "string \<Rightarrow> event \<Rightarrow> bool" where
  "spares k (Round i b (Got n line)) \<longleftrightarrow>
     (let (cmd, a1, a2) = parse_line line in \<not> ((cmd = ''PUT'' \<or> cmd = ''DEL'') \<and> a1 = k))"
| "spares k _ \<longleftrightarrow> True"

lemma spares_cmd:
  assumes "spares k ev" "x \<in> set (event_cmd ev s)"
  shows "x \<noteq> Put k v \<and> x \<noteq> Del k"
proof (cases ev)
  case (Round i b r)
  then obtain c where c: "round_cmd c r = Some x"
    using assms(2) event_cmd_mem by blast
  then obtain n line where "r = Got n line" "line_cmd c line = Some x"
    by (cases r) auto
  then show ?thesis
    using assms(1) Round by (auto simp: line_cmd_def Let_def split_beta split: if_split_asm)
qed (use assms in simp_all)

lemma history_spares:
  "list_all (spares k) evs \<Longrightarrow> x \<in> set (history evs s) \<Longrightarrow> x \<noteq> Put k v \<and> x \<noteq> Del k"
proof (induction evs arbitrary: s)
  case (Cons ev evs)
  then show ?case
    using spares_cmd[of k ev x s v] by auto
qed simp

lemma map_run_other:
  "(\<And>x v. x \<in> set ks \<Longrightarrow> x \<noteq> Put k v \<and> x \<noteq> Del k) \<Longrightarrow> snd (run_cmds map_step ks m) k = m k"
proof (induction ks arbitrary: m)
  case (Cons x ks)
  have "snd (map_step x m) k = m k"
    using Cons.prems[of x] by (cases x) auto
  then show ?case
    using Cons.IH[of "snd (map_step x m)"] Cons.prems by (simp add: split_beta Let_def)
qed simp

lemma run_inv_store:
  assumes "store_inv (srv_store s)" "list_all event_ok evs"
  shows "store_inv (srv_store (snd (run_cmds server_step evs s)))"
    "store_map (srv_store (snd (run_cmds server_step evs s))) =
       snd (run_cmds map_step (history evs s) (store_map (srv_store s)))"
  using sm.run_sim[OF assms(1) cmds_all_ok[OF history_ok[OF assms(2)]]]
    sm.run_inv[OF assms(1) cmds_all_ok[OF history_ok[OF assms(2)]]]
  by (simp_all add: history_store)

text \<open>
  C32: Puts are visible to every client. After an authenticated client was answered \<open>OK PUT\<close> for a
  key and value (and the store held the key or had room), and any rounds of any clients that neither
  put nor delete that key, a \<open>GET\<close> of the key by any authenticated client is answered with exactly
  that value.
\<close>

theorem put_then_get:
  assumes "store_inv (srv_store s)" "conns s i = Some c" "running c" "authenticated c"
    and "parse_line l1 = (''PUT'', k, v)" "nonul l1" "is_valid_token k (MAX_KEY - 1)" "v \<noteq> []"
    and "store_map (srv_store s) k \<noteq> None \<or> card (dom (store_map (srv_store s))) < MAX_STORE"
    and "server_step (Round i b (Got n l1)) s = (acts1, s1)"
    and "list_all event_ok evs" "list_all (spares k) evs" "s2 = snd (run_cmds server_step evs s1)"
    and "conns s2 j = Some d" "running d" "authenticated d" "parse_line l2 = (''GET'', k, rest)"
  shows "Sent (''OK PUT'' @ [newline]) \<in> set acts1 \<and>
    Sent (''OK GET '' @ v @ [newline]) \<in> set (fst (server_step (Round j b' (Got m l2)) s2))"
proof -
  have kv: "key_ok k" "val_ok v" "\<not> length v > MAX_VALUE - 1" "length v \<le> 399"
    using assms(5-7) parse_sizes[OF assms(5)] token_key by (auto simp: val_ok_def MAX_VALUE_def)
  have acts: "Sent (''OK PUT'' @ [newline]) \<in> set acts1"
    using assms(2-5,7,8,10) kv(3)
    by (auto simp: server_step_def handle_round_def handle_line_def Let_def split_beta send_line_def MAX_LINE_def)
  have ev: "event_cmd (Round i b (Got n l1)) s = [Put k v]"
    using assms(2-5,7,8) by (simp add: line_cmd_def)
  have s1: "s1 = snd (server_step (Round i b (Got n l1)) s)"
    using assms(10) by simp
  have st1: "srv_store s1 = snd (store_put (srv_store s) k v)"
    by (simp add: s1 step_store ev split_beta Let_def del: event_cmd.simps)
  note put = store_put_map[OF assms(1) kv(1,2)]
  have inv1: "store_inv (srv_store s1)" and m1: "store_map (srv_store s1) k = Some v"
  proof -
    have "map_step (Put k v) (store_map (srv_store s)) = ((True, None), (store_map (srv_store s))(k \<mapsto> v))"
      using assms(9) by (simp add: domIff)
    then have "store_map (snd (store_put (srv_store s) k v)) = (store_map (srv_store s))(k \<mapsto> v)"
      using put(2) by (simp del: map_step.simps)
    then show "store_inv (srv_store s1)" "store_map (srv_store s1) k = Some v"
      using put(1) by (simp_all add: st1)
  qed
  have "store_inv (srv_store s2)" "store_map (srv_store s2) k = Some v"
    using run_inv_store[OF inv1 assms(11)] map_run_other[OF history_spares[OF assms(12)]] m1
    by (simp_all add: assms(13))
  then have get: "store_get (srv_store s2) k = Some v"
    using store_get_map kv(1) by (simp add: key_ok_def)
  show ?thesis
    using acts assms(7,14-17) get kv(4)
    by (auto simp: server_step_def handle_round_def handle_line_def Let_def split_beta send_line_def MAX_LINE_def)
qed

section \<open>Wrong replies\<close>

text \<open>
  A put into a full store is lost. When 128 keys are in use, a \<open>PUT\<close> of a new key by an
  authenticated client is answered \<open>OK PUT\<close> and logged as done although nothing is stored.
\<close>

theorem put_into_full_store_is_lost:
  assumes "store_inv st" "card (dom (store_map st)) = MAX_STORE" "store_map st k = None"
    and "authenticated c" "parse_line line = (''PUT'', k, v)" "nonul line"
    and "is_valid_token k (MAX_KEY - 1)" "v \<noteq> []"
  shows "handle_round b (Got n line) c st =
    ([Sent (''OK PUT'' @ [newline]), Logged (''user='' @ cstr (authed_user c) @ '' PUT key='' @ k)], c, st)"
proof -
  have kv: "key_ok k" "val_ok v" "\<not> length v > MAX_VALUE - 1"
    using assms(5-7) parse_sizes[OF assms(5)] token_key by (auto simp: val_ok_def MAX_VALUE_def)
  obtain fr where ps: "put_scan st k 0 None = (None, fr)"
    using put_scan_scan[of st k 0 None] scan_map(1)[OF assms(1), of k] assms(3) kv(1)
    by (cases "put_scan st k 0 None") (auto simp: key_ok_def)
  have "fst (store_put st k v) = False"
    using store_put_map(2)[OF assms(1) kv(1,2)] assms(2,3) by (auto simp: domIff)
  then have "snd (store_put st k v) = st"
    using ps by (auto simp: store_put_def split: option.splits)
  then show ?thesis
    using assms(4,5,7,8) kv(3)
    by (simp add: handle_round_def handle_line_def Let_def split_beta send_line_def MAX_LINE_def)
qed

text \<open>
  Framing of the replies. Every reply of a round ends in a newline and is one line, except that
  of \<open>LIST\<close>: \<open>send_line\<close> cuts message and newline together to 513 bytes, so a list of keys that
  fills its buffer is sent without the newline the client waits for.
\<close>

theorem replies_are_lines_but_for_list:
  assumes "handle_round b r c st = (acts, c1, st1)" "Sent x \<in> set acts"
  shows "(\<exists>m. x = m @ [newline]) \<or>
    (\<exists>n line count keys rest. r = Got n line \<and> fst (parse_line line) = ''LIST'' \<and>
       store_list st b MAX_LINE = (count, keys) \<and> x = take 513 (''OK LIST '' @ decimal count @ '' '' @ keys @ rest))"
proof -
  define is_line where "is_line = (\<lambda>x. \<exists>m. x = m @ [newline])"
  have lines: "is_line (send_line m)" if "length m \<le> 512" for m
    using that by (auto simp: is_line_def send_line_def MAX_LINE_def)
  have lst: "\<exists>rest. send_line (take (MAX_LINE + 32 - 1) m) = take 513 (m @ rest)" for m
  proof (cases "length m \<le> 543")
    case True
    then show ?thesis
      by (intro exI[of _ "[newline]"]) (simp add: send_line_def MAX_LINE_def)
  next
    case False
    then show ?thesis
      by (intro exI[of _ "[]"]) (simp add: send_line_def MAX_LINE_def min_def)
  qed
  show ?thesis
  proof (cases r)
    case (Got n line)
    obtain cmd a1 a2 where p: "parse_line line = (cmd, a1, a2)"
      by (metis prod_cases3)
    show ?thesis
    proof (cases "cmd = ''LIST'' \<and> authenticated c")
      case True
      obtain count keys where l: "store_list st b MAX_LINE = (count, keys)"
        by fastforce
      have "x = send_line (take (MAX_LINE + 32 - 1) (''OK LIST '' @ decimal count @ '' '' @ keys))"
        using assms(1,2) Got p True l by (auto simp: handle_round_def handle_line_def Let_def)
      then show ?thesis
        using lst[of "''OK LIST '' @ decimal count @ '' '' @ keys"] Got p True l by auto
    next
      case False
      then have "is_line x"
        using assms(1,2) Got p
        by (auto simp: handle_round_def handle_line_def handle_auth_def Let_def split_beta MAX_LINE_def
            intro!: lines split: if_splits option.splits)
      then show ?thesis
        by (simp add: is_line_def)
    qed
  qed (use assms(1,2) lines in \<open>auto simp: handle_round_def is_line_def\<close>)
qed

lemma decimal_digits: "decimal n \<noteq> [] \<and> newline \<notin> set (decimal n)"
proof (induction n rule: decimal.induct)
  case (1 n)
  have "newline \<noteq> ''0123456789'' ! m" if "m < 10" for m
    using that by (auto simp: less_Suc_eq numeral_eq_Suc newline_def)
  then show ?case
    using 1 by (subst (1 2) decimal.simps) auto
qed

lemma list_loop_fills:
  assumes "offset < size_b" "offset \<le> length buf"
    and "size_b \<le> offset + sum_list (map (\<lambda>k. Suc (length k)) (map fst (entries es)))"
    and "list_all (\<lambda>k. newline \<notin> set k) (map fst (entries es))" "newline \<notin> set (take offset buf)"
  shows "length (snd (list_loop es size_b count offset buf)) = size_b - 1 \<and>
    newline \<notin> set (snd (list_loop es size_b count offset buf))"
  using assms
proof (induction es size_b count offset buf rule: list_loop.induct)
  case (2 e es size_b count offset buf)
  let ?t = "cstr (s_key e) @ '' ''"
  have sp: "CHR '' '' \<noteq> newline"
    by (simp add: newline_def)
  show ?case
  proof (cases "used e")
    case True
    have t: "newline \<notin> set ?t"
      using 2(6) True sp by (simp add: ekey_def)
    define buf1 where "buf1 = take offset buf @ take (size_b - offset - 1) ?t"
    have nb: "newline \<notin> set buf1"
      using t 2(7) by (auto simp: buf1_def dest: in_set_takeD)
    show ?thesis
    proof (cases "length ?t \<ge> size_b - offset")
      case full: True
      then have "list_loop (e # es) size_b count offset buf = (count + 1, buf1)"
        using True by (simp add: buf1_def Let_def)
      moreover have "length buf1 = size_b - 1"
        using full 2(3,4) by (simp add: buf1_def)
      ultimately show ?thesis
        using nb by simp
    next
      case False
      then have eq: "list_loop (e # es) size_b count offset buf =
          list_loop es size_b (count + 1) (offset + length ?t) buf1"
        using True by (simp add: buf1_def Let_def)
      have "length buf1 = offset + length ?t"
        using False 2(4) by (simp add: buf1_def)
      then show ?thesis
        unfolding eq using 2(1)[OF True refl refl _ False] 2(5,6) True False nb
        by (simp add: buf1_def ekey_def)
    qed
  next
    case False
    then show ?thesis
      using 2 by simp
  qed
qed simp

lemma list_reply_cut:
  assumes "authenticated c" "parse_line line = (''LIST'', a1, a2)"
    and "512 \<le> sum_list (map (\<lambda>k. Suc (length k)) (map fst (entries st)))"
    and "list_all (\<lambda>k. newline \<notin> set k) (map fst (entries st))"
  shows "\<exists>x lg. handle_line b line c st = ([Sent x, Logged lg], c, st) \<and> length x = 513 \<and> newline \<notin> set x"
proof -
  obtain count keys where l: "store_list st b MAX_LINE = (count, keys)"
    by fastforce
  have k: "length keys = 511" "newline \<notin> set keys"
    using list_loop_fills[of 0 512 b st 0] assms(3,4) l by (simp_all add: store_list_def MAX_LINE_def)
  define m where "m = ''OK LIST '' @ decimal count @ '' '' @ keys"
  have m: "513 \<le> length m" "newline \<notin> set m"
    using k decimal_digits[of count] by (auto simp: m_def newline_def neq_Nil_conv)
  obtain lg where "handle_line b line c st = ([Sent (send_line (take (MAX_LINE + 32 - 1) m)), Logged lg], c, st)"
    using assms(1,2) l by (simp add: handle_line_def m_def)
  moreover have "send_line (take (MAX_LINE + 32 - 1) m) = take 513 m"
    using m(1) by (simp add: send_line_def MAX_LINE_def min_def)
  ultimately show ?thesis
    using m by (intro exI[of _ "take 513 m"] exI[of _ lg]) (auto dest: in_set_takeD)
qed

text \<open>
  The reply to \<open>LIST\<close> can lose its newline. When the keys in use, with their separators, fill
  the 512 bytes of the list buffer, an authenticated client's \<open>LIST\<close> is answered by 513 bytes
  without a newline, which is not a line of the protocol.
\<close>

theorem list_reply_without_newline:
  assumes "authenticated c" "parse_line line = (''LIST'', a1, a2)"
    and "512 \<le> sum_list (map (\<lambda>k. Suc (length k)) (map fst (entries st)))"
    and "list_all (\<lambda>k. newline \<notin> set k) (map fst (entries st))"
  shows "\<exists>x. Sent x \<in> set (fst (handle_round b (Got n line) c st)) \<and> length x = 513 \<and> newline \<notin> set x"
proof -
  obtain x lg where x: "handle_line b line c st = ([Sent x, Logged lg], c, st)" "length x = 513" "newline \<notin> set x"
    using list_reply_cut[OF assms, of b] by blast
  show ?thesis
    by (intro exI[of _ x]) (simp add: handle_round_def x)
qed

section \<open>Received lines\<close>

lemma recv_loop_bytes:
  "newline \<notin> set l \<Longrightarrow> length l \<le> n \<Longrightarrow> recv_loop (map Byte l @ rest) n acc = recv_loop rest (n - length l) (acc @ l)"
proof (induction l arbitrary: n acc)
  case (Cons c l)
  then show ?case
    by (cases n) auto
qed simp

lemma recv_line_long:
  assumes "newline \<notin> set l" "510 < length l"
  shows "recv_line (map Byte l @ rest) MAX_LINE = Some (Violation, drop 511 (map Byte l @ rest))"
proof -
  define x where "x = drop 511 (map Byte l @ rest)"
  have "map Byte l @ rest = map Byte (take 511 l) @ x"
    using assms(2) append_take_drop_id[of 511 "map Byte l @ rest"]
    by (simp add: x_def take_map del: append_take_drop_id)
  moreover have "newline \<notin> set (take 511 l)" "length (take 511 l) = 511"
    using assms by (auto dest: in_set_takeD)
  ultimately show ?thesis
    using recv_loop_bytes[of "take 511 l" 511 x "[]"] unfolding x_def[symmetric]
    by (simp add: recv_line_def MAX_LINE_def)
qed

lemma recv_line_short:
  assumes "newline \<notin> set l" "carriage_return \<notin> set l" "nonul l" "length l \<le> 510"
  shows "recv_line (map Byte l @ Byte newline # rest) MAX_LINE =
    Some (if l = [] then Disconnected else Got (length l) l, rest)"
proof -
  obtain m where m: "511 - length l = Suc m"
    using assms(4) by (cases "511 - length l") auto
  have "l \<noteq> [] \<Longrightarrow> l ! (length l - 1) \<noteq> carriage_return"
    using assms(2) by (metis last_conv_nth last_in_set)
  then show ?thesis
    using recv_loop_bytes[OF assms(1), of 511 "Byte newline # rest" "[]"] m assms(3,4)
    by (simp add: recv_line_def MAX_LINE_def)
qed

lemma recv_line_any:
  assumes "newline \<notin> set l" "l \<noteq> []" "length l \<le> 510"
  shows "recv_line (map Byte l @ Byte newline # rest) MAX_LINE =
    Some (Got (length l) (cstr (if last l = carriage_return then butlast l else l)), rest)"
proof -
  obtain m where m: "511 - length l = Suc m"
    using assms(3) by (cases "511 - length l") auto
  then show ?thesis
    using recv_loop_bytes[OF assms(1), of 511 "Byte newline # rest" "[]"] assms(2,3)
    by (simp add: recv_line_def MAX_LINE_def last_conv_nth)
qed

text \<open>
  C33: Received lines. \<open>recv_line\<close> splits the stream at the newline. Of a line of 1 to 510 bytes, whatever
  they are, it returns the length and the text: without a carriage return at its end, and up to its
  first NUL (so the text of a lone carriage return is empty, but the line is one). A line of 511 or more
  is a violation; an empty line is taken for the end of the connection, like the real end of the
  stream, and closes the connection, and so does a violation.
\<close>

theorem recv_line_splits:
  assumes "newline \<notin> set l"
  shows "recv_line (map Byte l @ Byte newline # rest) MAX_LINE =
      (if 510 < length l then Some (Violation, drop 511 (map Byte l @ Byte newline # rest))
       else if l = [] then Some (Disconnected, rest)
       else Some (Got (length l) (cstr (if last l = carriage_return then butlast l else l)), rest)) \<and>
    recv_line (Eof # rest) MAX_LINE = Some (Disconnected, rest) \<and>
    handle_round b Disconnected c st = ([Logged ''disconnected (client closed connection)''], c\<lparr>running := False\<rparr>, st) \<and>
    handle_round b Violation c st = ([Logged ''disconnected (error or line too long)'',
      Sent (send_line ''ERR protocol_violation'')], c\<lparr>running := False\<rparr>, st)"
proof -
  have e: "recv_line (Eof # rest) MAX_LINE = Some (Disconnected, rest)"
    by (simp add: recv_line_def MAX_LINE_def numeral_eq_Suc)
  have n: "recv_line (Byte newline # rest) MAX_LINE = Some (Disconnected, rest)"
    by (simp add: recv_line_def MAX_LINE_def numeral_eq_Suc)
  show ?thesis
    using recv_line_long[OF assms, of "Byte newline # rest"] recv_line_any[OF assms, of rest] e n
    by (simp add: handle_round_def)
qed

section \<open>Witnesses\<close>

lemma parse_examples:
  "parse_line ''AUTH alice alicepass'' = (''AUTH'', ''alice'', ''alicepass'')"
  "parse_line ''AUTH alice guess'' = (''AUTH'', ''alice'', ''guess'')"
  "parse_line ''PUT k v'' = (''PUT'', ''k'', ''v'')"
  "parse_line ''GET k'' = (''GET'', ''k'', [])"
  "parse_line ''LIST'' = (''LIST'', [], [])"
  by code_simp+

lemma token_example: "is_valid_token ''k'' (MAX_KEY - 1)"
  by code_simp

definition alice :: conn where
  "alice = conn_init\<lparr>authenticated := True\<rparr>"

text \<open>A store with 128 keys in use.\<close>

definition kname :: "nat \<Rightarrow> string" where
  "kname i = replicate (Suc (i mod 60)) (''abc'' ! (i div 60))"

definition full_store :: store where
  "full_store = map (\<lambda>i. \<lparr>s_key = kname i @ zeros (64 - length (kname i)), s_value = zeros 400, used = True\<rparr>) [0..<128]"

lemma kname_char: "i < 128 \<Longrightarrow> ''abc'' ! (i div 60) \<in> {CHR ''a'', CHR ''b'', CHR ''c''}"
proof -
  assume "i < 128"
  then have "i div 60 = 0 \<or> i div 60 = 1 \<or> i div 60 = 2"
    by linarith
  then show ?thesis
    by auto
qed

lemma kname_inj: "inj_on kname {0..<128}"
proof (rule inj_onI)
  fix i j assume ij: "i \<in> {0..<128}" "j \<in> {0..<128}" "kname i = kname j"
  then have "i mod 60 = j mod 60" "''abc'' ! (i div 60) = ''abc'' ! (j div 60)"
    by (auto simp: kname_def replicate_eq_replicate)
  moreover have "i div 60 = 0 \<or> i div 60 = 1 \<or> i div 60 = 2" "j div 60 = 0 \<or> j div 60 = 1 \<or> j div 60 = 2"
    using ij by auto
  ultimately have "i div 60 = j div 60"
    by auto
  then show "i = j"
    using \<open>i mod 60 = j mod 60\<close> by (metis div_mult_mod_eq)
qed

lemma kname_nonul: "i < 128 \<Longrightarrow> nonul (kname i)" "length (kname i) \<le> 60"
  using kname_char[of i] by (auto simp: kname_def nonul_def list_all_iff NUL_def)

lemma full_entries: "map fst (entries full_store) = map kname [0..<128]" "length full_store = 128"
proof -
  have "ekey \<lparr>s_key = kname i @ zeros (64 - length (kname i)), s_value = v, used = True\<rparr> = kname i" if "i < 128" for i v
    using kname_nonul(1)[OF that] by (simp add: ekey_def zeros_def cstr_append_zeros)
  moreover have "filter used full_store = full_store"
    by (auto simp: full_store_def filter_id_conv)
  ultimately show "map fst (entries full_store) = map kname [0..<128]"
    by (auto simp: entries_def full_store_def)
  show "length full_store = 128"
    by (simp add: full_store_def)
qed

lemma full_inv: "store_inv full_store" "card (dom (store_map full_store)) = MAX_STORE" "store_map full_store ''k'' = None"
proof -
  have d: "distinct (map fst (entries full_store))"
    unfolding full_entries using kname_inj by (simp add: distinct_map)
  moreover have "list_all (\<lambda>e. length (s_key e) = MAX_KEY \<and> length (s_value e) = MAX_VALUE) full_store"
  proof -
    have "length (kname i) + (64 - length (kname i)) = 64" for i
      using kname_nonul(2)[of i] by simp
    then show ?thesis
      by (simp add: full_store_def list_all_iff MAX_KEY_def MAX_VALUE_def)
  qed
  ultimately show "store_inv full_store"
    by (simp add: store_inv_def full_entries MAX_STORE_def)
  have "length (entries full_store) = 128"
    using arg_cong[OF full_entries(1), of length] by simp
  then have "length (filter used full_store) = 128"
    by (simp add: entries_def)
  then show "card (dom (store_map full_store)) = MAX_STORE"
    using card_store_map[OF d] by (simp add: MAX_STORE_def)
  have "''k'' \<noteq> kname i" if "i < 128" for i
    using kname_char[OF that] by (auto simp: kname_def)
  then have "''k'' \<notin> kname ` {0..<128}"
    by force
  then have "''k'' \<notin> set (map fst (entries full_store))"
    unfolding full_entries by simp
  then show "store_map full_store ''k'' = None"
    by (simp add: store_map_def map_of_eq_None_iff)
qed

theorem server_store_linear_witness:
  "store_inv (srv_store (snd (run_cmds server_step
     [Accept 0, Round 0 [] (Got 20 ''AUTH alice alicepass''), Accept 1, Round 0 [] (Got 7 ''PUT k v''),
      Round 1 [] Disconnected] server_init)))"
  using server_store_linear[of "[Accept 0, Round 0 [] (Got 20 ''AUTH alice alicepass''), Accept 1,
      Round 0 [] (Got 7 ''PUT k v''), Round 1 [] Disconnected]"]
  by (simp add: NUL_def del: run_cmds.simps)

lemma alice_logs_in:
  "\<exists>c. conns (snd (run_cmds server_step [Accept 0, Round 0 [] (Got 20 ''AUTH alice alicepass'')] server_init)) 0 = Some c \<and>
     authenticated c"
  by (simp add: server_step_def server_init_def handle_round_def handle_line_def parse_examples handle_auth_def
      conn_init_def VALID_USERS_def)

theorem store_needs_authentication_witness:
  "\<exists>b n line u p. Round 0 b (Got n line) \<in> set [Accept 0, Round 0 [] (Got 20 ''AUTH alice alicepass'')] \<and>
     parse_line line = (''AUTH'', u, p) \<and> (u, p) \<in> set VALID_USERS"
  using alice_logs_in store_needs_authentication by blast

theorem three_failures_close_witness:
  "\<exists>s d. s = snd (run_cmds server_step [Accept 0, Round 0 [] (Got 16 ''AUTH alice guess''),
       Round 0 [] (Got 16 ''AUTH alice guess'')] server_init) \<and>
     conns (snd (server_step (Round 0 [] (Got 16 ''AUTH alice guess'')) s)) 0 = Some d \<and> \<not> running d"
proof -
  define s where "s = snd (run_cmds server_step [Accept 0, Round 0 [] (Got 16 ''AUTH alice guess''),
       Round 0 [] (Got 16 ''AUTH alice guess'')] server_init)"
  have c: "conns s 0 = Some (conn_init\<lparr>auth_attempts := 2\<rparr>)"
    by (simp add: s_def server_step_def server_init_def handle_round_def handle_line_def parse_examples
        handle_auth_def conn_init_def VALID_USERS_def MAX_AUTH_ATTEMPTS_def Let_def)
  have "(''alice'', ''guess'') \<notin> set VALID_USERS" "\<not> authenticated (conn_init\<lparr>auth_attempts := 2\<rparr>)"
    by (simp_all add: VALID_USERS_def conn_init_def)
  from three_failures_close[OF s_def c parse_examples(2) this, of "[]" 16] show ?thesis
    unfolding s_def by (auto simp: conn_init_def)
qed

theorem put_then_get_witness:
  "Sent (''OK GET v'' @ [newline]) \<in> set (fst (server_step (Round 1 [] (Got 5 ''GET k''))
     (snd (server_step (Round 0 [] (Got 7 ''PUT k v''))
        \<lparr>conns = [0 \<mapsto> alice, 1 \<mapsto> alice], srv_store = store_init\<rparr>))))"
proof -
  define s where "s = \<lparr>conns = [0 \<mapsto> alice, 1 \<mapsto> alice], srv_store = store_init\<rparr>"
  define s1 where "s1 = snd (server_step (Round 0 [] (Got 7 ''PUT k v'')) s)"
  have a: "running alice" "authenticated alice"
    by (simp_all add: alice_def conn_init_def)
  have "conns s1 1 = Some alice"
    using a by (simp add: s1_def s_def server_step_def split_beta Let_def)
  moreover have "conns s 0 = Some alice" "store_inv (srv_store s)" "nonul ''PUT k v''"
    "store_map (srv_store s) ''k'' \<noteq> None \<or> card (dom (store_map (srv_store s))) < MAX_STORE"
    by (simp_all add: s_def store_init_inv NUL_def MAX_STORE_def)
  moreover have "server_step (Round 0 [] (Got 7 ''PUT k v'')) s = (fst (server_step (Round 0 [] (Got 7 ''PUT k v'')) s), s1)"
    by (simp add: s1_def)
  ultimately show ?thesis
    using put_then_get[of s 0 alice "''PUT k v''" "''k''" "''v''" "[]" 7 _ s1 "[]" s1 1 alice "''GET k''" "[]" "[]" 5]
      a parse_examples(3,4) token_example
    unfolding s_def[symmetric] s1_def[symmetric] by simp
qed

theorem put_into_full_store_is_lost_witness:
  "snd (snd (handle_round [] (Got 7 ''PUT k v'') alice full_store)) = full_store"
  by (subst put_into_full_store_is_lost[OF full_inv(1,2,3) _ parse_examples(3) _ token_example])
    (simp_all add: alice_def conn_init_def NUL_def)

theorem replies_are_lines_but_for_list_witness:
  "\<exists>m. send_line ''ERR protocol_violation'' = m @ [newline]"
  using replies_are_lines_but_for_list[of "[]" Violation alice store_init _ _ _ "send_line ''ERR protocol_violation''"]
  by (simp add: handle_round_def)

theorem recv_line_splits_witness:
  "recv_line (map Byte (''QUIT'' @ [carriage_return]) @ [Byte newline]) MAX_LINE = Some (Got 5 ''QUIT'', []) \<and>
   recv_line (map Byte [carriage_return] @ [Byte newline]) MAX_LINE = Some (Got 1 [], [])"
  using recv_line_splits[of "''QUIT'' @ [carriage_return]" "[]"] recv_line_splits[of "[carriage_return]" "[]"]
  by (simp add: newline_def carriage_return_def NUL_def)

lemma full_keys:
  "512 \<le> sum_list (map (\<lambda>k. Suc (length k)) (map fst (entries full_store)))"
  "list_all (\<lambda>k. newline \<notin> set k) (map fst (entries full_store))"
proof -
  show "list_all (\<lambda>k. newline \<notin> set k) (map fst (entries full_store))"
    unfolding full_entries using kname_char by (fastforce simp: list_all_iff kname_def newline_def)
  show "512 \<le> sum_list (map (\<lambda>k. Suc (length k)) (map fst (entries full_store)))"
    unfolding full_entries by (simp add: kname_def upt_rec)
qed

lemma alice_ready: "authenticated alice" "running alice"
  by (simp_all add: alice_def conn_init_def)

theorem list_reply_without_newline_witness:
  "\<exists>x. Sent x \<in> set (fst (handle_round [] (Got 4 ''LIST'') alice full_store)) \<and> newline \<notin> set x"
  using list_reply_without_newline[OF alice_ready(1) parse_examples(5) full_keys] by blast

end
