(* ===== verification/Server_Rounds.thy ===== *)
theory Server_Rounds
  imports Store_Lock Server_Props
begin

text \<open>
  From statements to rounds. A round of \<open>handle_client\<close> makes at most one store call and its reply
  depends on the store through the answer of that call only; what a connection calls next does not
  depend on the answers. With the atomicity of the calls under \<open>store_lock\<close> (\<open>Store_Lock\<close>) this gives
  the semantics \<open>Server\<close> uses, whole rounds one after the other, for threads that interleave
  statement by statement. What the threads print through \<open>log_msg\<close> is here too.
\<close>

section \<open>A round as a call and a reply\<close>

definition round_call :: "string \<Rightarrow> conn \<Rightarrow> recv_result \<Rightarrow> call option" where
  "round_call old_buf c r =
     (case r of
        Got n line \<Rightarrow>
          let (cmd, arg1, arg2) = parse_line line in
          if cmd = ''AUTH'' \<or> \<not> authenticated c then None
          else if cmd = ''PUT'' then
            if \<not> is_valid_token arg1 (MAX_KEY - 1) \<or> length arg2 = 0 \<or> length arg2 > MAX_VALUE - 1 then None
            else Some (Call_put arg1 arg2)
          else if cmd = ''GET'' then
            if \<not> is_valid_token arg1 (MAX_KEY - 1) then None else Some (Call_get arg1)
          else if cmd = ''DEL'' then
            if \<not> is_valid_token arg1 (MAX_KEY - 1) then None else Some (Call_del arg1)
          else if cmd = ''LIST'' then Some (Call_list old_buf MAX_LINE)
          else None
      | _ \<Rightarrow> None)"

text \<open>What a round sends and logs once its call, if any, has answered.\<close>

definition call_reply :: "conn \<Rightarrow> call \<Rightarrow> answer \<Rightarrow> action list" where
  "call_reply c k a =
     (let who = ''user='' @ cstr (authed_user c) in
      case (k, a) of
        (Call_put arg1 arg2, _) \<Rightarrow> [Sent (send_line ''OK PUT''), Logged (who @ '' PUT key='' @ arg1)]
      | (Call_get arg1, Found f) \<Rightarrow>
          [Sent (case f of Some v \<Rightarrow> send_line (take (MAX_LINE - 1) (''OK GET '' @ v))
             | None \<Rightarrow> send_line ''ERR GET not_found''),
           Logged (who @ '' GET key='' @ arg1)]
      | (Call_del arg1, Flag ok) \<Rightarrow>
          [Sent (send_line (if ok then ''OK DEL'' else ''ERR DEL not_found'')),
           Logged (who @ '' DEL key='' @ arg1)]
      | (Call_list _ _, Listing (count, keys)) \<Rightarrow>
          [Sent (send_line (take (MAX_LINE + 32 - 1) (''OK LIST '' @ decimal count @ '' '' @ keys))),
           Logged (who @ '' LIST ('' @ decimal count @ '' keys)'')]
      | _ \<Rightarrow> [])"

text \<open>The connection after a round; it does not depend on the store.\<close>

definition round_conn :: "conn \<Rightarrow> recv_result \<Rightarrow> conn" where
  "round_conn c r = fst (snd (handle_round [] r c []))"

definition round_alone :: "conn \<Rightarrow> recv_result \<Rightarrow> action list" where
  "round_alone c r = fst (handle_round [] r c [])"

lemma round_splits:
  "handle_round b r c st =
     (case round_call b c r of
        None \<Rightarrow> (round_alone c r, round_conn c r, st)
      | Some k \<Rightarrow> (call_reply c k (fst (at_once k st)), round_conn c r, snd (at_once k st)))"
proof (cases r)
  case (Got n line)
  obtain cmd a1 a2 where p: "parse_line line = (cmd, a1, a2)"
    by (metis prod_cases3)
  show ?thesis
    using Got p
    by (simp add: handle_round_def handle_line_def round_call_def round_conn_def round_alone_def call_reply_def
        Let_def split_beta)
qed (simp_all add: handle_round_def round_call_def round_conn_def round_alone_def)

section \<open>Connections\<close>

text \<open>
  A connection with the results of \<open>recv_line\<close> it will get (and the old text of its \<open>LIST\<close> buffer):
  the calls it makes, the rounds it does before it ends, and what it sends and logs, given the answers.
\<close>

type_synonym input = "string \<times> recv_result"

fun conn_calls :: "conn \<Rightarrow> input list \<Rightarrow> call list" where
  "conn_calls c [] = []"
| "conn_calls c ((b, r) # ins) =
     (if \<not> running c then []
      else case round_call b c r of None \<Rightarrow> conn_calls (round_conn c r) ins
      | Some k \<Rightarrow> k # conn_calls (round_conn c r) ins)"

fun conn_rounds :: "conn \<Rightarrow> input list \<Rightarrow> input list" where
  "conn_rounds c [] = []"
| "conn_rounds c ((b, r) # ins) = (if \<not> running c then [] else (b, r) # conn_rounds (round_conn c r) ins)"

fun conn_actions :: "conn \<Rightarrow> input list \<Rightarrow> answer list \<Rightarrow> action list" where
  "conn_actions c [] as = []"
| "conn_actions c ((b, r) # ins) as =
     (if \<not> running c then []
      else case round_call b c r of
        None \<Rightarrow> round_alone c r @ closing (round_conn c r) @ conn_actions (round_conn c r) ins as
      | Some k \<Rightarrow> (case as of [] \<Rightarrow> []
          | a # as1 \<Rightarrow> call_reply c k a @ closing (round_conn c r) @ conn_actions (round_conn c r) ins as1))"

definition round_event :: "nat \<times> input \<Rightarrow> event" where
  "round_event e = (case e of (i, b, r) \<Rightarrow> Round i b r)"

definition inputs_of :: "(nat \<times> input) list \<Rightarrow> nat \<Rightarrow> input list" where
  "inputs_of es i = map snd (filter (\<lambda>e. fst e = i) es)"

definition actions_of :: "(nat \<times> input) list \<Rightarrow> server \<Rightarrow> nat \<Rightarrow> action list" where
  "actions_of es s i =
     concat (map snd (filter (\<lambda>x. fst x = i) (zip (map fst es) (fst (run_cmds server_step (map round_event es) s)))))"

lemma round_run_simps:
  "inputs_of [] i = []" "inputs_of ((j, b, r) # es) i = (if j = i then [(b, r)] else []) @ inputs_of es i"
  "actions_of [] s i = []"
  "actions_of ((j, b, r) # es) s i =
     (if j = i then fst (server_step (Round j b r) s) else []) @ actions_of es (snd (server_step (Round j b r) s)) i"
  "run_cmds server_step (map round_event ((j, b, r) # es)) s =
     (fst (server_step (Round j b r) s) # fst (run_cmds server_step (map round_event es) (snd (server_step (Round j b r) s))),
      snd (run_cmds server_step (map round_event es) (snd (server_step (Round j b r) s))))"
  by (simp_all add: inputs_of_def actions_of_def round_event_def Let_def split_beta)

lemma calls_Cons:
  "calls_of ((j, k) # xs) i = (if j = i then [k] else []) @ calls_of xs i"
  "store_after st ((j, k) # xs) = store_after (snd (at_once k st)) xs"
  "answers_of st ((j, k) # xs) i = (if j = i then [fst (at_once k st)] else []) @ answers_of (snd (at_once k st)) xs i"
  by (simp_all add: calls_of_def store_after_def answers_of_def Let_def split_beta)

lemma conn_step:
  assumes "conns s i = Some c" "running c"
  shows "server_step (Round i b r) s =
    (case round_call b c r of
       None \<Rightarrow> (round_alone c r @ closing (round_conn c r), s\<lparr>conns := (conns s)(i \<mapsto> round_conn c r)\<rparr>)
     | Some k \<Rightarrow> (call_reply c k (fst (at_once k (srv_store s))) @ closing (round_conn c r),
         s\<lparr>conns := (conns s)(i \<mapsto> round_conn c r), srv_store := snd (at_once k (srv_store s))\<rparr>))"
  using assms by (cases s) (simp add: server_step_def round_splits Let_def split: option.split)

section \<open>Statements interleaved give rounds in some order\<close>

lemma sum_shorter:
  fixes ins :: "nat \<Rightarrow> 'a list"
  assumes "i < n" "ins i = x # rest"
  shows "(\<Sum>j<n. length ((ins(i := rest)) j)) < (\<Sum>j<n. length (ins j))"
  by (rule sum_strict_mono_ex1) (use assms in auto)

text \<open>
  Calls served in the order \<open>xs\<close>: some connection can do its next round, either without a call or
  with the call served first, unless all connections have come to their end.
\<close>

lemma next_round:
  assumes "\<forall>i<n. calls_of xs i = conn_calls (cs i) (ins i)" "\<forall>x\<in>set xs. fst x < n"
  obtains "xs = []" "\<forall>i<n. ins i = [] \<or> \<not> running (cs i)"
  | i b r rest ys where "i < n" "running (cs i)" "ins i = (b, r) # rest"
      "xs = (case round_call b (cs i) r of None \<Rightarrow> ys | Some k \<Rightarrow> (i, k) # ys)"
proof (cases "\<exists>i b r rest. i < n \<and> running (cs i) \<and> ins i = (b, r) # rest \<and> round_call b (cs i) r = None")
  case True
  then obtain i b r rest where "i < n" "running (cs i)" "ins i = (b, r) # rest" "round_call b (cs i) r = None"
    by blast
  then show thesis
    using that(2)[of i b r rest xs] by simp
next
  case no_local: False
  have call: "\<exists>b r rest k. ins i = (b, r) # rest \<and> round_call b (cs i) r = Some k"
    if "i < n" "running (cs i)" "ins i \<noteq> []" for i
    using no_local that by (cases "ins i") auto
  show thesis
  proof (cases xs)
    case Nil
    have "ins i = [] \<or> \<not> running (cs i)" if "i < n" for i
      using call[OF that] assms(1) that Nil by (fastforce simp: calls_of_def)
    then show thesis
      using that(1) Nil by blast
  next
    case (Cons x ys)
    obtain i k where x: "x = (i, k)"
      by fastforce
    then have i: "i < n" "conn_calls (cs i) (ins i) = k # calls_of ys i"
      using assms Cons calls_Cons(1)[of i k ys i] by auto
    then have "running (cs i)" "ins i \<noteq> []"
      by (cases "ins i"; auto split: if_splits)+
    with call[OF i(1)] obtain b r rest k' where r: "ins i = (b, r) # rest" "round_call b (cs i) r = Some k'"
      by blast
    then have "k' = k"
      using i \<open>running (cs i)\<close> by simp
    then show thesis
      using that(2)[OF i(1) \<open>running (cs i)\<close> r(1), of ys] r x Cons by simp
  qed
qed

lemma rounds_exist:
  assumes "\<forall>i<n. conns s i = Some (cs i)" "\<forall>i<n. calls_of xs i = conn_calls (cs i) (ins i)"
    and "\<forall>x\<in>set xs. fst x < n"
  shows "\<exists>es. (\<forall>e\<in>set es. fst e < n) \<and> (\<forall>i<n. inputs_of es i = conn_rounds (cs i) (ins i)) \<and>
    srv_store (snd (run_cmds server_step (map round_event es) s)) = store_after (srv_store s) xs \<and>
    (\<forall>i<n. actions_of es s i = conn_actions (cs i) (ins i) (answers_of (srv_store s) xs i))"
  using assms
proof (induction "\<Sum>i<n. length (ins i)" arbitrary: s cs xs ins rule: less_induct)
  case less
  from less.prems(2,3) show ?case
  proof (cases rule: next_round)
    case 1
    have "conn_rounds (cs i) (ins i) = []" "conn_actions (cs i) (ins i) a = []" if "i < n" for i a
      using 1(2) that by (cases "ins i"; auto)+
    then show ?thesis
      using 1(1) by (intro exI[of _ "[]"]) (simp add: round_run_simps store_after_def)
  next
    case (2 i b r rest ys)
    define s1 where "s1 = snd (server_step (Round i b r) s)"
    have conn: "conns s i = Some (cs i)"
      using less.prems(1) 2(1) by simp
    note step = conn_step[OF conn 2(2), of b r]
    have out: "fst (server_step (Round i b r) s) = (case round_call b (cs i) r of None \<Rightarrow> round_alone (cs i) r
        | Some k \<Rightarrow> call_reply (cs i) k (fst (at_once k (srv_store s)))) @ closing (round_conn (cs i) r)"
      by (simp add: step split: option.split)
    have s1: "conns s1 = (conns s)(i \<mapsto> round_conn (cs i) r)"
        "srv_store s1 = (case round_call b (cs i) r of None \<Rightarrow> srv_store s | Some k \<Rightarrow> snd (at_once k (srv_store s)))"
      by (simp_all add: s1_def step split: option.split)
    let ?cs = "cs(i := round_conn (cs i) r)" and ?ins = "ins(i := rest)"
    have "\<exists>es. (\<forall>e\<in>set es. fst e < n) \<and> (\<forall>j<n. inputs_of es j = conn_rounds (?cs j) (?ins j)) \<and>
      srv_store (snd (run_cmds server_step (map round_event es) s1)) = store_after (srv_store s1) ys \<and>
      (\<forall>j<n. actions_of es s1 j = conn_actions (?cs j) (?ins j) (answers_of (srv_store s1) ys j))"
    proof (rule less.hyps)
      show "(\<Sum>j<n. length (?ins j)) < (\<Sum>j<n. length (ins j))"
        by (rule sum_shorter[of i n ins "(b, r)" rest]) (use 2 in auto)
      show "\<forall>j<n. conns s1 j = Some (?cs j)"
        using less.prems(1) by (simp add: s1)
      show "\<forall>j<n. calls_of ys j = conn_calls (?cs j) (?ins j)"
        using less.prems(2) 2 by (auto simp: calls_Cons split: option.splits if_splits)
      show "\<forall>x\<in>set ys. fst x < n"
        using less.prems(3) 2(4) by (auto split: option.splits)
    qed
    then obtain es where es: "\<forall>e\<in>set es. fst e < n" "\<forall>j<n. inputs_of es j = conn_rounds (?cs j) (?ins j)"
      "srv_store (snd (run_cmds server_step (map round_event es) s1)) = store_after (srv_store s1) ys"
      "\<forall>j<n. actions_of es s1 j = conn_actions (?cs j) (?ins j) (answers_of (srv_store s1) ys j)"
      by blast
    have "inputs_of ((i, b, r) # es) j = conn_rounds (cs j) (ins j)" if "j < n" for j
      using es(2) 2 that by (auto simp: round_run_simps)
    moreover have "srv_store (snd (run_cmds server_step (map round_event ((i, b, r) # es)) s)) = store_after (srv_store s) xs"
      using es(3) 2(4) by (simp only: round_run_simps snd_conv s1_def[symmetric], simp add: s1(2) calls_Cons split: option.splits)
    moreover have "actions_of ((i, b, r) # es) s j = conn_actions (cs j) (ins j) (answers_of (srv_store s) xs j)"
      if "j < n" for j
    proof -
      have "actions_of ((i, b, r) # es) s j = (if i = j then
          (case round_call b (cs i) r of None \<Rightarrow> round_alone (cs i) r
           | Some k \<Rightarrow> call_reply (cs i) k (fst (at_once k (srv_store s)))) @ closing (round_conn (cs i) r) else []) @
          actions_of es s1 j"
        unfolding round_run_simps s1_def[symmetric] out ..
      then show ?thesis
        using es(4) 2 that by (auto simp: s1(2) calls_Cons split: option.splits)
    qed
    ultimately show ?thesis
      using es(1) 2(1) by (intro exI[of _ "(i, b, r) # es"]) simp
  qed
qed


lemma accepted:
  fixes n defines "s \<equiv> snd (run_cmds server_step (map Accept [0..<n]) server_init)"
  shows "conns s = (\<lambda>i. if i < n then Some conn_init else None) \<and> srv_store s = store_init"
  unfolding s_def
proof (induction n)
  case (Suc n)
  then show ?case
    by (auto simp: run_cmds_append Let_def split_beta server_step_def fun_eq_iff less_Suc_eq)
qed (simp add: server_init_def)

text \<open>
  C2: The server may be understood round by round. Let any number of connections, each with any
  sequence of received lines, run their threads statement by statement in any interleaving until
  they have ended. Then there is an order of their rounds (each connection's own rounds in its
  order) such that performing whole rounds one after the other in this order, with each store call a
  single operation, ends with the same store and gives every connection the same replies and log
  messages.
\<close>

theorem interleaved_statements_are_rounds:
  assumes "thread_step\<^sup>*\<^sup>* (start store_init (map (conn_calls conn_init) inss)) s" "finished s"
    and s0: "s0 = snd (run_cmds server_step (map Accept [0..<length inss]) server_init)"
  shows "\<exists>es. (\<forall>e\<in>set es. fst e < length inss) \<and>
    (\<forall>i<length inss. inputs_of es i = conn_rounds conn_init (inss ! i)) \<and>
    srv_store (snd (run_cmds server_step (map round_event es) s0)) = the_store s \<and>
    (\<forall>i<length inss. actions_of es s0 i = conn_actions conn_init (inss ! i) (answers (threads s ! i)))"
proof -
  have start: "lock_inv store_init (map (conn_calls conn_init) inss) (start store_init (map (conn_calls conn_init) inss))"
    by (rule lock_inv_start) (simp add: store_init_def)
  note inv = sl.run_inv[OF assms(1) start]
  have free: "store_lock s = None"
    by (rule finished_free[OF inv assms(2)])
  then have st: "the_store s = store_after store_init (acquired s)" "\<forall>x\<in>set (acquired s). fst x < length inss"
      "length (threads s) = length inss"
    using inv by (auto simp: lock_inv_def served_def)
  have thr: "calls_of (acquired s) i = conn_calls conn_init (inss ! i)"
      "answers (threads s ! i) = answers_of store_init (acquired s) i" if "i < length inss" for i
    using inv free that assms(2) st(3) by (auto simp: lock_inv_def served_def finished_def list_all_length)
  have s0': "\<forall>i<length inss. conns s0 i = Some conn_init" "srv_store s0 = store_init"
    using accepted[of "length inss"] by (simp_all add: s0)
  have "\<forall>i<length inss. calls_of (acquired s) i = conn_calls conn_init (inss ! i)"
    using thr(1) by blast
  from rounds_exist[of "length inss" s0 "\<lambda>_. conn_init", OF s0'(1) this st(2)] show ?thesis
    using st(1) thr(2) by (simp add: s0'(2))
qed

text \<open>Alice stores a value while Bob looks it up.\<close>

definition two_clients :: "input list list" where
  "two_clients = [[([], Got 20 ''AUTH alice alicepass''), ([], Got 7 ''PUT k v'')],
     [([], Got 16 ''AUTH bob bobpass''), ([], Got 5 ''GET k'')]]"

lemma two_clients_calls: "map (conn_calls conn_init) two_clients = [[Call_put ''k'' ''v''], [Call_get ''k'']]"
  by code_simp

theorem interleaved_statements_are_rounds_witness:
  "\<exists>s es. thread_step\<^sup>*\<^sup>* (start store_init [[Call_put ''k'' ''v''], [Call_get ''k'']]) s \<and> finished s \<and>
     inputs_of es 0 = conn_rounds conn_init (two_clients ! 0) \<and>
     srv_store (snd (run_cmds server_step (map round_event es)
       (snd (run_cmds server_step (map Accept [0..<2]) server_init)))) = the_store s"
proof -
  have start: "lock_inv store_init (map (conn_calls conn_init) two_clients) (start store_init (map (conn_calls conn_init) two_clients))"
    by (rule lock_inv_start) (simp add: store_init_def)
  obtain s where s: "thread_step\<^sup>*\<^sup>* (start store_init (map (conn_calls conn_init) two_clients)) s" "finished s"
    using sl.reaches_final[OF start] by blast
  have len: "length two_clients = 2"
    by (simp add: two_clients_def)
  obtain es where es: "\<forall>i<2. inputs_of es i = conn_rounds conn_init (two_clients ! i)"
      "srv_store (snd (run_cmds server_step (map round_event es)
        (snd (run_cmds server_step (map Accept [0..<2]) server_init)))) = the_store s"
    using interleaved_statements_are_rounds[OF s refl] unfolding len by blast
  have "inputs_of es 0 = conn_rounds conn_init (two_clients ! 0)"
    using es(1) by simp
  then show ?thesis
    using s es(2) unfolding two_clients_calls by blast
qed

section \<open>What the server prints\<close>

text \<open>
  \<open>log_msg\<close> makes three calls of \<open>printf\<close>, each atomic on its own, without a lock around them. The time
  is what \<open>strftime\<close> makes of \<open>localtime\<close>'s buffer, which all threads share, so any time; the client is
  described by its address and port (\<open>inet_ntop\<close>'s text is cut to its buffer by \<open>snprintf\<close>, and the port
  is in \<open>0..65535\<close>).
\<close>

definition client_desc :: "string \<Rightarrow> nat \<Rightarrow> string" where
  "client_desc ip_str port = take (64 - 1) (ip_str @ '':'' @ decimal port)"

definition log_msg :: "string \<Rightarrow> string \<Rightarrow> string \<Rightarrow> string list" where
  "log_msg timestr desc msg = [''['' @ timestr @ ''] ['' @ desc @ ''] '', msg, [newline]]"

text \<open>The messages the thread of a connection logs in a run of the server, and the calls it makes for them.\<close>

definition event_conn :: "event \<Rightarrow> nat option" where
  "event_conn ev = (case ev of Accept i \<Rightarrow> Some i | Refused \<Rightarrow> None | Round i b r \<Rightarrow> Some i)"

definition logged_texts :: "action list \<Rightarrow> string list" where
  "logged_texts acts = concat (map (\<lambda>a. case a of Logged m \<Rightarrow> [m] | Sent x \<Rightarrow> []) acts)"

definition logs_of :: "event list \<Rightarrow> nat \<Rightarrow> string list" where
  "logs_of evs i = concat (map (\<lambda>(ev, acts). if event_conn ev = Some i then logged_texts acts else [])
     (zip evs (fst (run_cmds server_step evs server_init))))"

definition prints_of :: "(nat \<Rightarrow> nat \<Rightarrow> string) \<Rightarrow> (nat \<Rightarrow> string) \<Rightarrow> event list \<Rightarrow> nat \<Rightarrow> string list" where
  "prints_of time desc evs i =
     concat (map (\<lambda>(k, m). log_msg (time i k) (desc i) m) (enumerate 0 (logs_of evs i)))"

text \<open>
  The calls in the order they take effect, each with its thread: each thread makes its own in its
  order, as far as it has come, and nothing else orders them.
\<close>

definition printing :: "(nat \<Rightarrow> nat \<Rightarrow> string) \<Rightarrow> (nat \<Rightarrow> string) \<Rightarrow> event list \<Rightarrow> (nat \<times> string) list \<Rightarrow> bool" where
  "printing time desc evs ps \<longleftrightarrow>
     (\<forall>i. \<exists>n. map snd (filter (\<lambda>x. fst x = i) ps) = take n (prints_of time desc evs i))"

definition printed_text :: "(nat \<times> string) list \<Rightarrow> string" where
  "printed_text ps = concat (map snd ps)"

definition tidy :: "string \<Rightarrow> bool" where
  "tidy s \<longleftrightarrow> newline \<notin> set s"

lemma tidy_simps [simp]:
  "tidy []" "tidy (c # s) \<longleftrightarrow> c \<noteq> newline \<and> tidy s" "tidy (s @ t) \<longleftrightarrow> tidy s \<and> tidy t"
  by (auto simp: tidy_def)

lemma tidy_take: "tidy s \<Longrightarrow> tidy (take n s)"
  by (auto simp: tidy_def dest: in_set_takeD)

lemma tidy_cstr: "tidy s \<Longrightarrow> tidy (cstr s)"
  by (auto simp: tidy_def cstr_def dest: set_takeWhileD)

lemma tidy_strncpy: "tidy dst \<Longrightarrow> tidy src \<Longrightarrow> tidy (strncpy dst src n)"
  using tidy_take[OF tidy_cstr[of src], of n]
  by (auto simp: strncpy_def tidy_def NUL_def newline_def dest: in_set_dropD)

lemma tidy_decimal: "tidy (decimal n)"
  using decimal_digits[of n] by (simp add: tidy_def)

lemma tidy_word: "tidy (fst (scan_word n s))"
proof -
  have "isspace newline"
    by (simp add: isspace_def newline_def)
  then show ?thesis
    by (auto simp: tidy_def scan_word_def Let_def dest: in_set_takeD set_takeWhileD)
qed

lemma tidy_parsed: "parse_line l = (cmd, a1, a2) \<Longrightarrow> tidy cmd \<and> tidy a1"
  using tidy_word[of 63 l] tidy_word[of 63 "snd (scan_word 63 l)"]
  by (auto simp: parse_line_def Let_def split_beta split: if_splits)

lemma quote_tidy: "CHR 0x27 \<noteq> newline"
  by (simp add: newline_def)

definition logs_tidy :: "action list \<Rightarrow> bool" where
  "logs_tidy acts \<longleftrightarrow> (\<forall>m. Logged m \<in> set acts \<longrightarrow> tidy m)"

lemma logs_tidy_simps [simp]:
  "logs_tidy []" "logs_tidy (Sent x # acts) = logs_tidy acts" "logs_tidy (Logged m # acts) \<longleftrightarrow> tidy m \<and> logs_tidy acts"
  "logs_tidy (a @ b) \<longleftrightarrow> logs_tidy a \<and> logs_tidy b"
  by (auto simp: logs_tidy_def)

text \<open>A round logs messages without newlines, and keeps the user name free of them.\<close>

lemma round_tidy:
  assumes "tidy (authed_user c)" "handle_round b r c st = (acts, c1, st1)"
  shows "logs_tidy acts \<and> tidy (authed_user c1)"
proof (cases r)
  case (Got n line)
  obtain cmd a1 a2 where p: "parse_line line = (cmd, a1, a2)"
    by (metis prod_cases3)
  have t: "tidy cmd" "tidy a1" "tidy (cstr (authed_user c))" "tidy (strncpy (authed_user c) a1 n)" for n
    using tidy_parsed[OF p] tidy_cstr[OF assms(1)] tidy_strncpy[OF assms(1)] by simp_all
  show ?thesis
    using assms Got p t
    by (auto simp: handle_round_def handle_line_def handle_auth_def Let_def split_beta tidy_decimal quote_tidy newline_def
        split: if_splits)
qed (use assms in \<open>auto simp: handle_round_def newline_def\<close>)

definition server_tidy :: "server \<Rightarrow> bool" where
  "server_tidy s \<longleftrightarrow> (\<forall>i c. conns s i = Some c \<longrightarrow> tidy (authed_user c))"

lemma server_step_tidy:
  assumes "server_tidy s"
  shows "logs_tidy (fst (server_step ev s)) \<and> server_tidy (snd (server_step ev s))"
proof (cases ev)
  case (Round i b r)
  show ?thesis
  proof (cases "conns s i")
    case (Some c)
    obtain acts c1 st1 where h: "handle_round b r c (srv_store s) = (acts, c1, st1)"
      by (metis prod_cases3)
    have "tidy (authed_user c)"
      using assms Some by (auto simp: server_tidy_def)
    from round_tidy[OF this h] show ?thesis
      using assms Round Some h by (auto simp: server_step_def server_tidy_def closing_def newline_def)
  qed (use assms Round in \<open>simp add: server_step_def\<close>)
next
  case (Accept i)
  then show ?thesis
    using assms by (auto simp: server_step_def server_tidy_def conn_init_def zeros_def tidy_def NUL_def newline_def)
qed (use assms in \<open>simp add: server_step_def\<close>)

lemma server_run_tidy:
  "server_tidy s \<Longrightarrow> logs_tidy (concat (fst (run_cmds server_step evs s)))"
proof (induction evs arbitrary: s)
  case (Cons ev evs)
  then show ?case
    using server_step_tidy[OF Cons.prems, of ev] by (simp add: Let_def split_beta)
qed simp

lemma logs_of_tidy: "m \<in> set (logs_of evs i) \<Longrightarrow> tidy m"
proof -
  assume m: "m \<in> set (logs_of evs i)"
  have "logs_tidy (concat (fst (run_cmds server_step evs server_init)))"
    by (rule server_run_tidy) (simp add: server_tidy_def server_init_def)
  then show ?thesis
    using m by (fastforce simp: logs_of_def logged_texts_def logs_tidy_def dest!: set_zip_rightD split: if_splits action.splits)
qed

definition newlines :: "string \<Rightarrow> nat" where
  "newlines s = length (filter (\<lambda>c. c = newline) s)"

lemma newlines_simps [simp]:
  "newlines [] = 0" "newlines (s @ t) = newlines s + newlines t" "tidy s \<Longrightarrow> newlines s = 0"
  "newlines (c # s) = (if c = newline then 1 else 0) + newlines s"
  by (auto simp: newlines_def tidy_def filter_empty_conv)

text \<open>Three calls to a message, of which the last prints the only newline.\<close>

lemma newlines_take:
  "\<forall>(t, m)\<in>set ms. tidy t \<and> tidy m \<Longrightarrow> tidy d \<Longrightarrow> n \<le> 3 * length ms \<Longrightarrow>
   newlines (concat (take n (concat (map (\<lambda>(t, m). log_msg t d m) ms)))) = n div 3"
proof (induction ms arbitrary: n)
  case (Cons x ms)
  obtain t m where x: "x = (t, m)"
    by fastforce
  consider "n = 0" | "n = 1" | "n = 2" | k where "n = Suc (Suc (Suc k))"
    by (metis One_nat_def Suc_1 not0_implies_Suc)
  then show ?case
  proof cases
    case (4 k)
    then show ?thesis
      using Cons.IH[of k] Cons.prems x by (simp add: log_msg_def newline_def)
  qed (use Cons.prems x in \<open>simp_all add: log_msg_def newline_def\<close>)
qed simp

lemma newlines_by_thread:
  assumes "finite A" "fst ` set ps \<subseteq> A"
  shows "newlines (printed_text ps) = (\<Sum>i\<in>A. newlines (concat (map snd (filter (\<lambda>x. fst x = i) ps))))"
  using assms(2)
proof (induction ps)
  case (Cons x ps)
  have "newlines (concat (map snd (filter (\<lambda>y. fst y = i) (x # ps)))) =
      (if fst x = i then newlines (snd x) else 0) + newlines (concat (map snd (filter (\<lambda>y. fst y = i) ps)))" for i
    by simp
  then show ?case
    using Cons assms(1) by (simp add: printed_text_def sum.distrib del: filter.simps)
qed (simp add: printed_text_def)

definition timed :: "(nat \<Rightarrow> nat \<Rightarrow> string) \<Rightarrow> event list \<Rightarrow> nat \<Rightarrow> (string \<times> string) list" where
  "timed time evs i = map (\<lambda>(k, m). (time i k, m)) (enumerate 0 (logs_of evs i))"

lemma prints_timed: "prints_of time desc evs i = concat (map (\<lambda>(t, m). log_msg t (desc i) m) (timed time evs i))"
  by (simp add: prints_of_def timed_def comp_def case_prod_unfold)

lemma timed_tidy:
  assumes "\<forall>i k. tidy (time i k)"
  shows "\<forall>(t, m)\<in>set (timed time evs i). tidy t \<and> tidy m"
  using assms logs_of_tidy[of _ evs i] by (auto simp: timed_def in_set_enumerate_eq)

lemma concat_concat_map: "concat (concat (map f xs)) = concat (map (\<lambda>x. concat (f x)) xs)"
  by (induction xs) auto

lemma length_prints: "length (concat (map (\<lambda>(t, m). log_msg t d m) ms)) = 3 * length ms"
  by (induction ms) (auto simp: log_msg_def)

lemma printing_thread:
  assumes "printing time desc evs ps"
  obtains n where "n \<le> 3 * length (timed time evs i)" "length (filter (\<lambda>x. fst x = i) ps) = n"
    "map snd (filter (\<lambda>x. fst x = i) ps) = take n (prints_of time desc evs i)"
proof -
  obtain n where n: "map snd (filter (\<lambda>x. fst x = i) ps) = take n (prints_of time desc evs i)"
    using assms by (auto simp: printing_def)
  have len: "length (filter (\<lambda>x. fst x = i) ps) = min (3 * length (timed time evs i)) n"
    using arg_cong[OF n, of length] by (simp add: prints_timed length_prints)
  show thesis
    by (rule that[OF _ len]) (use n in \<open>simp_all add: prints_timed length_prints min_def\<close>)
qed

lemma client_desc_tidy: "tidy ip \<Longrightarrow> tidy (client_desc ip port)"
  using tidy_decimal[of port] unfolding client_desc_def by (intro tidy_take) (simp add: newline_def)

text \<open>
  C24: What a client can do to the log. Take any run of the server, and let its threads print what they
  log, each message by the three calls of \<open>log_msg\<close>, with any times, the calls of different threads in
  any order, up to any point. No byte a client sends puts a newline into the log: only the last of the
  three calls prints one, so the log has as many lines as messages have been completed. If only one
  thread has printed, and all it has to, the log is exactly its messages, each on a line of its own with
  the time and the client's description in front. But this needs the other threads to stay out: two
  clients that connect at the same time can give a first line with both descriptions and both
  messages, and an empty second line.
\<close>

theorem log_newlines_end_messages:
  assumes "printing time desc evs ps" "\<forall>i k. newline \<notin> set (time i k)"
    and "\<forall>i. \<exists>ip port. desc i = client_desc ip port \<and> newline \<notin> set ip"
  shows "(\<forall>(i, c)\<in>set ps. newline \<in> set c \<longrightarrow> c = [newline]) \<and>
    newlines (printed_text ps) = (\<Sum>i\<in>fst ` set ps. length (filter (\<lambda>x. fst x = i) ps) div 3) \<and>
    (\<forall>i. (\<forall>x\<in>set ps. fst x = i) \<and> length ps = length (prints_of time desc evs i) \<longrightarrow>
       printed_text ps = concat (map (\<lambda>(k, m). ''['' @ time i k @ ''] ['' @ desc i @ ''] '' @ m @ [newline])
         (enumerate 0 (logs_of evs i))) \<and>
       (\<forall>m\<in>set (logs_of evs i). newline \<notin> set m)) \<and>
    (\<exists>qs. printing time desc [Accept 0, Accept 1] qs \<and>
       printed_text qs = ''['' @ time 0 0 @ ''] ['' @ desc 0 @ ''] '' @ ''['' @ time 1 0 @ ''] ['' @ desc 1 @ ''] '' @
         ''connectedconnected'' @ [newline, newline])"
proof -
  have t: "\<forall>i k. tidy (time i k)" and d: "tidy (desc i)" for i
    using assms(2,3) client_desc_tidy by (auto simp: tidy_def) (metis tidy_def client_desc_tidy)
  have one: "c = [newline]" if "(i, c) \<in> set ps" "newline \<in> set c" for i c
  proof -
    obtain n where "map snd (filter (\<lambda>x. fst x = i) ps) = take n (prints_of time desc evs i)"
      using printing_thread[OF assms(1)] by metis
    moreover have "c \<in> set (map snd (filter (\<lambda>x. fst x = i) ps))"
      using that(1) by force
    ultimately have "c \<in> set (prints_of time desc evs i)"
      by (metis in_set_takeD)
    then show ?thesis
      using that(2) timed_tidy[OF t, of evs i] d[of i] by (auto simp: prints_timed log_msg_def tidy_def newline_def)
  qed
  have lines: "newlines (concat (map snd (filter (\<lambda>x. fst x = i) ps))) = length (filter (\<lambda>x. fst x = i) ps) div 3" for i
    by (rule printing_thread[OF assms(1), of i])
      (use newlines_take[OF timed_tidy[OF t] d] in \<open>simp add: prints_timed\<close>)
  have alone: "printed_text ps = concat (prints_of time desc evs i)"
    if "\<forall>x\<in>set ps. fst x = i" "length ps = length (prints_of time desc evs i)" for i
  proof -
    have "filter (\<lambda>x. fst x = i) ps = ps"
      using that(1) by (simp add: filter_id_conv)
    then show ?thesis
      using that(2) by (rule_tac printing_thread[OF assms(1), of i]) (simp add: printed_text_def)
  qed
  have mixed: "printing time desc [Accept 0, Accept 1]
      (concat (map (\<lambda>k. [(0, log_msg (time 0 0) (desc 0) ''connected'' ! k), (1, log_msg (time 1 0) (desc 1) ''connected'' ! k)]) [0, 1, 2]))"
    by (auto simp: printing_def prints_of_def logs_of_def logged_texts_def event_conn_def log_msg_def server_step_def
        server_init_def intro!: exI[of _ 3])
  then have "\<exists>qs. printing time desc [Accept 0, Accept 1] qs \<and>
       printed_text qs = ''['' @ time 0 0 @ ''] ['' @ desc 0 @ ''] '' @ ''['' @ time 1 0 @ ''] ['' @ desc 1 @ ''] '' @
         ''connectedconnected'' @ [newline, newline]"
    by (rule_tac exI, rule_tac conjI, assumption) (simp add: printed_text_def log_msg_def)
  moreover have "newlines (printed_text ps) = (\<Sum>i\<in>fst ` set ps. length (filter (\<lambda>x. fst x = i) ps) div 3)"
    using newlines_by_thread[of "fst ` set ps" ps] by (simp add: lines)
  moreover have "printed_text ps = concat (map (\<lambda>(k, m). ''['' @ time i k @ ''] ['' @ desc i @ ''] '' @ m @ [newline])
      (enumerate 0 (logs_of evs i)))"
    if "\<forall>x\<in>set ps. fst x = i" "length ps = length (prints_of time desc evs i)" for i
    unfolding alone[OF that] prints_of_def concat_concat_map by (simp add: case_prod_unfold log_msg_def)
  moreover have "\<forall>m\<in>set (logs_of evs i). newline \<notin> set m" for i
    using logs_of_tidy[of _ evs i] by (simp add: tidy_def)
  ultimately show ?thesis
    using one by blast
qed

theorem log_newlines_end_messages_witness:
  "\<exists>qs. printing (\<lambda>i k. ''2026-01-31 12:00:00'') (\<lambda>i. client_desc ''10.0.0.7'' i) [Accept 0, Accept 1] qs \<and>
     printed_text qs = ''[2026-01-31 12:00:00] [10.0.0.7:0] [2026-01-31 12:00:00] [10.0.0.7:1] connectedconnected'' @
       [newline, newline]"
proof -
  have "printing (\<lambda>i k. ''2026-01-31 12:00:00'') (\<lambda>i. client_desc ''10.0.0.7'' i) [] []"
    by (simp add: printing_def)
  moreover have "newline \<notin> set ''2026-01-31 12:00:00''" "newline \<notin> set ''10.0.0.7''"
    by (simp_all add: newline_def)
  moreover have "client_desc ''10.0.0.7'' 0 = ''10.0.0.7:0''" "client_desc ''10.0.0.7'' 1 = ''10.0.0.7:1''"
    by (simp_all add: client_desc_def decimal.simps)
  ultimately show ?thesis
    using log_newlines_end_messages[of "\<lambda>i k. ''2026-01-31 12:00:00''" "\<lambda>i. client_desc ''10.0.0.7'' i" "[]" "[]"]
    by fastforce
qed

end
