(* ===== verification/Client.thy ===== *)
theory Client
  imports Stdio Server_Props
begin

text \<open>
  The interactive client of the key-value server, \<open>client.c\<close>: it reads a line from standard input,
  sends it, waits for one line in reply and prints it. The other end of the connection is a parameter:
  a function from its state, what the client has not read yet, and the bytes the client sends, to what is
  then on the connection. The last part connects the client to the model of the server.
\<close>

section \<open>The code\<close>

definition MAX_LINE :: nat where "MAX_LINE = 512"

fun recv_loop :: "rcv list \<Rightarrow> nat \<Rightarrow> string \<Rightarrow> (recv_result \<times> rcv list) option" where
  "recv_loop stream 0 out_line = Some (Violation, stream)"
| "recv_loop [] (Suc left) out_line = None"
| "recv_loop (Eof # stream) (Suc left) out_line = Some (Disconnected, stream)"
| "recv_loop (Fail # stream) (Suc left) out_line = Some (Violation, stream)"
| "recv_loop (Byte c # stream) (Suc left) out_line =
     (if c = NL then
        let pos = length out_line;
            text = (if pos > 0 \<and> out_line ! (pos - 1) = carriage_return then butlast out_line else out_line)
        in Some (if pos = 0 then Disconnected else Got pos (cstr text), stream)
      else recv_loop stream left (out_line @ [c]))"

definition recv_line :: "rcv list \<Rightarrow> nat \<Rightarrow> (recv_result \<times> rcv list) option" where
  "recv_line stream max_len = recv_loop stream (max_len - 1) []"

definition send_line :: "string \<Rightarrow> string" where
  "send_line msg = take (MAX_LINE + 2 - 1) (msg @ [NL])"

text \<open>The line read and the rest of the input; \<open>None\<close> for the 0 returned at its end.\<close>

definition read_stdin_line :: "nat \<Rightarrow> string \<Rightarrow> (string \<times> string) option" where
  "read_stdin_line sz cs = map_option (\<lambda>(buf, rest). (strip_newline (cstr buf), rest)) (fgets sz cs)"

record 'p client =
  c_in :: string
  c_out :: string
  c_sock :: "rcv list"
  c_peer :: 'p

definition printf :: "string \<Rightarrow> 'p client \<Rightarrow> 'p client" where
  "printf x s = s\<lparr>c_out := c_out s @ x\<rparr>"

definition help_text :: string where
  "help_text = ''Commands:'' @ [NL] @ ''  AUTH <username> <password>'' @ [NL] @ ''  PUT <key> <value>'' @ [NL] @
     ''  GET <key>'' @ [NL] @ ''  DEL <key>'' @ [NL] @ ''  LIST'' @ [NL] @ ''  QUIT'' @ [NL]"

text \<open>
  One iteration of the loop in \<open>main\<close>: go on, leave the loop, or wait for ever for a reply that
  does not come.
\<close>

datatype 'p outcome = Go "'p client" | Leave "'p client" | Waiting "'p client"

definition client_round :: "('p \<Rightarrow> rcv list \<Rightarrow> string \<Rightarrow> rcv list \<times> 'p) \<Rightarrow> 'p client \<Rightarrow> 'p outcome" where
  "client_round net s0 =
     (let s = printf ''> '' s0 in
      case read_stdin_line MAX_LINE (c_in s) of
        None \<Rightarrow> Leave (printf ([NL] @ ''EOF on input, closing connection.'' @ [NL]) s)
      | Some (input, rest) \<Rightarrow>
          let s = s\<lparr>c_in := rest\<rparr> in
          if length input = 0 then Go s
          else if input = ''HELP'' then Go (printf help_text s)
          else
            let (on_socket, p) = net (c_peer s) (c_sock s) (send_line input);
                s = s\<lparr>c_sock := on_socket, c_peer := p\<rparr>
            in (case recv_line (c_sock s) MAX_LINE of
                  None \<Rightarrow> Waiting s
                | Some (r, stream) \<Rightarrow>
                    let s = s\<lparr>c_sock := stream\<rparr> in
                    (case r of
                       Disconnected \<Rightarrow> Leave (printf (''Server closed the connection.'' @ [NL]) s)
                     | Violation \<Rightarrow> Leave (printf (''Connection error or server response too long.'' @ [NL]) s)
                     | Got n response \<Rightarrow>
                         let s = printf (response @ [NL]) s in
                         if strncmp_eq 4 input ''QUIT'' then Leave s else Go s)))"

text \<open>The loop ends: every iteration consumes input.\<close>

lemma read_stdin_line_shorter: "read_stdin_line MAX_LINE cs = Some (l, rest) \<Longrightarrow> length rest < length cs"
  using fgets_shorter[of MAX_LINE cs] by (auto simp: read_stdin_line_def MAX_LINE_def)

lemma client_round_shorter: "client_round net s = Go t \<Longrightarrow> length (c_in t) < length (c_in s)"
  by (auto simp: client_round_def printf_def Let_def split_beta split: option.splits if_splits recv_result.splits
      dest!: read_stdin_line_shorter)

function client_loop :: "('p \<Rightarrow> rcv list \<Rightarrow> string \<Rightarrow> rcv list \<times> 'p) \<Rightarrow> 'p client \<Rightarrow> 'p outcome" where
  "client_loop net s =
     (case client_round net s of
        Go t \<Rightarrow> client_loop net t
      | Leave t \<Rightarrow> Leave (printf (''Disconnected.'' @ [NL]) t)
      | Waiting t \<Rightarrow> Waiting t)"
  by pat_completeness auto
termination
  by (relation "measure (\<lambda>(_, s). length (c_in s))") (auto dest: client_round_shorter)

declare client_loop.simps [simp del]

text \<open>\<open>main\<close> from the established connection on.\<close>

definition client_main :: "('p \<Rightarrow> rcv list \<Rightarrow> string \<Rightarrow> rcv list \<times> 'p) \<Rightarrow> 'p \<Rightarrow> string \<Rightarrow> 'p outcome" where
  "client_main net p stdin = client_loop net
     \<lparr>c_in = stdin, c_out = ''Connected. Type HELP for available commands.'' @ [NL], c_sock = [], c_peer = p\<rparr>"

section \<open>The client and the server\<close>

text \<open>Both ends of the connection frame their lines in the same way.\<close>

lemma NL_newline: "NL = newline"
  by (simp add: NL_def newline_def)

lemma recv_loop_server: "recv_loop stream n line = Server.recv_loop stream n line"
  by (induction stream n line rule: recv_loop.induct) (simp_all add: NL_newline)

lemma recv_line_server: "recv_line stream n = Server.recv_line stream n"
  by (simp add: recv_line_def Server.recv_line_def recv_loop_server)

lemma send_line_server: "send_line msg = Server.send_line msg"
  by (simp add: send_line_def Server.send_line_def MAX_LINE_def Server.MAX_LINE_def NL_newline)

text \<open>
  The server's end of the connection: its thread works on the bytes that have arrived, and the bytes
  it sent, with the end of the stream when it closed the connection, come behind what the client has
  not read yet. When the client sends to a server that has closed the connection, the system decides
  what it can still read: \<open>after\<close>. It may be all that was waiting, or, since such a segment is answered by
  a reset, a part of it and then a failed \<open>recv\<close>.
\<close>

definition sent :: "action list \<Rightarrow> string" where
  "sent acts = concat (map (\<lambda>a. case a of Sent x \<Rightarrow> x | Logged x \<Rightarrow> []) acts)"

definition serve :: "string \<Rightarrow> (rcv list \<Rightarrow> rcv list) \<Rightarrow> conn \<times> store \<Rightarrow> rcv list \<Rightarrow> string \<Rightarrow> rcv list \<times> conn \<times> store" where
  "serve old_buf after = (\<lambda>(c, st) unread bytes.
     if running c then
       let (acts, c1, st1) = Server.client_loop old_buf (map Byte bytes) c st
       in (unread @ map Byte (sent acts) @ (if running c1 then [] else [Eof]), c1, st1)
     else (after unread, c, st))"

definition may_reset :: "(rcv list \<Rightarrow> rcv list) \<Rightarrow> bool" where
  "may_reset after \<longleftrightarrow> (\<forall>q. after q = q \<or> (\<exists>k. after q = take k q @ [Fail]))"

lemma sent_simps [simp]:
  "sent [] = []" "sent (Sent x # acts) = x @ sent acts" "sent (Logged x # acts) = sent acts"
  "sent (a @ b) = sent a @ sent b"
  by (simp_all add: sent_def)

text \<open>A line the framing carries unchanged.\<close>

definition plain_line :: "string \<Rightarrow> bool" where
  "plain_line l \<longleftrightarrow> NL \<notin> set l \<and> carriage_return \<notin> set l \<and> nonul l \<and> l \<noteq> [] \<and> length l \<le> 510"

lemma send_plain: "plain_line l \<Longrightarrow> send_line l = l @ [NL]"
  by (auto simp: plain_line_def send_line_def MAX_LINE_def)

lemma recv_plain:
  "plain_line l \<Longrightarrow> recv_line (map Byte (l @ [NL]) @ rest) MAX_LINE = Some (Got (length l) l, rest)"
  using recv_line_short[of l rest]
  by (simp add: plain_line_def recv_line_server MAX_LINE_def Server.MAX_LINE_def NL_newline)

lemma serve_line:
  assumes "running c" "plain_line l" "handle_line b l c st = (acts, c1, st1)"
  shows "serve b after (c, st) unread (send_line l) =
    (unread @ map Byte (sent acts) @ (if running c1 then [] else [Eof]), c1, st1)"
proof -
  have r: "Server.recv_line (map Byte (l @ [NL])) Server.MAX_LINE = Some (Got (length l) l, [])"
    using recv_plain[OF assms(2), of "[]"] by (simp add: recv_line_server MAX_LINE_def Server.MAX_LINE_def)
  have e: "Server.client_loop b [] c1 st1 = (if running c1 then ([], c1, st1) else ([Logged ''connection closed''], c1, st1))"
    by (subst Server.client_loop.simps) (simp add: Server.recv_line_def Server.MAX_LINE_def numeral_eq_Suc)
  have "Server.client_loop b (map Byte (l @ [NL])) c st =
      (acts @ (if running c1 then [] else [Logged ''connection closed'']), c1, st1)"
    using assms(1,3) r e by (subst Server.client_loop.simps) (simp add: handle_round_def)
  then show ?thesis
    using assms(1) by (simp add: serve_def send_plain[OF assms(2)])
qed

abbreviation at :: "string list \<Rightarrow> string \<Rightarrow> conn \<Rightarrow> store \<Rightarrow> (conn \<times> store) client" where
  "at ls ot c st \<equiv> \<lparr>c_in = typed ls, c_out = ot, c_sock = [], c_peer = (c, st)\<rparr>"

text \<open>One command and its one-line reply.\<close>

lemma dialogue:
  assumes "running c" "plain_line l" "l \<noteq> ''HELP''"
    and "handle_line b l c st = (acts, c1, st1)" "sent acts = m @ [NL]" "plain_line m"
  shows "client_round (serve b after) (at (l # ls) ot c st) = (if strncmp_eq 4 l ''QUIT'' then Leave else Go)
    \<lparr>c_in = typed ls, c_out = ot @ ''> '' @ m @ [NL], c_sock = (if running c1 then [] else [Eof]), c_peer = (c1, st1)\<rparr>"
proof -
  have "line_ok MAX_LINE l"
    using assms(2) by (auto simp: plain_line_def line_ok_def MAX_LINE_def list_all_iff)
  note fgets_typed(1)[OF this, of ls] fgets_typed(2)[OF this]
  moreover have "l \<noteq> []"
    using assms(2) by (simp add: plain_line_def)
  ultimately show ?thesis
    using assms(1,3,5) serve_line[OF assms(1,2,4)] recv_plain[OF assms(6)]
    by (auto simp: client_round_def printf_def read_stdin_line_def Let_def simp del: typed.simps)
qed

lemma session_command:
  assumes "running c" "plain_line l" "l \<noteq> ''HELP''" "\<not> strncmp_eq 4 l ''QUIT''"
    and "handle_line b l c st = (acts, c1, st1)" "sent acts = m @ [NL]" "plain_line m" "running c1"
  shows "client_loop (serve b after) (at (l # ls) ot c st) = client_loop (serve b after) (at ls (ot @ ''> '' @ m @ [NL]) c1 st1)"
  using dialogue[OF assms(1-3,5-7), of after ls ot] assms(4,8)
  by (subst client_loop.simps) (simp del: typed.simps)

lemma session_quit:
  assumes "running c" "plain_line l" "strncmp_eq 4 l ''QUIT''" "l \<noteq> ''HELP''"
    and "handle_line b l c st = (acts, c1, st1)" "sent acts = m @ [NL]" "plain_line m"
  shows "\<exists>t. client_loop (serve b after) (at (l # ls) ot c st) = Leave t \<and>
    c_out t = ot @ ''> '' @ m @ [NL] @ ''Disconnected.'' @ [NL] \<and> c_peer t = (c1, st1)"
  using dialogue[OF assms(1,2,4-7), of after ls ot] assms(3)
  by (subst client_loop.simps) (simp add: printf_def del: typed.simps)

section \<open>Command lines\<close>

lemma scan_word_word:
  assumes "w \<noteq> []" "list_all (\<lambda>c. \<not> isspace c) w" "length w \<le> n"
  shows "scan_word n (w @ '' '' @ rest) = (w, '' '' @ rest)" "scan_word n w = (w, [])"
proof -
  have sp: "isspace CHR 0x20"
    by (simp add: isspace_def)
  have d: "dropWhile isspace (w @ x) = w @ x" for x
    using assms(1,2) by (cases w) auto
  have t: "takeWhile (\<lambda>c. \<not> isspace c) (w @ '' '' @ rest) = w" "takeWhile (\<lambda>c. \<not> isspace c) w = w"
    using assms(2) sp by (simp_all add: takeWhile_append2 list_all_iff takeWhile_eq_all_conv)
  show "scan_word n (w @ '' '' @ rest) = (w, '' '' @ rest)" "scan_word n w = (w, [])"
    using assms(3) d[of "[]"] by (simp_all only: scan_word_def Let_def d t append_Nil2) simp_all
qed

lemma scan_word_space: "scan_word n ('' '' @ s) = scan_word n s"
  by (simp add: scan_word_def isspace_def)

abbreviation word :: "string \<Rightarrow> bool" where
  "word w \<equiv> w \<noteq> [] \<and> list_all (\<lambda>c. \<not> isspace c) w \<and> length w \<le> 63"

text \<open>The command line of the protocol parses back to its parts.\<close>

lemma parse_three:
  assumes "word cmd" "word k" "v \<noteq> []" "\<not> isspace (hd v)" "newline \<notin> set v" "length v \<le> 399"
  shows "parse_line (cmd @ '' '' @ k @ '' '' @ v) = (cmd, k, v)"
proof -
  have "takeWhile (\<lambda>c. c \<noteq> newline) v = v"
    using assms(5) by (auto simp: takeWhile_eq_all_conv)
  then have "scan_rest 399 ('' '' @ v) = v"
    using assms(3-6) by (cases v) (auto simp: scan_rest_def isspace_def)
  then show ?thesis
    using assms(1,2) by (simp add: parse_line_def scan_word_word scan_word_space del: append.append_Cons)
qed

lemma parse_two:
  assumes "word cmd" "word k"
  shows "parse_line (cmd @ '' '' @ k) = (cmd, k, [])"
  using assms by (simp add: parse_line_def scan_word_word scan_word_space scan_rest_def del: append.append_Cons)

lemma word_examples: "word ''AUTH''" "word ''PUT''" "word ''GET''" "word ''alice''"
  by (simp_all add: isspace_def)

lemma token_word:
  assumes "is_valid_token k (MAX_KEY - 1)" "CHR 0x20 \<notin> set k"
  shows "word k" "nonul k" "NL \<notin> set k" "carriage_return \<notin> set k"
proof -
  have c: "32 < (of_char c :: nat)" if "c \<in> set k" for c
  proof -
    have "32 \<le> (of_char c :: nat)" "c \<noteq> CHR 0x20"
      using assms that by (auto simp: is_valid_token_def list_all_iff)
    moreover have "(of_char c :: nat) = 32 \<longleftrightarrow> c = CHR 0x20"
      using of_char_eq_iff[of c "CHR 0x20", where ?'a = nat] by simp
    ultimately show ?thesis
      by linarith
  qed
  then show "word k"
    using assms by (fastforce simp: is_valid_token_def MAX_KEY_def list_all_iff isspace_def)
  show "nonul k" "NL \<notin> set k" "carriage_return \<notin> set k"
    using c by (fastforce simp: nonul_def list_all_iff NUL_def NL_def carriage_return_def)+
qed

section \<open>Sessions\<close>

abbreviation lines :: "string list \<Rightarrow> string" where
  "lines ls \<equiv> concat (map (\<lambda>l. l @ [NL]) ls)"

text \<open>
  C34: A whole session. A user who logs in, puts a key, gets it and quits sees the four replies, the
  third with exactly the value put, and the client ends; on the server the connection is closed and
  the store, as a map, has changed at that key only. This holds for every store with room and every
  key and value the protocol can carry.
\<close>

theorem client_session:
  assumes "store_inv st" "is_valid_token k (MAX_KEY - 1)" "CHR 0x20 \<notin> set k"
    and "v \<noteq> []" "\<not> isspace (hd v)" "length v < MAX_VALUE" "nonul v" "NL \<notin> set v" "carriage_return \<notin> set v"
    and "store_map st k \<noteq> None \<or> card (dom (store_map st)) < MAX_STORE"
  shows "\<exists>s c1 st1. client_main (serve b after) (conn_init, st)
        (typed [''AUTH alice alicepass'', ''PUT '' @ k @ '' '' @ v, ''GET '' @ k, ''QUIT'']) = Leave s \<and>
      c_out s = lines [''Connected. Type HELP for available commands.'', ''> OK AUTH'', ''> OK PUT'', ''> OK GET '' @ v,
        ''> OK BYE'', ''Disconnected.''] \<and>
      c_peer s = (c1, st1) \<and> \<not> running c1 \<and> store_inv st1 \<and> store_map st1 = (store_map st)(k \<mapsto> v)"
proof -
  note k = token_word[OF assms(2,3)]
  have ok: "key_ok k" "val_ok v"
    using token_key[OF assms(2)] assms(6,7) by (auto simp: val_ok_def MAX_VALUE_def)
  define st1 where "st1 = snd (store_put st k v)"
  have st1: "store_inv st1" "store_map st1 = (store_map st)(k \<mapsto> v)"
    using store_put_map[OF assms(1) ok] assms(10) by (auto simp: st1_def split: if_splits)
  define c1 where "c1 = conn_init\<lparr>authenticated := True, authed_user := strncpy (authed_user conn_init) ''alice'' (MAX_KEY - 1)\<rparr>"
  have run: "running conn_init" "running c1" "authenticated c1"
    by (simp_all add: c1_def conn_init_def)
  have p: "parse_line ''AUTH alice alicepass'' = (''AUTH'', ''alice'', ''alicepass'')"
      "parse_line (''PUT '' @ k @ '' '' @ v) = (''PUT'', k, v)" "parse_line (''GET '' @ k) = (''GET'', k, [])"
      "parse_line ''QUIT'' = (''QUIT'', [], [])"
    using parse_three[OF word_examples(2) k(1) assms(4,5)] parse_two[OF word_examples(3) k(1)] assms(6,8)
    by (auto simp: parse_examples NL_newline MAX_VALUE_def) code_simp
  have nl: "Server.send_line m = m @ [NL]" if "length m \<le> 510" for m
    using that by (simp add: Server.send_line_def Server.MAX_LINE_def NL_newline)
  obtain a1 where a1: "handle_line b ''AUTH alice alicepass'' conn_init st = (a1, c1, st)" "sent a1 = ''OK AUTH'' @ [NL]"
    using p(1) by (simp add: handle_line_def handle_auth_def c1_def VALID_USERS_def nl conn_init_def)
  obtain a2 where a2: "handle_line b (''PUT '' @ k @ '' '' @ v) c1 st = (a2, c1, st1)" "sent a2 = ''OK PUT'' @ [NL]"
    using p(2) run assms(2,4,6) by (simp add: handle_line_def nl st1_def MAX_VALUE_def split_beta)
  obtain a3 where a3: "handle_line b (''GET '' @ k) c1 st1 = (a3, c1, st1)" "sent a3 = (''OK GET '' @ v) @ [NL]"
    using p(3) run assms(2,6) store_get_map[OF st1(1) k(2)] st1(2)
    by (simp add: handle_line_def nl Server.MAX_LINE_def MAX_VALUE_def)
  obtain a4 where a4: "handle_line b ''QUIT'' c1 st1 = (a4, c1\<lparr>running := False\<rparr>, st1)" "sent a4 = ''OK BYE'' @ [NL]"
    using p(4) run by (simp add: handle_line_def nl)
  have pl: "plain_line ''AUTH alice alicepass''" "plain_line ''QUIT''" "plain_line ''OK AUTH''" "plain_line ''OK PUT''"
      "plain_line ''OK BYE''" "plain_line (''PUT '' @ k @ '' '' @ v)" "plain_line (''GET '' @ k)" "plain_line (''OK GET '' @ v)"
    using k assms(6-9) by (simp_all add: plain_line_def NL_def carriage_return_def NUL_def MAX_VALUE_def)
  have nq: "\<not> strncmp_eq 4 ''AUTH alice alicepass'' ''QUIT''" "\<not> strncmp_eq 4 (''PUT '' @ k @ '' '' @ v) ''QUIT''"
      "\<not> strncmp_eq 4 (''GET '' @ k) ''QUIT''" "strncmp_eq 4 ''QUIT'' ''QUIT''"
    by (simp_all add: numeral_eq_Suc)
  let ?o = "''Connected. Type HELP for available commands.'' @ [NL]"
  have "\<exists>s. client_main (serve b after) (conn_init, st)
      (typed [''AUTH alice alicepass'', ''PUT '' @ k @ '' '' @ v, ''GET '' @ k, ''QUIT'']) = Leave s \<and>
      c_out s = (((?o @ ''> '' @ ''OK AUTH'' @ [NL]) @ ''> '' @ ''OK PUT'' @ [NL]) @ ''> '' @ (''OK GET '' @ v) @ [NL]) @
        ''> '' @ ''OK BYE'' @ [NL] @ ''Disconnected.'' @ [NL] \<and>
      c_peer s = (c1\<lparr>running := False\<rparr>, st1)"
    unfolding client_main_def
    by (subst session_command[OF run(1) pl(1) _ nq(1) a1 pl(3) run(2)], simp,
        subst session_command[OF run(2) pl(6) _ nq(2) a2 pl(4) run(2)], simp,
        subst session_command[OF run(2) pl(7) _ nq(3) a3 pl(8) run(2)], simp,
        rule session_quit[OF run(2) pl(2) nq(4) _ a4 pl(5)], simp)
  then show ?thesis
    using st1 by fastforce
qed

text \<open>
  C36: \<open>LIST\<close> can end a session. When the keys in use fill the server's list buffer, an authenticated
  user who types \<open>LIST\<close> sees no list: the reply has no newline within the client's buffer, so the
  client reports an error and drops the connection, leaving the lines typed after it unread.
\<close>

theorem long_list_ends_session:
  assumes "authenticated c" "running c"
    and "512 \<le> sum_list (map (\<lambda>k. Suc (length k)) (map fst (entries st)))"
    and "list_all (\<lambda>k. newline \<notin> set k) (map fst (entries st))"
  shows "\<exists>s. client_loop (serve b after) (at (''LIST'' # ls) ot c st) = Leave s \<and> c_in s = typed ls \<and>
    c_out s = ot @ ''> '' @ lines [''Connection error or server response too long.'', ''Disconnected.'']"
proof -
  have pl: "plain_line ''LIST''" and ok: "line_ok MAX_LINE ''LIST''"
    by (simp_all add: plain_line_def line_ok_def NL_def carriage_return_def NUL_def MAX_LINE_def)
  obtain x lg where x: "handle_line b ''LIST'' c st = ([Sent x, Logged lg], c, st)" "length x = 513" "newline \<notin> set x"
    using list_reply_cut[OF assms(1) parse_examples(5) assms(3,4)] by blast
  have "recv_line (map Byte x) MAX_LINE = Some (Violation, drop 511 (map Byte x))"
    using recv_line_long[OF x(3), of "[]"] x(2) by (simp add: recv_line_server MAX_LINE_def Server.MAX_LINE_def)
  then show ?thesis
    using fgets_typed(1)[OF ok, of ls] fgets_typed(2)[OF ok] serve_line[OF assms(2) pl x(1)] assms(2)
    by (subst client_loop.simps) (simp add: client_round_def printf_def read_stdin_line_def Let_def del: typed.simps)
qed

section \<open>Witnesses\<close>

theorem client_session_witness:
  "\<exists>s. client_main (serve [] id) (conn_init, store_init)
      (typed [''AUTH alice alicepass'', ''PUT k v'', ''GET k'', ''QUIT'']) = Leave s \<and>
    c_out s = lines [''Connected. Type HELP for available commands.'', ''> OK AUTH'', ''> OK PUT'', ''> OK GET v'',
      ''> OK BYE'', ''Disconnected.'']"
  using client_session[OF store_init_inv(1) token_example, of "''v''" "[]" id]
  by (auto simp: isspace_def MAX_VALUE_def NUL_def NL_def carriage_return_def store_init_inv(2) MAX_STORE_def)

theorem long_list_ends_session_witness:
  "\<exists>s. client_loop (serve [] id) (at [''LIST'', ''GET k''] [] alice full_store) = Leave s \<and> c_in s = typed [''GET k'']"
  using long_list_ends_session[OF alice_ready full_keys] by blast

end
