(* ===== verification/Startup.thy ===== *)
theory Startup
  imports Client
begin

text \<open>
  The first part of \<open>main\<close> in \<open>server.c\<close> and \<open>client.c\<close>: arguments, Winsock, socket, \<open>bind\<close> and
  \<open>listen\<close> or \<open>connect\<close>, with every error exit, and the calls that give the resources back; the client's
  \<open>main\<close> as a whole. Which system calls succeed is decided by the environment.
\<close>

section \<open>Arguments\<close>

definition DEFAULT_PORT :: int where "DEFAULT_PORT = 5050"

definition digit :: "char \<Rightarrow> bool" where
  "digit c \<longleftrightarrow> 48 \<le> (of_char c :: nat) \<and> (of_char c :: nat) \<le> 57"

fun atoi_digits :: "int \<Rightarrow> string \<Rightarrow> int" where
  "atoi_digits acc [] = acc"
| "atoi_digits acc (c # s) = (if digit c then atoi_digits (10 * acc + (of_char c - 48)) s else acc)"

text \<open>\<open>atoi\<close>; \<open>None\<close> where the number does not fit an \<open>int\<close>, which C leaves undefined.\<close>

definition atoi :: "string \<Rightarrow> int option" where
  "atoi s =
     (let s1 = dropWhile isspace s;
          n = (case s1 of [] \<Rightarrow> 0
               | c # r \<Rightarrow> if c = CHR ''-'' then - atoi_digits 0 r else if c = CHR ''+'' then atoi_digits 0 r
                         else atoi_digits 0 s1)
      in if - (2 ^ 31) \<le> n \<and> n < 2 ^ 31 then Some n else None)"

text \<open>\<open>htons((u_short)port)\<close>: the port the system is given.\<close>

definition u_short :: "int \<Rightarrow> int" where
  "u_short port = port mod 2 ^ 16"

section \<open>System calls\<close>

datatype call = WSAStartup bool | WSACleanup | Socket bool | Closesocket | Setsockopt | Bind int bool | Listen int bool
  | Inet_pton string bool | Connect string int bool | Out string | Err string

record env =
  wsa_ok :: bool
  socket_ok :: bool
  bind_ok :: bool
  listen_ok :: bool
  valid_ip :: "string \<Rightarrow> bool"
  connect_ok :: bool
  last_error :: int

definition BACKLOG :: int where "BACKLOG = 10"

datatype start = Exit int | Loop

text \<open>\<open>main\<close> of the server, on its arguments after the program name.\<close>

definition server_main :: "string list \<Rightarrow> env \<Rightarrow> (call list \<times> start) option" where
  "server_main args e =
     (case (case args of [] \<Rightarrow> Some DEFAULT_PORT | p # _ \<Rightarrow> atoi p) of
        None \<Rightarrow> None
      | Some port \<Rightarrow> Some
          (if \<not> wsa_ok e then ([WSAStartup False, Err (''WSAStartup failed'' @ [NL])], Exit 1)
           else if \<not> socket_ok e then
             ([WSAStartup True, Socket False, Err (''socket() failed: '' @ int_text (last_error e) @ [NL]), WSACleanup], Exit 1)
           else if \<not> bind_ok e then
             ([WSAStartup True, Socket True, Setsockopt, Bind (u_short port) False,
               Err (''bind() failed: '' @ int_text (last_error e) @ [NL]), Closesocket, WSACleanup], Exit 1)
           else if \<not> listen_ok e then
             ([WSAStartup True, Socket True, Setsockopt, Bind (u_short port) True, Listen BACKLOG False,
               Err (''listen() failed: '' @ int_text (last_error e) @ [NL]), Closesocket, WSACleanup], Exit 1)
           else
             ([WSAStartup True, Socket True, Setsockopt, Bind (u_short port) True, Listen BACKLOG True,
               Out (''Server listening on port '' @ int_text port @ ''...'' @ [NL]),
               Out (''Valid demo users: alice/alicepass, bob/bobpass'' @ [NL])], Loop)))"

text \<open>\<open>main\<close> of the client up to the established connection, and after its loop.\<close>

definition client_start :: "string list \<Rightarrow> env \<Rightarrow> (call list \<times> start) option" where
  "client_start args e =
     (let server_ip = (case args of [] \<Rightarrow> ''127.0.0.1'' | a # _ \<Rightarrow> a) in
      case (case args of _ # p # _ \<Rightarrow> atoi p | _ \<Rightarrow> Some DEFAULT_PORT) of
        None \<Rightarrow> None
      | Some port \<Rightarrow> Some
          (if \<not> wsa_ok e then ([WSAStartup False, Err (''WSAStartup failed'' @ [NL])], Exit 1)
           else if \<not> socket_ok e then
             ([WSAStartup True, Socket False, Err (''socket() failed: '' @ int_text (last_error e) @ [NL]), WSACleanup], Exit 1)
           else if \<not> valid_ip e server_ip then
             ([WSAStartup True, Socket True, Inet_pton server_ip False,
               Err (''Invalid server address: '' @ server_ip @ [NL]), Closesocket, WSACleanup], Exit 1)
           else if \<not> connect_ok e then
             ([WSAStartup True, Socket True, Inet_pton server_ip True,
               Out (''Connecting to '' @ server_ip @ '':'' @ int_text port @ ''...'' @ [NL]), Connect server_ip (u_short port) False,
               Err (''connect() failed: '' @ int_text (last_error e) @ [NL]), Closesocket, WSACleanup], Exit 1)
           else
             ([WSAStartup True, Socket True, Inet_pton server_ip True,
               Out (''Connecting to '' @ server_ip @ '':'' @ int_text port @ ''...'' @ [NL]), Connect server_ip (u_short port) True], Loop)))"

definition client_shutdown :: "call list" where
  "client_shutdown = [Closesocket, WSACleanup]"

text \<open>
  The whole of the client's \<open>main\<close>: the system calls made, how its loop ended (if it was reached; the
  loop's own text ends with the line printed last), and the exit code, which is missing while the
  client waits for ever.
\<close>

definition client_program :: "string list \<Rightarrow> env \<Rightarrow> ('p \<Rightarrow> rcv list \<Rightarrow> string \<Rightarrow> rcv list \<times> 'p) \<Rightarrow> 'p \<Rightarrow> string \<Rightarrow>
    (call list \<times> 'p outcome option \<times> int option) option" where
  "client_program args e net p stdin =
     (case client_start args e of
        None \<Rightarrow> None
      | Some (cs, Exit n) \<Rightarrow> Some (cs, None, Some n)
      | Some (cs, Loop) \<Rightarrow> Some
          (case client_main net p stdin of
             Leave t \<Rightarrow> (cs @ client_shutdown, Some (Leave t), Some 0)
           | stuck \<Rightarrow> (cs, Some stuck, None)))"

section \<open>Resources\<close>

text \<open>Open sockets and Winsock initialisations after a sequence of calls.\<close>

fun resources :: "call \<Rightarrow> int \<times> int \<Rightarrow> int \<times> int" where
  "resources (WSAStartup ok) (w, s) = (if ok then w + 1 else w, s)"
| "resources WSACleanup (w, s) = (w - 1, s)"
| "resources (Socket ok) (w, s) = (w, if ok then s + 1 else s)"
| "resources Closesocket (w, s) = (w, s - 1)"
| "resources c r = r"

definition held_after :: "call list \<Rightarrow> int \<times> int" where
  "held_after cs = fold resources cs (0, 0)"

section \<open>The port\<close>

lemma atoi_digits_append: "list_all digit s \<Longrightarrow> atoi_digits a (s @ t) = atoi_digits (atoi_digits a s) t"
  by (induction s arbitrary: a) auto

lemma digit_nth:
  assumes "k < (10::nat)"
  shows "digit (''0123456789'' ! k)" "of_char (''0123456789'' ! k) = 48 + int k"
proof -
  have "k = 0 \<or> k = 1 \<or> k = 2 \<or> k = 3 \<or> k = 4 \<or> k = 5 \<or> k = 6 \<or> k = 7 \<or> k = 8 \<or> k = 9"
    using assms by presburger
  then show "digit (''0123456789'' ! k)" "of_char (''0123456789'' ! k) = 48 + int k"
    by (elim disjE; simp add: digit_def)+
qed

lemma decimal_number: "list_all digit (decimal n) \<and> decimal n \<noteq> [] \<and> atoi_digits 0 (decimal n) = int n"
proof (induction n rule: decimal.induct)
  case (1 n)
  show ?case
  proof (cases "n < 10")
    case True
    then show ?thesis
      using digit_nth[of n] by (simp add: decimal.simps[of n])
  next
    case False
    have "int (n div 10) * 10 + int (n mod 10) = int n"
      by (metis div_mult_mod_eq of_nat_add of_nat_mult of_nat_numeral)
    then show ?thesis
      using 1[OF False] False digit_nth[of "n mod 10"]
      by (simp add: decimal.simps[of n] atoi_digits_append)
  qed
qed

lemma digit_plain: "digit c \<Longrightarrow> \<not> isspace c \<and> c \<noteq> CHR ''-'' \<and> c \<noteq> CHR ''+''"
  by (auto simp: digit_def isspace_def)

text \<open>\<open>atoi\<close> reads back the number that was written down.\<close>

lemma atoi_int_text: "- (2 ^ 31) \<le> n \<Longrightarrow> n < 2 ^ 31 \<Longrightarrow> atoi (int_text n) = Some n"
proof -
  assume r: "- (2 ^ 31) \<le> n" "n < 2 ^ 31"
  have d: "\<exists>c s. decimal k = c # s \<and> digit c" "atoi_digits 0 (decimal k) = int k" for k
    using decimal_number[of k] by (cases "decimal k"; simp)+
  show ?thesis
  proof (cases "n < 0")
    case True
    then show ?thesis
      using r d(2)[of "nat (- n)"] by (simp add: int_text_def atoi_def Let_def isspace_def)
  next
    case False
    obtain c s where c: "decimal (nat n) = c # s" "digit c"
      using d(1) by blast
    then show ?thesis
      using False r digit_plain[OF c(2)] d(2)[of "nat n"] by (simp add: int_text_def atoi_def Let_def)
  qed
qed

lemma client_loop_ends: "client_main net p stdin \<noteq> Go t"
proof -
  have "client_loop net s \<noteq> Go t" for s
    by (induction net s rule: client_loop.induct) (subst client_loop.simps, simp split: outcome.split)
  then show ?thesis
    by (simp add: client_main_def)
qed

text \<open>
  C39: Startup gives back what it took. Whatever system calls fail, the server exits with code 1 and
  holds neither a socket nor a Winsock initialisation, or it reaches its loop with one of each, bound
  and listening. The port is the number of its first argument (5050 without one), any number of an
  \<open>int\<close> written in decimal; that number is announced, but the socket is bound to it modulo 65536, which
  is another port for every number outside 0 to 65535. The client, run to its end, has given back
  whatever it took and exits with code 1 if it could not connect, and with 0 after its loop, which it
  reached with a connection to the port given; it keeps both only while it waits for a reply for ever.
\<close>

theorem startup_gives_back:
  assumes "server_main args e = Some (cs, r)" "client_program args' e' net p stdin = Some (cs', ending, code)"
  shows "(r = Exit 1 \<and> held_after cs = (0, 0) \<or>
      r = Loop \<and> held_after cs = (1, 1) \<and>
      (\<exists>port. (args = [] \<longrightarrow> port = 5050) \<and>
         (\<forall>n rest. - (2 ^ 31) \<le> n \<and> n < 2 ^ 31 \<and> args = int_text n # rest \<longrightarrow> port = n) \<and>
         Bind (port mod 65536) True \<in> set cs \<and> Listen 10 True \<in> set cs \<and>
         Out (''Server listening on port '' @ int_text port @ ''...'' @ [NL]) \<in> set cs \<and>
         (port mod 65536 = port \<longleftrightarrow> 0 \<le> port \<and> port < 65536))) \<and>
    (ending = None \<and> code = Some 1 \<and> held_after cs' = (0, 0) \<or>
     (\<exists>t. ending = Some (Leave t) \<and> client_main net p stdin = Leave t \<and> code = Some 0 \<and> held_after cs' = (0, 0)) \<or>
     (\<exists>t. ending = Some (Waiting t) \<and> client_main net p stdin = Waiting t \<and> code = None \<and> held_after cs' = (1, 1))) \<and>
    (ending \<noteq> None \<longrightarrow> (\<forall>ip n rest. - (2 ^ 31) \<le> n \<and> n < 2 ^ 31 \<and> args' = ip # int_text n # rest \<longrightarrow>
       Connect ip (n mod 65536) True \<in> set cs'))"
proof -
  obtain port where p: "(case args of [] \<Rightarrow> Some DEFAULT_PORT | p # _ \<Rightarrow> atoi p) = Some port"
    and run: "r = Exit 1 \<and> held_after cs = (0, 0) \<or> r = Loop \<and> held_after cs = (1, 1) \<and>
      Bind (port mod 65536) True \<in> set cs \<and> Listen 10 True \<in> set cs \<and>
      Out (''Server listening on port '' @ int_text port @ ''...'' @ [NL]) \<in> set cs"
    using assms(1)
    by (auto simp: server_main_def held_after_def u_short_def BACKLOG_def split: option.splits if_splits)
  have "args = [] \<longrightarrow> port = 5050"
      "\<forall>n rest. - (2 ^ 31) \<le> n \<and> n < 2 ^ 31 \<and> args = int_text n # rest \<longrightarrow> port = n"
      "port mod 65536 = port \<longleftrightarrow> 0 \<le> port \<and> port < 65536"
    using p atoi_int_text by (auto simp: DEFAULT_PORT_def intro: mod_pos_pos_trivial)
  with run have server: "r = Exit 1 \<and> held_after cs = (0, 0) \<or>
      r = Loop \<and> held_after cs = (1, 1) \<and>
      (\<exists>port. (args = [] \<longrightarrow> port = 5050) \<and>
         (\<forall>n rest. - (2 ^ 31) \<le> n \<and> n < 2 ^ 31 \<and> args = int_text n # rest \<longrightarrow> port = n) \<and>
         Bind (port mod 65536) True \<in> set cs \<and> Listen 10 True \<in> set cs \<and>
         Out (''Server listening on port '' @ int_text port @ ''...'' @ [NL]) \<in> set cs \<and>
         (port mod 65536 = port \<longleftrightarrow> 0 \<le> port \<and> port < 65536))"
    by blast
  obtain cs0 r0 where start: "client_start args' e' = Some (cs0, r0)"
    using assms(2) by (auto simp: client_program_def split: option.splits)
  have res: "r0 = Exit 1 \<and> held_after cs0 = (0, 0) \<or>
      r0 = Loop \<and> held_after cs0 = (1, 1) \<and> held_after (cs0 @ client_shutdown) = (0, 0)"
    using start
    by (auto simp: client_start_def held_after_def client_shutdown_def Let_def split: option.splits if_splits)
  have conn: "Connect ip (n mod 65536) True \<in> set cs0"
    if "r0 = Loop" "- (2 ^ 31) \<le> n" "n < 2 ^ 31" "args' = ip # int_text n # rest" for ip n rest
    using start that atoi_int_text[OF that(2,3)] by (auto simp: client_start_def u_short_def Let_def split: if_splits)
  show ?thesis
  proof (rule conjI[OF server])
    show "(ending = None \<and> code = Some 1 \<and> held_after cs' = (0, 0) \<or>
       (\<exists>t. ending = Some (Leave t) \<and> client_main net p stdin = Leave t \<and> code = Some 0 \<and> held_after cs' = (0, 0)) \<or>
       (\<exists>t. ending = Some (Waiting t) \<and> client_main net p stdin = Waiting t \<and> code = None \<and> held_after cs' = (1, 1))) \<and>
      (ending \<noteq> None \<longrightarrow> (\<forall>ip n rest. - (2 ^ 31) \<le> n \<and> n < 2 ^ 31 \<and> args' = ip # int_text n # rest \<longrightarrow>
         Connect ip (n mod 65536) True \<in> set cs'))"
    proof (cases r0)
      case (Exit k)
      then show ?thesis
        using assms(2) start res by (auto simp: client_program_def)
    next
      case Loop
      then show ?thesis
        using assms(2) start res conn client_loop_ends[of net p stdin]
        by (cases "client_main net p stdin") (auto simp: client_program_def)
    qed
  qed
qed

text \<open>A port of 70000 is announced, and 4464 is bound.\<close>

theorem startup_gives_back_witness:
  "\<exists>cs cs' t. server_main [''70000''] \<lparr>wsa_ok = True, socket_ok = True, bind_ok = True, listen_ok = True,
      valid_ip = (\<lambda>_. True), connect_ok = True, last_error = 0\<rparr> = Some (cs, Loop) \<and>
    Bind 4464 True \<in> set cs \<and> Out (''Server listening on port 70000...'' @ [NL]) \<in> set cs \<and> held_after cs = (1, 1) \<and>
    client_program [] \<lparr>wsa_ok = True, socket_ok = True, bind_ok = True, listen_ok = True,
      valid_ip = (\<lambda>_. True), connect_ok = True, last_error = 0\<rparr> (serve [] id) (conn_init, store_init) [] = Some (cs', Some (Leave t), Some 0) \<and>
    held_after cs' = (0, 0)"
proof -
  let ?e = "\<lparr>wsa_ok = True, socket_ok = True, bind_ok = True, listen_ok = True,
      valid_ip = (\<lambda>_. True), connect_ok = True, last_error = 0\<rparr>"
  have i: "int_text 70000 = ''70000''"
    by (simp add: int_text_def decimal.simps)
  have a: "atoi ''70000'' = Some 70000"
    using atoi_int_text[of 70000] by (simp add: i)
  obtain cs where cs: "server_main [''70000''] ?e = Some (cs, Loop)"
    by (simp add: server_main_def a)
  have "client_main (serve [] id) (conn_init, store_init) [] \<noteq> Waiting t" for t
    by (simp add: client_main_def client_loop.simps client_round_def read_stdin_line_def fgets_def Let_def printf_def)
  then obtain t where t: "client_main (serve [] id) (conn_init, store_init) [] = Leave t"
    using client_loop_ends[of "serve [] id" "(conn_init, store_init)" "[]"] by (cases "client_main (serve [] id) (conn_init, store_init) []") auto
  then obtain cs' where cs': "client_program [] ?e (serve [] id) (conn_init, store_init) [] = Some (cs', Some (Leave t), Some 0)"
    by (simp add: client_program_def client_start_def Let_def)
  show ?thesis
  proof (intro exI conjI, rule cs)
    show "Bind 4464 True \<in> set cs" "Out (''Server listening on port 70000...'' @ [NL]) \<in> set cs"
      using cs by (auto simp: server_main_def a i u_short_def)
    show "held_after cs = (1, 1)" "held_after cs' = (0, 0)"
      using startup_gives_back[OF cs cs'] by simp_all
  qed (rule cs')
qed

end
