(* ===== verification/Client_Lockout.thy ===== *)
theory Client_Lockout
  imports Client
begin

text \<open>
  The client (\<open>client.c\<close>) of a user who is locked out by \<open>server.c\<close>. The server answers the third
  wrong password with two lines and closes the connection; the client reads one line for each
  command it sends, so the second line is left for the next command, unless the connection is reset
  when that command is sent.
\<close>

text \<open>A log-in line that can be sent and whose name and password are no valid pair.\<close>

definition wrong_login :: "string \<times> string \<Rightarrow> bool" where
  "wrong_login up \<longleftrightarrow> (case up of (u, p) \<Rightarrow>
     is_valid_token u (MAX_KEY - 1) \<and> CHR 0x20 \<notin> set u \<and> p \<noteq> [] \<and> \<not> isspace (hd p) \<and> length p < MAX_VALUE \<and>
     nonul p \<and> NL \<notin> set p \<and> carriage_return \<notin> set p \<and> (u, p) \<notin> set VALID_USERS)"

definition login_line :: "string \<times> string \<Rightarrow> string" where
  "login_line up = (case up of (u, p) \<Rightarrow> ''AUTH '' @ u @ '' '' @ p)"

lemma login_line_sends:
  assumes "wrong_login (u, p)"
  shows "plain_line (login_line (u, p))" "login_line (u, p) \<noteq> ''HELP''" "\<not> strncmp_eq 4 (login_line (u, p)) ''QUIT''"
    and "parse_line (login_line (u, p)) = (''AUTH'', u, p)"
proof -
  have a: "is_valid_token u (MAX_KEY - 1)" "CHR 0x20 \<notin> set u" "p \<noteq> []" "\<not> isspace (hd p)" "length p < MAX_VALUE"
      "nonul p" "NL \<notin> set p" "carriage_return \<notin> set p"
    using assms by (simp_all add: wrong_login_def)
  note u = token_word[OF a(1,2)]
  show "plain_line (login_line (u, p))" "login_line (u, p) \<noteq> ''HELP''" "\<not> strncmp_eq 4 (login_line (u, p)) ''QUIT''"
    using u a(3-8)
    by (simp_all add: plain_line_def login_line_def NL_def carriage_return_def NUL_def MAX_VALUE_def numeral_eq_Suc)
  show "parse_line (login_line (u, p)) = (''AUTH'', u, p)"
    using parse_three[OF word_examples(1) u(1) a(3,4)] a(5,7) by (simp add: login_line_def NL_newline MAX_VALUE_def)
qed

lemma failed_login:
  assumes "wrong_login (u, p)" "\<not> authenticated c"
  shows "\<exists>acts. handle_line b (login_line (u, p)) c st =
      (acts, c\<lparr>auth_attempts := auth_attempts c + 1, running := (running c \<and> auth_attempts c < 2)\<rparr>, st) \<and>
    sent acts = lines (''ERR AUTH invalid_credentials'' #
      (if auth_attempts c < 2 then [] else [''ERR too_many_attempts_closing'']))"
proof -
  have nl: "Server.send_line m = m @ [NL]" if "length m \<le> 510" for m
    using that by (simp add: Server.send_line_def Server.MAX_LINE_def NL_newline)
  have "\<not> list_ex (\<lambda>(x, y). u = x \<and> p = y) VALID_USERS"
    using assms(1) by (auto simp: wrong_login_def list_ex_iff)
  then show ?thesis
    using assms(2) login_line_sends(4)[OF assms(1)]
    by (auto simp: handle_line_def handle_auth_def Let_def MAX_AUTH_ATTEMPTS_def nl)
qed

text \<open>The client gets the answer to its first two wrong log-ins.\<close>

lemma failed_round:
  assumes "wrong_login (u, p)" "\<not> authenticated c" "running c" "auth_attempts c < 2"
  shows "client_loop (serve b after) (at (login_line (u, p) # ls) ot c st) =
    client_loop (serve b after) (at ls (ot @ ''> '' @ ''ERR AUTH invalid_credentials'' @ [NL]) (c\<lparr>auth_attempts := auth_attempts c + 1\<rparr>) st)"
proof -
  have "plain_line ''ERR AUTH invalid_credentials''"
    by (simp add: plain_line_def NL_def carriage_return_def NUL_def)
  moreover obtain acts where "handle_line b (login_line (u, p)) c st = (acts, c\<lparr>auth_attempts := auth_attempts c + 1\<rparr>, st)"
      "sent acts = ''ERR AUTH invalid_credentials'' @ [NL]"
    using failed_login[OF assms(1,2), of b st] assms(3,4) by auto
  ultimately show ?thesis
    using login_line_sends(1-3)[OF assms(1)] assms(3)
    by (intro session_command) simp_all
qed

text \<open>A round by what is then on the connection.\<close>

lemma command_round:
  assumes "plain_line l" "l \<noteq> ''HELP''" "net p sock (send_line l) = (on_socket, p1)"
    and "recv_line on_socket MAX_LINE = Some (r, stream)"
  shows "client_round net \<lparr>c_in = typed (l # ls), c_out = ot, c_sock = sock, c_peer = p\<rparr> =
    (let s = \<lparr>c_in = typed ls, c_out = ot @ ''> '', c_sock = stream, c_peer = p1\<rparr> in
     case r of Disconnected \<Rightarrow> Leave (printf (''Server closed the connection.'' @ [NL]) s)
     | Violation \<Rightarrow> Leave (printf (''Connection error or server response too long.'' @ [NL]) s)
     | Got n response \<Rightarrow> (if strncmp_eq 4 l ''QUIT'' then Leave else Go) (printf (response @ [NL]) s))"
proof -
  have "line_ok MAX_LINE l"
    using assms(1) by (auto simp: plain_line_def line_ok_def MAX_LINE_def list_all_iff)
  note fgets_typed(1)[OF this, of ls] fgets_typed(2)[OF this]
  moreover have "l \<noteq> []"
    using assms(1) by (simp add: plain_line_def)
  ultimately show ?thesis
    using assms(2-4)
    by (auto simp: client_round_def printf_def read_stdin_line_def Let_def simp del: typed.simps split: recv_result.split)
qed

text \<open>A server thread that has ended neither sends nor changes anything.\<close>

lemma serve_closed: "\<not> running c \<Longrightarrow> serve b after (c, st) unread bytes = (after unread, c, st)"
  by (simp add: serve_def)

text \<open>What the client can still read of the announcement, and behind it.\<close>

definition closing_line :: string where
  "closing_line = ''ERR too_many_attempts_closing''"

definition announced :: "rcv list" where
  "announced = map Byte (closing_line @ [NL]) @ [Eof]"

lemma plain_closing: "plain_line closing_line"
  by (simp add: closing_line_def plain_line_def NL_def carriage_return_def NUL_def)

lemma recv_end:
  "recv_line (Eof # q) MAX_LINE = Some (Disconnected, q)" "recv_line (Fail # q) MAX_LINE = Some (Violation, q)"
  by (simp_all add: recv_line_def MAX_LINE_def numeral_eq_Suc)

lemma recv_cut:
  assumes "plain_line l" "k \<le> length l"
  shows "recv_line (map Byte (take k l) @ [Fail]) MAX_LINE = Some (Violation, [])"
proof -
  have "newline \<notin> set (take k l)" "length (take k l) \<le> 510"
    using assms by (auto simp: plain_line_def NL_newline dest: in_set_takeD)
  moreover from this(2) obtain m where "511 - length (take k l) = Suc m"
    by (cases "511 - length (take k l)") auto
  ultimately show ?thesis
    using recv_loop_bytes[of "take k l" 511 "[Fail]" "[]"]
    by (simp add: recv_line_server Server.recv_line_def MAX_LINE_def)
qed

definition ended :: "rcv list \<Rightarrow> bool" where
  "ended q \<longleftrightarrow> (\<exists>r. q = Eof # r \<or> q = Fail # r)"

lemma ended_after: "may_reset after \<Longrightarrow> ended q \<Longrightarrow> ended (after q)"
proof -
  assume a: "may_reset after" "ended q"
  then consider "after q = q" | k where "after q = take k q @ [Fail]"
    by (auto simp: may_reset_def)
  then show ?thesis
    using a(2) by cases (auto simp: ended_def take_Cons split: nat.splits)
qed

lemma announced_after:
  assumes "may_reset after"
  obtains rest where "recv_line (after announced) MAX_LINE = Some (Got (length closing_line) closing_line, rest)" "ended rest"
    "after announced = announced \<Longrightarrow> rest = [Eof]" "after announced \<noteq> [Fail]"
  | rest where "recv_line (after announced) MAX_LINE = Some (Violation, rest)" "after announced \<noteq> announced"
proof -
  let ?n = "length closing_line"
  have ne: "announced \<noteq> [Fail]"
    by (simp add: announced_def closing_line_def)
  consider "after announced = announced" | k where "after announced = take k announced @ [Fail]"
    using assms by (auto simp: may_reset_def)
  then show thesis
  proof cases
    case 1
    then show thesis
      using that(1)[of "[Eof]"] recv_plain[OF plain_closing, of "[Eof]"] ne by (simp add: announced_def ended_def)
  next
    case (2 k)
    show thesis
    proof (cases "k \<le> ?n")
      case True
      then have "after announced = map Byte (take k closing_line) @ [Fail]"
        using 2 by (simp add: announced_def take_map)
      then show thesis
        using that(2) recv_cut[OF plain_closing True] by (auto simp: announced_def)
    next
      case False
      then obtain j where j: "k = ?n + 1 + j"
        using less_iff_Suc_add[of ?n k] by auto
      then have q: "after announced = map Byte (closing_line @ [NL]) @ take j [Eof] @ [Fail]"
        using 2 by (simp add: announced_def)
      moreover have "ended (take j [Eof] @ [Fail])"
        by (cases j) (auto simp: ended_def)
      ultimately show thesis
        using that(1)[of "take j [Eof] @ [Fail]"] recv_plain[OF plain_closing, of "take j [Eof] @ [Fail]"]
        by (auto simp: announced_def closing_line_def take_Cons split: nat.splits)
    qed
  qed
qed

text \<open>The three ways in which it can go on after the third wrong log-in.\<close>

definition closed_ending :: "string list" where
  "closed_ending = [''> ERR too_many_attempts_closing'', ''> Server closed the connection.'', ''Disconnected.'']"

definition error_ending :: "string list" where
  "error_ending = [''> ERR too_many_attempts_closing'', ''> Connection error or server response too long.'', ''Disconnected.'']"

definition reset_ending :: "string list" where
  "reset_ending = [''> Connection error or server response too long.'', ''Disconnected.'']"

text \<open>The next two commands, sent to a server that has closed the connection behind its announcement.\<close>

lemma rounds_after_close:
  assumes "may_reset after" "\<not> running c"
    and "plain_line l4" "l4 \<noteq> ''HELP''" "\<not> strncmp_eq 4 l4 ''QUIT''" "plain_line l5" "l5 \<noteq> ''HELP''"
  shows "\<exists>s. client_loop (serve b after) \<lparr>c_in = typed (l4 # l5 # ls), c_out = ot, c_sock = announced, c_peer = (c, st)\<rparr> = Leave s \<and>
    c_peer s = (c, st) \<and>
    (c_in s = typed ls \<and> (c_out s = ot @ lines closed_ending \<or> c_out s = ot @ lines error_ending \<and> after \<noteq> id) \<or>
     c_in s = typed (l5 # ls) \<and> c_out s = ot @ lines reset_ending \<and> after \<noteq> id) \<and>
    (after announced = announced \<and> after [Eof] = [Fail] \<longrightarrow> c_out s = ot @ lines error_ending) \<and>
    (after announced = [Fail] \<longrightarrow> c_in s = typed (l5 # ls))"
  using assms(1)
proof (cases rule: announced_after)
  case (1 rest)
  note r4 = command_round[where net = "serve b after" and p = "(c, st)" and sock = announced and on_socket = "after announced" and ?p1.0 = "(c, st)" and ls = "l5 # ls" and ot = ot,
    OF assms(3,4) serve_closed[OF assms(2)] 1(1)]
  let ?o = "ot @ ''> '' @ closing_line @ [NL]"
  have loop: "client_loop (serve b after) \<lparr>c_in = typed (l4 # l5 # ls), c_out = ot, c_sock = announced, c_peer = (c, st)\<rparr> =
      client_loop (serve b after) \<lparr>c_in = typed (l5 # ls), c_out = ?o, c_sock = rest, c_peer = (c, st)\<rparr>"
    using assms(5) by (subst client_loop.simps, subst r4) (simp add: Let_def printf_def del: typed.simps)
  have ann: "announced \<noteq> [Fail]"
    by (simp add: announced_def closing_line_def)
  obtain q where "after rest = Eof # q \<or> after rest = Fail # q"
    using ended_after[OF assms(1) 1(2)] by (auto simp: ended_def)
  then show ?thesis
  proof
    assume q: "after rest = Eof # q"
    have r1: "recv_line (after rest) MAX_LINE = Some (Disconnected, q)"
      by (simp add: q recv_end)
    have never: "\<not> (after announced = announced \<and> after [Eof] = [Fail])"
      using 1(3) q by auto
    note r5 = command_round[where net = "serve b after" and p = "(c, st)" and sock = rest and on_socket = "after rest" and ?p1.0 = "(c, st)" and ls = ls and ot = ?o,
    OF assms(6,7) serve_closed[OF assms(2)] r1]
    show ?thesis
      unfolding loop using 1(4) never
      by (subst client_loop.simps, subst r5)
        (auto simp: Let_def printf_def closed_ending_def closing_line_def simp del: typed.simps)
  next
    assume q: "after rest = Fail # q"
    have r2: "recv_line (after rest) MAX_LINE = Some (Violation, q)"
      by (simp add: q recv_end)
    note r5 = command_round[where net = "serve b after" and p = "(c, st)" and sock = rest and on_socket = "after rest" and ?p1.0 = "(c, st)" and ls = ls and ot = ?o,
    OF assms(6,7) serve_closed[OF assms(2)] r2]
    have "after \<noteq> id"
      using 1(3) q by auto
    then show ?thesis
      unfolding loop using 1(4)
      by (subst client_loop.simps, subst r5)
        (simp add: Let_def printf_def error_ending_def closing_line_def del: typed.simps)
  qed
next
  case (2 rest)
  note r4 = command_round[where net = "serve b after" and p = "(c, st)" and sock = announced and on_socket = "after announced" and ?p1.0 = "(c, st)" and ls = "l5 # ls" and ot = ot,
    OF assms(3,4) serve_closed[OF assms(2)] 2(1)]
  have "after \<noteq> id"
    using 2(2) by auto
  then show ?thesis
    using 2(2)
    by (subst client_loop.simps, subst r4) (simp add: Let_def printf_def reset_ending_def del: typed.simps)
qed

lemma third_round:
  assumes "wrong_login (u, p)" "\<not> authenticated c" "running c" "auth_attempts c = 2"
  shows "client_loop (serve b after) (at (login_line (u, p) # ls) ot c st) =
    client_loop (serve b after) \<lparr>c_in = typed ls, c_out = ot @ ''> '' @ ''ERR AUTH invalid_credentials'' @ [NL],
      c_sock = announced, c_peer = (c\<lparr>auth_attempts := 3, running := False\<rparr>, st)\<rparr>"
proof -
  define c3 where "c3 = c\<lparr>auth_attempts := 3, running := False\<rparr>"
  let ?m1 = "''ERR AUTH invalid_credentials''"
  note ll = login_line_sends[OF assms(1)]
  have pl: "plain_line ?m1"
    by (simp add: plain_line_def NL_def carriage_return_def NUL_def)
  obtain acts where acts: "handle_line b (login_line (u, p)) c st = (acts, c3, st)" "sent acts = lines [?m1, closing_line]"
    using failed_login[OF assms(1,2), of b st] assms(3,4) by (auto simp: c3_def closing_line_def)
  have s: "serve b after (c, st) [] (send_line (login_line (u, p))) = (map Byte (?m1 @ [NL]) @ announced, c3, st)"
    using serve_line[OF assms(3) ll(1) acts(1)] acts(2) by (simp add: c3_def announced_def)
  note r = command_round[where net = "serve b after" and p = "(c, st)" and sock = "[]" and ls = ls and ot = ot,
    OF ll(1,2) s recv_plain[OF pl, of announced]]
  show ?thesis
    unfolding c3_def[symmetric] using ll(3)
    by (subst client_loop.simps, subst r) (simp add: Let_def printf_def del: typed.simps)
qed

text \<open>
  C35: Locked out. After three wrong log-ins the server has closed the connection behind its
  announcement, but the client shows the usual error only. What the user sees next, at any command other
  than \<open>HELP\<close> and those that begin with \<open>QUIT\<close>, depends on whether the system still hands over what was
  waiting on a closed connection or resets it. If it hands it over, the announcement appears as the
  answer to that next command (a correct log-in, say), and the command after it ends the client with
  the message of a closed connection, or, when the reset comes in between, of a connection error; if it
  resets it at once, the next command ends the client with a connection error and the announcement is
  never shown. None of these commands reaches the store, and the lines typed after them are left unread.
\<close>

theorem lockout_shifts_answers:
  assumes "list_all wrong_login [a1, a2, a3]" "may_reset after"
    and "plain_line l4" "l4 \<noteq> ''HELP''" "\<not> strncmp_eq 4 l4 ''QUIT''" "plain_line l5" "l5 \<noteq> ''HELP''"
    and shown: "shown = lines [''Connected. Type HELP for available commands.'', ''> ERR AUTH invalid_credentials'',
        ''> ERR AUTH invalid_credentials'', ''> ERR AUTH invalid_credentials'']"
  shows "\<exists>s c1. client_main (serve b after) (conn_init, st)
        (typed (login_line a1 # login_line a2 # login_line a3 # l4 # l5 # ls)) = Leave s \<and>
      c_peer s = (c1, st) \<and> \<not> running c1 \<and> \<not> authenticated c1 \<and>
      (c_in s = typed ls \<and> (c_out s = shown @ lines closed_ending \<or> c_out s = shown @ lines error_ending \<and> after \<noteq> id) \<or>
       c_in s = typed (l5 # ls) \<and> c_out s = shown @ lines reset_ending \<and> after \<noteq> id) \<and>
      (after announced = announced \<and> after [Eof] = [Fail] \<longrightarrow> c_out s = shown @ lines error_ending) \<and>
      (after announced = [Fail] \<longrightarrow> c_in s = typed (l5 # ls))"
proof -
  define c0 where "c0 = conn_init"
  have c0: "\<not> authenticated c0" "running c0" "auth_attempts c0 = 0"
    by (simp_all add: c0_def conn_init_def)
  obtain u1 p1 u2 p2 u3 p3 where a: "a1 = (u1, p1)" "a2 = (u2, p2)" "a3 = (u3, p3)"
    by fastforce
  have w: "wrong_login (u1, p1)" "wrong_login (u2, p2)" "wrong_login (u3, p3)"
    using assms(1) by (simp_all add: a)
  let ?no = "''> '' @ ''ERR AUTH invalid_credentials'' @ [NL]"
  let ?o = "((''Connected. Type HELP for available commands.'' @ [NL]) @ ?no) @ ?no"
  define c1 where "c1 = c0\<lparr>auth_attempts := 1\<rparr>"
  define c2 where "c2 = c0\<lparr>auth_attempts := 2\<rparr>"
  define c3 where "c3 = c2\<lparr>auth_attempts := 3, running := False\<rparr>"
  have c: "c0\<lparr>auth_attempts := auth_attempts c0 + 1\<rparr> = c1" "c1\<lparr>auth_attempts := auth_attempts c1 + 1\<rparr> = c2"
      "\<not> authenticated c1" "running c1" "auth_attempts c1 < 2" "\<not> authenticated c2" "running c2" "auth_attempts c2 = 2"
      "\<not> running c3" "\<not> authenticated c3"
    using c0 by (simp_all add: c1_def c2_def c3_def)
  have o: "?o @ ?no = shown"
    by (simp add: shown)
  have "client_main (serve b after) (c0, st) (typed (login_line a1 # login_line a2 # login_line a3 # l4 # l5 # ls)) =
      client_loop (serve b after) (at (login_line (u3, p3) # l4 # l5 # ls) ?o c2 st)"
    unfolding client_main_def a
    by (subst failed_round[OF w(1) c0(1,2)], simp add: c0, unfold c(1), subst failed_round[OF w(2) c(3-5)], unfold c(2), rule refl)
  also have "\<dots> = client_loop (serve b after)
      \<lparr>c_in = typed (l4 # l5 # ls), c_out = shown, c_sock = announced, c_peer = (c3, st)\<rparr>"
    unfolding third_round[OF w(3) c(6-8)] o c3_def ..
  finally show ?thesis
    using rounds_after_close[OF assms(2) c(9) assms(3-7), of b ls shown st] c(10) unfolding c0_def[symmetric]
    by (metis (no_types, lifting) c(9))
qed

theorem lockout_shifts_answers_witness:
  "\<exists>s t c1 c2. client_main (serve [] id) (conn_init, store_init) (typed [''AUTH alice a'', ''AUTH alice b'', ''AUTH bob c'',
        ''AUTH alice alicepass'', ''LIST'']) = Leave s \<and>
      c_out s = lines [''Connected. Type HELP for available commands.'', ''> ERR AUTH invalid_credentials'',
        ''> ERR AUTH invalid_credentials'', ''> ERR AUTH invalid_credentials'', ''> ERR too_many_attempts_closing'',
        ''> Server closed the connection.'', ''Disconnected.''] \<and> c_peer s = (c1, store_init) \<and>
      client_main (serve [] (\<lambda>q. [Fail])) (conn_init, store_init) (typed [''AUTH alice a'', ''AUTH alice b'', ''AUTH bob c'',
        ''AUTH alice alicepass'', ''LIST'']) = Leave t \<and>
      c_in t = typed [''LIST''] \<and> c_peer t = (c2, store_init)"
proof -
  have w: "list_all wrong_login [(''alice'', ''a''), (''alice'', ''b''), (''bob'', ''c'')]"
    by (simp add: wrong_login_def is_valid_token_def MAX_KEY_def MAX_VALUE_def isspace_def nonul_def NUL_def NL_def
        carriage_return_def VALID_USERS_def)
  have p: "plain_line ''AUTH alice alicepass''" "plain_line ''LIST''" "\<not> strncmp_eq 4 ''AUTH alice alicepass'' ''QUIT''"
    "''AUTH alice alicepass'' \<noteq> ''HELP''" "''LIST'' \<noteq> ''HELP''"
    by (simp_all add: plain_line_def NL_def carriage_return_def NUL_def numeral_eq_Suc)
  have m: "may_reset id" "may_reset (\<lambda>q. [Fail])"
    by (auto simp: may_reset_def intro: exI[of _ 0])
  note l = lockout_shifts_answers[OF w _ p(1,4,3,2,5) refl, of _ "[]" store_init "[]"]
  obtain s c1 where "client_main (serve [] id) (conn_init, store_init) (typed [''AUTH alice a'', ''AUTH alice b'', ''AUTH bob c'',
        ''AUTH alice alicepass'', ''LIST'']) = Leave s" "c_peer s = (c1, store_init)"
      "c_out s = lines [''Connected. Type HELP for available commands.'', ''> ERR AUTH invalid_credentials'',
        ''> ERR AUTH invalid_credentials'', ''> ERR AUTH invalid_credentials''] @ lines closed_ending"
    using l[OF m(1)] by (simp add: login_line_def del: typed.simps concat.simps list.map) blast
  moreover obtain t c2 where "client_main (serve [] (\<lambda>q. [Fail])) (conn_init, store_init) (typed [''AUTH alice a'', ''AUTH alice b'', ''AUTH bob c'',
        ''AUTH alice alicepass'', ''LIST'']) = Leave t" "c_peer t = (c2, store_init)" "c_in t = typed [''LIST'']"
    using l[OF m(2)] by (simp add: login_line_def del: typed.simps concat.simps list.map) blast
  ultimately show ?thesis
    by (intro exI[of _ s] exI[of _ t] exI[of _ c1] exI[of _ c2]) (simp add: closed_ending_def del: typed.simps)
qed

end
