(* ===== verification/Scheduler.thy ===== *)
theory Scheduler
  imports Transitions
begin

text \<open>
  The round-robin simulation of \<open>scheduler.c\<close>: the dispatcher (\<open>run_round_robin\<close>, on the main
  thread) and one \<open>process_thread\<close> per process share the PCB array under \<open>pcb_lock\<close> and
  hand each other the turn with the semaphores \<open>turn_sem[i]\<close> and \<open>done_sem\<close>. A step is one
  call or one statement of one thread; a thread blocked on the mutex or a semaphore has no step.
  The number of processes and their burst times are arbitrary (four in the program).
\<close>

section \<open>The code\<close>

definition TIME_QUANTUM :: int where "TIME_QUANTUM = 2"

datatype ProcessState = READY | RUNNING | DONE

record PCB =
  pid :: int
  burst_time :: int
  remaining_time :: int
  pstate :: ProcessState

datatype tid = Dispatcher | Process nat

text \<open>What the threads print: the slice a process runs, and its end.\<close>

datatype shown = Ran int int int | Finished int

text \<open>Program counters, with the locals alive at them.\<close>

datatype dpc = D_While nat | D_For nat nat | D_Lock nat nat | D_Read nat nat
  | D_Unlock nat nat ProcessState | D_If nat nat ProcessState | D_Wait nat nat | D_Return

datatype tpc = T_Wait | T_Lock1 | T_Crit1 | T_Unlock1 int int | T_Print int int | T_Sleep int
  | T_Lock2 int | T_Crit2 int | T_Unlock2 bool | T_Post bool | T_Exit

text \<open>
  One step of \<open>run_round_robin\<close> on the PCB array, the turn semaphores, \<open>done_sem\<close> and the
  owner of the mutex. The arguments of the program counters are \<open>finished\<close>, \<open>i\<close> and \<open>st\<close>.
\<close>

fun dispatcher :: "dpc \<Rightarrow> PCB list \<Rightarrow> nat list \<Rightarrow> nat \<Rightarrow> tid option \<Rightarrow>
    (dpc \<times> nat list \<times> nat \<times> tid option) option" where
  "dispatcher (D_While finished) ps turn d l =
     Some (if finished < length ps then D_For 0 0 else D_Return, turn, d, l)"
| "dispatcher (D_For finished i) ps turn d l =
     Some (if i < length ps then D_Lock finished i else D_While finished, turn, d, l)"
| "dispatcher (D_Lock finished i) ps turn d l =
     (if l = None then Some (D_Read finished i, turn, d, Some Dispatcher) else None)"
| "dispatcher (D_Read finished i) ps turn d l = Some (D_Unlock finished i (pstate (ps ! i)), turn, d, l)"
| "dispatcher (D_Unlock finished i st) ps turn d l = Some (D_If finished i st, turn, d, None)"
| "dispatcher (D_If finished i st) ps turn d l =
     (if st = DONE then Some (D_For (finished + 1) (i + 1), turn, d, l)
      else Some (D_Wait finished i, turn[i := turn ! i + 1], d, l))"
| "dispatcher (D_Wait finished i) ps turn d l =
     (if 0 < d then Some (D_For finished (i + 1), turn, d - 1, l) else None)"
| "dispatcher D_Return ps turn d l = None"

text \<open>
  One step of \<open>process_thread\<close> number \<open>i\<close> on its PCB, its turn semaphore, \<open>done_sem\<close> and
  the owner of the mutex, with what it prints. The arguments of the program counters are
  \<open>run_time\<close>, \<open>remaining_before\<close> and \<open>just_finished\<close>.
\<close>

fun process_thread :: "nat \<Rightarrow> tpc \<Rightarrow> PCB \<Rightarrow> nat \<Rightarrow> nat \<Rightarrow> tid option \<Rightarrow>
    (tpc \<times> PCB \<times> nat \<times> nat \<times> tid option \<times> shown list) option" where
  "process_thread i T_Wait p k d l = (if 0 < k then Some (T_Lock1, p, k - 1, d, l, []) else None)"
| "process_thread i T_Lock1 p k d l = (if l = None then Some (T_Crit1, p, k, d, Some (Process i), []) else None)"
| "process_thread i T_Crit1 p k d l =
     Some (T_Unlock1 (if remaining_time p < TIME_QUANTUM then remaining_time p else TIME_QUANTUM) (remaining_time p),
       p\<lparr>pstate := RUNNING\<rparr>, k, d, l, [])"
| "process_thread i (T_Unlock1 run before) p k d l = Some (T_Print run before, p, k, d, None, [])"
| "process_thread i (T_Print run before) p k d l = Some (T_Sleep run, p, k, d, l, [Ran (pid p) run before])"
| "process_thread i (T_Sleep run) p k d l = Some (T_Lock2 run, p, k, d, l, [])"
| "process_thread i (T_Lock2 run) p k d l =
     (if l = None then Some (T_Crit2 run, p, k, d, Some (Process i), []) else None)"
| "process_thread i (T_Crit2 run) p k d l =
     (let rest = remaining_time p - run in
      if rest \<le> 0
      then Some (T_Unlock2 True, p\<lparr>remaining_time := rest, pstate := DONE\<rparr>, k, d, l, [Finished (pid p)])
      else Some (T_Unlock2 False, p\<lparr>remaining_time := rest, pstate := READY\<rparr>, k, d, l, []))"
| "process_thread i (T_Unlock2 just_finished) p k d l = Some (T_Post just_finished, p, k, d, None, [])"
| "process_thread i (T_Post just_finished) p k d l =
     Some (if just_finished then T_Exit else T_Wait, p, k, d + 1, l, [])"
| "process_thread i T_Exit p k d l = None"

record sched =
  procs :: "PCB list"
  turn_sem :: "nat list"
  done_sem :: nat
  pcb_lock :: "tid option"
  disp :: dpc
  tpcs :: "tpc list"
  out :: "shown list"

text \<open>\<open>main\<close> initialises the PCBs and semaphores and starts the threads.\<close>

definition sched_start :: "int list \<Rightarrow> sched" where
  "sched_start bursts = \<lparr>
     procs = map (\<lambda>i. \<lparr>pid = int i + 1, burst_time = bursts ! i, remaining_time = bursts ! i, pstate = READY\<rparr>)
       [0..<length bursts],
     turn_sem = replicate (length bursts) 0, done_sem = 0, pcb_lock = None,
     disp = D_While 0, tpcs = replicate (length bursts) T_Wait, out = []\<rparr>"

definition burst_times :: "int list" where "burst_times = [6, 4, 8, 2]"

definition dispatcher_step :: "sched \<Rightarrow> sched option" where
  "dispatcher_step s =
     map_option (\<lambda>(c, turn, d, l). s\<lparr>disp := c, turn_sem := turn, done_sem := d, pcb_lock := l\<rparr>)
       (dispatcher (disp s) (procs s) (turn_sem s) (done_sem s) (pcb_lock s))"

definition process_step :: "nat \<Rightarrow> sched \<Rightarrow> sched option" where
  "process_step i s =
     map_option (\<lambda>(c, p, k, d, l, ev). s\<lparr>procs := (procs s)[i := p], turn_sem := (turn_sem s)[i := k],
         done_sem := d, pcb_lock := l, tpcs := (tpcs s)[i := c], out := out s @ ev\<rparr>)
       (process_thread i (tpcs s ! i) (procs s ! i) (turn_sem s ! i) (done_sem s) (pcb_lock s))"

inductive sched_step :: "sched \<Rightarrow> sched \<Rightarrow> bool" where
  by_dispatcher: "dispatcher_step s = Some t \<Longrightarrow> sched_step s t"
| by_process: "i < length (tpcs s) \<Longrightarrow> process_step i s = Some t \<Longrightarrow> sched_step s t"

inductive_cases sched_stepE: "sched_step s t"

text \<open>The dispatcher has returned and every thread can be joined.\<close>

definition sched_finished :: "sched \<Rightarrow> bool" where
  "sched_finished s \<longleftrightarrow> disp s = D_Return \<and> (\<forall>c\<in>set (tpcs s). c = T_Exit)"

section \<open>The schedule\<close>

text \<open>
  What round robin means, without threads: pass over the processes in order, give each one with
  time left a slice of at most one quantum, until no time is left.
\<close>

definition slice :: "int \<Rightarrow> int" where
  "slice r = (if r \<le> 0 then 0 else min r TIME_QUANTUM)"

definition shown_slice :: "nat \<Rightarrow> int \<Rightarrow> shown list" where
  "shown_slice i r = (if r \<le> 0 then [] else
     Ran (int i + 1) (slice r) r # (if r \<le> TIME_QUANTUM then [Finished (int i + 1)] else []))"

fun pass :: "nat \<Rightarrow> int list \<Rightarrow> shown list" where
  "pass i [] = []"
| "pass i (r # rs) = shown_slice i r @ pass (Suc i) rs"

definition leave :: "int \<Rightarrow> int" where
  "leave r = r - slice r"

lemma leave_simps [simp]: "r \<le> 0 \<Longrightarrow> leave r = r" "0 < r \<Longrightarrow> leave r < r" "0 \<le> r \<Longrightarrow> 0 \<le> leave r"
  by (auto simp: leave_def slice_def TIME_QUANTUM_def)

lemma nat_leave: "nat (leave r) \<le> nat r" "0 < r \<Longrightarrow> nat (leave r) < nat r"
  by (auto simp: leave_def slice_def TIME_QUANTUM_def)

lemma leave_smaller:
  "\<not> list_all (\<lambda>r. r \<le> 0) rs \<Longrightarrow> sum_list (map (nat \<circ> leave) rs) < sum_list (map nat rs)"
proof (induction rs)
  case (Cons r rs)
  have "sum_list (map (nat \<circ> leave) rs) \<le> sum_list (map nat rs)"
    by (rule sum_list_mono) (simp add: nat_leave)
  then show ?case
    using Cons nat_leave(2)[of r] by (cases "r \<le> 0") (auto simp: comp_def intro: add_less_le_mono)
qed simp

function round_robin :: "int list \<Rightarrow> shown list" where
  "round_robin rs =
     (if list_all (\<lambda>r. r \<le> 0) rs then [] else pass 0 rs @ round_robin (map leave rs))"
  by pat_completeness auto
termination
  by (relation "measure (\<lambda>rs. sum_list (map nat rs))") (simp_all add: leave_smaller)

declare round_robin.simps [simp del]

section \<open>What is left of a run\<close>

text \<open>
  The steps that are left, each with what it prints: five of the dispatcher for every process it
  looks at, and eleven more (ten of the process's thread and the dispatcher's wake-up) for one that
  gets a slice.
\<close>

definition turn_steps :: "nat \<Rightarrow> int \<Rightarrow> shown list list" where
  "turn_steps i r = (if r \<le> 0 then [] else
     [[], [], [], [], [Ran (int i + 1) (slice r) r], [], [],
      if r \<le> TIME_QUANTUM then [Finished (int i + 1)] else [], [], [], []])"

fun pass_steps :: "nat \<Rightarrow> int list \<Rightarrow> shown list list" where
  "pass_steps i [] = []"
| "pass_steps i (r # rs) = replicate 5 [] @ turn_steps i r @ pass_steps (Suc i) rs"

function rr_steps :: "int list \<Rightarrow> shown list list" where
  "rr_steps rs =
     pass_steps 0 rs @ [[], []] @ (if list_all (\<lambda>r. r \<le> 0) rs then [] else rr_steps (map leave rs))"
  by pat_completeness auto
termination
  by (relation "measure (\<lambda>rs. sum_list (map nat rs))") (simp_all add: leave_smaller)

declare rr_steps.simps [simp del]

lemma concat_turn_steps: "concat (turn_steps i r) = shown_slice i r"
  by (simp add: turn_steps_def shown_slice_def)

lemma concat_pass_steps: "concat (pass_steps i rs) = pass i rs"
  by (induction i rs rule: pass.induct) (simp_all add: concat_turn_steps numeral_eq_Suc)

lemma pass_none: "list_all (\<lambda>r. r \<le> 0) rs \<Longrightarrow> pass i rs = []"
  by (induction i rs rule: pass.induct) (simp_all add: shown_slice_def)

lemma concat_rr_steps: "concat (rr_steps rs) = round_robin rs"
  by (induction rs rule: rr_steps.induct)
    (subst rr_steps.simps, subst round_robin.simps, simp add: concat_pass_steps pass_none)

text \<open>From the head of the \<open>for\<close> loop on, with the remaining times \<open>rs\<close>.\<close>

definition loop_steps :: "nat \<Rightarrow> nat \<Rightarrow> int list \<Rightarrow> shown list list" where
  "loop_steps finished i rs =
     pass_steps i (drop i rs) @ [[], []] @
       (if finished = i \<and> list_all (\<lambda>r. r \<le> 0) (drop i rs) then []
        else rr_steps (take i rs @ map leave (drop i rs)))"

lemma loop_steps_0: "loop_steps 0 0 rs = rr_steps rs"
  by (subst rr_steps.simps) (simp add: loop_steps_def)

lemma loop_steps_end:
  "loop_steps finished (length rs) rs = [[], []] @ (if finished = length rs then [] else rr_steps rs)"
  by (simp add: loop_steps_def)

lemma loop_steps_done:
  assumes "i < length rs" "rs ! i \<le> 0"
  shows "loop_steps finished i rs = [[], [], [], [], []] @ loop_steps (Suc finished) (Suc i) rs"
  using assms
  by (simp add: loop_steps_def Cons_nth_drop_Suc[OF assms(1), symmetric] turn_steps_def take_Suc_conv_app_nth numeral_eq_Suc)

lemma loop_steps_turn:
  assumes "i < length rs" "0 < rs ! i" "finished \<le> i"
  shows "loop_steps finished i rs =
    [[], [], [], [], []] @ turn_steps i (rs ! i) @ loop_steps finished (Suc i) (rs[i := leave (rs ! i)])"
  using assms
  by (simp add: loop_steps_def Cons_nth_drop_Suc[OF assms(1), symmetric] take_Suc_conv_app_nth numeral_eq_Suc)

section \<open>The turn of one process\<close>

abbreviation fresh :: "PCB \<Rightarrow> bool" where
  "fresh p \<equiv> pstate p = READY \<and> 0 < remaining_time p"

abbreviation served :: "PCB \<Rightarrow> bool \<Rightarrow> bool" where
  "served p fin \<equiv> 0 \<le> remaining_time p \<and> fin = (remaining_time p = 0) \<and> pstate p = (if fin then DONE else READY)"

abbreviation runs :: "PCB \<Rightarrow> int \<Rightarrow> bool" where
  "runs p run \<equiv> pstate p = RUNNING \<and> 0 < remaining_time p \<and> run = slice (remaining_time p)"

text \<open>A process the dispatcher is not waiting for is blocked on its semaphore or has exited.\<close>

definition idle :: "tpc \<Rightarrow> PCB \<Rightarrow> nat \<Rightarrow> bool" where
  "idle c p k \<longleftrightarrow> k = 0 \<and> (c = T_Wait \<and> fresh p \<or> c = T_Exit \<and> served p True)"

text \<open>The states of the process the dispatcher is waiting for.\<close>

fun turn_ok :: "nat \<Rightarrow> tpc \<Rightarrow> PCB \<Rightarrow> nat \<Rightarrow> nat \<Rightarrow> tid option \<Rightarrow> bool" where
  "turn_ok i T_Wait p k d l \<longleftrightarrow> fresh p \<and> l = None \<and> (k = 1 \<and> d = 0 \<or> k = 0 \<and> d = 1)"
| "turn_ok i T_Lock1 p k d l \<longleftrightarrow> fresh p \<and> l = None \<and> k = 0 \<and> d = 0"
| "turn_ok i T_Crit1 p k d l \<longleftrightarrow> fresh p \<and> l = Some (Process i) \<and> k = 0 \<and> d = 0"
| "turn_ok i (T_Unlock1 run before) p k d l \<longleftrightarrow>
     runs p run \<and> before = remaining_time p \<and> l = Some (Process i) \<and> k = 0 \<and> d = 0"
| "turn_ok i (T_Print run before) p k d l \<longleftrightarrow> runs p run \<and> before = remaining_time p \<and> l = None \<and> k = 0 \<and> d = 0"
| "turn_ok i (T_Sleep run) p k d l \<longleftrightarrow> runs p run \<and> l = None \<and> k = 0 \<and> d = 0"
| "turn_ok i (T_Lock2 run) p k d l \<longleftrightarrow> runs p run \<and> l = None \<and> k = 0 \<and> d = 0"
| "turn_ok i (T_Crit2 run) p k d l \<longleftrightarrow> runs p run \<and> l = Some (Process i) \<and> k = 0 \<and> d = 0"
| "turn_ok i (T_Unlock2 fin) p k d l \<longleftrightarrow> served p fin \<and> l = Some (Process i) \<and> k = 0 \<and> d = 0"
| "turn_ok i (T_Post fin) p k d l \<longleftrightarrow> served p fin \<and> l = None \<and> k = 0 \<and> d = 0"
| "turn_ok i T_Exit p k d l \<longleftrightarrow> served p True \<and> l = None \<and> k = 0 \<and> d = 1"

text \<open>The steps left of the turn, and the time left after it.\<close>

fun turn_left :: "nat \<Rightarrow> tpc \<Rightarrow> int \<Rightarrow> nat \<Rightarrow> shown list list" where
  "turn_left i T_Wait r d = (if d = 0 then turn_steps i r else [[]])"
| "turn_left i T_Lock1 r d = drop 1 (turn_steps i r)"
| "turn_left i T_Crit1 r d = drop 2 (turn_steps i r)"
| "turn_left i (T_Unlock1 run before) r d = drop 3 (turn_steps i r)"
| "turn_left i (T_Print run before) r d = drop 4 (turn_steps i r)"
| "turn_left i (T_Sleep run) r d = drop 5 (turn_steps i r)"
| "turn_left i (T_Lock2 run) r d = drop 6 (turn_steps i r)"
| "turn_left i (T_Crit2 run) r d = drop 7 (turn_steps i r)"
| "turn_left i (T_Unlock2 fin) r d = [[], [], []]"
| "turn_left i (T_Post fin) r d = [[], []]"
| "turn_left i T_Exit r d = [[]]"

fun after_turn :: "tpc \<Rightarrow> int \<Rightarrow> nat \<Rightarrow> int" where
  "after_turn T_Wait r d = (if d = 0 then leave r else r)"
| "after_turn (T_Unlock2 fin) r d = r"
| "after_turn (T_Post fin) r d = r"
| "after_turn T_Exit r d = r"
| "after_turn c r d = leave r"

lemma idle_blocked: "idle c p k \<Longrightarrow> process_thread i c p k d l = None"
  by (auto simp: idle_def)

lemma turn_blocked: "turn_ok i c p k d l \<Longrightarrow> 0 < d \<Longrightarrow> process_thread i c p k d l = None"
  by (cases c) auto

lemma turn_progress: "turn_ok i c p k 0 l \<Longrightarrow> process_thread i c p k 0 l \<noteq> None"
  by (cases c) (auto simp: Let_def)

lemma turn_over:
  "turn_ok i c p k d l \<Longrightarrow> 0 < d \<Longrightarrow>
     idle c p k \<and> d = 1 \<and> l = None \<and> turn_left i c r d = [[]] \<and> after_turn c r d = r"
  by (cases c) (auto simp: idle_def)

lemma turn_starts: "idle c p 0 \<Longrightarrow> pstate p \<noteq> DONE \<Longrightarrow>
    turn_ok i c p 1 0 None \<and> 0 < remaining_time p \<and> turn_left i c r 0 = turn_steps i r \<and> after_turn c r 0 = leave r"
  by (auto simp: idle_def)

lemma turn_step:
  assumes "process_thread i c p k d l = Some (c', p', k', d', l', ev)" "turn_ok i c p k d l" "pid p = int i + 1"
  shows "turn_ok i c' p' k' d' l' \<and> pid p' = pid p \<and>
    turn_left i c (remaining_time p) d = ev # turn_left i c' (remaining_time p') d' \<and>
    after_turn c (remaining_time p) d = after_turn c' (remaining_time p') d'"
  using assms
  by (cases c)
    (auto simp: turn_steps_def leave_def slice_def TIME_QUANTUM_def numeral_eq_Suc Let_def split: if_splits)

section \<open>The invariant\<close>

text \<open>The process the dispatcher waits for.\<close>

fun waited :: "dpc \<Rightarrow> nat option" where
  "waited (D_Wait finished i) = Some i"
| "waited c = None"

text \<open>
  The dispatcher's locals, the mutex and \<open>done_sem\<close> at its program counters: outside the wait no
  slice is being reported, and \<open>finished\<close> reaches the loop index only when all processes before
  it are \<open>DONE\<close>.
\<close>

definition counted :: "nat \<Rightarrow> nat \<Rightarrow> PCB list \<Rightarrow> bool" where
  "counted finished i ps \<longleftrightarrow> finished \<le> i \<and> i \<le> length ps \<and>
     (finished = i \<longrightarrow> (\<forall>j < i. pstate (ps ! j) = DONE))"

fun disp_ok :: "dpc \<Rightarrow> PCB list \<Rightarrow> nat \<Rightarrow> tid option \<Rightarrow> bool" where
  "disp_ok (D_While finished) ps d l \<longleftrightarrow> d = 0 \<and> l = None \<and> finished \<le> length ps \<and>
     (finished = length ps \<longrightarrow> counted finished finished ps)"
| "disp_ok (D_For finished i) ps d l \<longleftrightarrow> d = 0 \<and> l = None \<and> counted finished i ps"
| "disp_ok (D_Lock finished i) ps d l \<longleftrightarrow> d = 0 \<and> l = None \<and> counted finished i ps \<and> i < length ps"
| "disp_ok (D_Read finished i) ps d l \<longleftrightarrow> d = 0 \<and> l = Some Dispatcher \<and> counted finished i ps \<and> i < length ps"
| "disp_ok (D_Unlock finished i st) ps d l \<longleftrightarrow>
     d = 0 \<and> l = Some Dispatcher \<and> counted finished i ps \<and> i < length ps \<and> st = pstate (ps ! i)"
| "disp_ok (D_If finished i st) ps d l \<longleftrightarrow>
     d = 0 \<and> l = None \<and> counted finished i ps \<and> i < length ps \<and> st = pstate (ps ! i)"
| "disp_ok (D_Wait finished i) ps d l \<longleftrightarrow> counted finished i ps \<and> i < length ps"
| "disp_ok D_Return ps d l \<longleftrightarrow> d = 0 \<and> l = None \<and> counted (length ps) (length ps) ps"

definition thread_ok :: "nat \<Rightarrow> sched \<Rightarrow> bool" where
  "thread_ok j s \<longleftrightarrow> pid (procs s ! j) = int j + 1 \<and>
     (if waited (disp s) = Some j then turn_ok j (tpcs s ! j) (procs s ! j) (turn_sem s ! j) (done_sem s) (pcb_lock s)
      else idle (tpcs s ! j) (procs s ! j) (turn_sem s ! j))"

definition sched_inv :: "sched \<Rightarrow> bool" where
  "sched_inv s \<longleftrightarrow> length (turn_sem s) = length (procs s) \<and> length (tpcs s) = length (procs s) \<and>
     disp_ok (disp s) (procs s) (done_sem s) (pcb_lock s) \<and> (\<forall>j < length (procs s). thread_ok j s)"

definition steps_left :: "sched \<Rightarrow> shown list list" where
  "steps_left s =
     (let rs = map remaining_time (procs s) in
      case disp s of
        D_While finished \<Rightarrow> [] # (if finished < length rs then rr_steps rs else [])
      | D_For finished i \<Rightarrow> loop_steps finished i rs
      | D_Lock finished i \<Rightarrow> drop 1 (loop_steps finished i rs)
      | D_Read finished i \<Rightarrow> drop 2 (loop_steps finished i rs)
      | D_Unlock finished i st \<Rightarrow> drop 3 (loop_steps finished i rs)
      | D_If finished i st \<Rightarrow> drop 4 (loop_steps finished i rs)
      | D_Wait finished i \<Rightarrow> turn_left i (tpcs s ! i) (rs ! i) (done_sem s) @
          loop_steps finished (Suc i) (rs[i := after_turn (tpcs s ! i) (rs ! i) (done_sem s)])
      | D_Return \<Rightarrow> [])"

lemma loop_steps_next:
  assumes "i < length rs" "finished \<le> i"
  shows "\<exists>xs. loop_steps finished i rs = [[], [], [], [], []] @ xs"
  using assms loop_steps_done[of i rs finished] loop_steps_turn[of i rs finished]
  by (cases "rs ! i \<le> 0") auto

text \<open>A step of the dispatcher.\<close>

lemma dispatcher_inv:
  assumes "sched_inv s" "dispatcher_step s = Some t"
  shows "sched_inv t \<and> out t = out s \<and> steps_left s = [] # steps_left t"
proof -
  let ?n = "length (procs s)" and ?rs = "map remaining_time (procs s)"
  have len: "length (turn_sem s) = ?n" "length (tpcs s) = ?n"
    and ok: "disp_ok (disp s) (procs s) (done_sem s) (pcb_lock s)"
    and th: "\<And>j. j < ?n \<Longrightarrow> thread_ok j s"
    using assms(1) by (auto simp: sched_inv_def)
  show ?thesis
  proof (cases "disp s")
    case (D_While f)
    then show ?thesis
      using assms(2) len ok th
      by (auto simp: dispatcher_step_def sched_inv_def steps_left_def thread_ok_def counted_def loop_steps_0 split: if_splits)
  next
    case (D_For f i)
    then show ?thesis
      using assms(2) len ok th loop_steps_next[of i ?rs f] loop_steps_end[of f ?rs]
      by (auto simp: dispatcher_step_def sched_inv_def steps_left_def thread_ok_def counted_def Let_def split: if_splits)
  next
    case (D_Lock f i)
    then show ?thesis
      using assms(2) len ok th loop_steps_next[of i ?rs f]
      by (auto simp: dispatcher_step_def sched_inv_def steps_left_def thread_ok_def counted_def Let_def numeral_eq_Suc)
  next
    case (D_Read f i)
    then show ?thesis
      using assms(2) len ok th loop_steps_next[of i ?rs f]
      by (auto simp: dispatcher_step_def sched_inv_def steps_left_def thread_ok_def counted_def Let_def numeral_eq_Suc)
  next
    case (D_Unlock f i st)
    then show ?thesis
      using assms(2) len ok th loop_steps_next[of i ?rs f]
      by (auto simp: dispatcher_step_def sched_inv_def steps_left_def thread_ok_def counted_def Let_def numeral_eq_Suc)
  next
    case (D_If f i st)
    have i: "i < ?n" "st = pstate (procs s ! i)" "f \<le> i" and id: "idle (tpcs s ! i) (procs s ! i) 0" "turn_sem s ! i = 0"
      using ok th[of i] D_If by (auto simp: thread_ok_def counted_def idle_def)
    show ?thesis
    proof (cases "st = DONE")
      case True
      then have "?rs ! i \<le> 0"
        using id i by (auto simp: idle_def)
      then show ?thesis
        using assms(2) len ok th D_If True i loop_steps_done[of i ?rs f]
        by (auto simp: dispatcher_step_def sched_inv_def steps_left_def thread_ok_def counted_def Let_def
            numeral_eq_Suc less_Suc_eq)
    next
      case False
      note st = turn_starts[OF id(1) False[unfolded i(2)]]
      then have "loop_steps f i ?rs = [[], [], [], [], []] @ turn_steps i (?rs ! i) @
          loop_steps f (Suc i) (?rs[i := leave (?rs ! i)])"
        using i by (intro loop_steps_turn) auto
      then show ?thesis
        using assms(2) len ok th D_If False i st id
        by (auto simp: dispatcher_step_def sched_inv_def steps_left_def thread_ok_def Let_def numeral_eq_Suc
            nth_list_update)
    qed
  next
    case (D_Wait f i)
    then have i: "i < ?n" "0 < done_sem s" "turn_ok i (tpcs s ! i) (procs s ! i) (turn_sem s ! i) (done_sem s) (pcb_lock s)"
      using assms(2) ok th[of i] by (auto simp: dispatcher_step_def thread_ok_def split: if_splits)
    note ov = turn_over[OF i(3,2), of "remaining_time (procs s ! i)"]
    have "?rs[i := remaining_time (procs s ! i)] = ?rs"
      using list_update_id[of ?rs i] i by simp
    moreover have "idle (tpcs s ! j) (procs s ! j) (turn_sem s ! j) \<and> pid (procs s ! j) = int j + 1" if "j < ?n" for j
      using th[OF that] D_Wait ov by (cases "i = j") (auto simp: thread_ok_def)
    ultimately show ?thesis
      using assms(2) len ok D_Wait i ov
      by (auto simp: dispatcher_step_def sched_inv_def steps_left_def thread_ok_def counted_def Let_def)
  next
    case D_Return
    then show ?thesis
      using assms(2) by (simp add: dispatcher_step_def)
  qed
qed

text \<open>A step of a process thread: only the one the dispatcher waits for has one.\<close>

lemma counted_update:
  "counted f i ps \<Longrightarrow> counted f i (ps[i := p])"
  by (auto simp: counted_def)

lemma process_inv:
  assumes "sched_inv s" "i < length (tpcs s)" "process_step i s = Some t"
  shows "sched_inv t \<and> (\<exists>ev. out t = out s @ ev \<and> steps_left s = ev # steps_left t)"
proof -
  let ?n = "length (procs s)" and ?rs = "map remaining_time (procs s)"
  have len: "length (turn_sem s) = ?n" "length (tpcs s) = ?n"
    and ok: "disp_ok (disp s) (procs s) (done_sem s) (pcb_lock s)"
    and th: "\<And>j. j < ?n \<Longrightarrow> thread_ok j s"
    using assms(1) by (auto simp: sched_inv_def)
  obtain c p k d l ev where st: "process_thread i (tpcs s ! i) (procs s ! i) (turn_sem s ! i) (done_sem s) (pcb_lock s) =
      Some (c, p, k, d, l, ev)"
    and t: "t = s\<lparr>procs := (procs s)[i := p], turn_sem := (turn_sem s)[i := k], done_sem := d, pcb_lock := l,
      tpcs := (tpcs s)[i := c], out := out s @ ev\<rparr>"
    using assms(3) by (auto simp: process_step_def)
  have i: "i < ?n" "waited (disp s) = Some i"
    using assms(2) len th[of i] st idle_blocked by (auto simp: thread_ok_def split: if_splits)
  then obtain f where w: "disp s = D_Wait f i"
    by (cases "disp s") auto
  have tok: "turn_ok i (tpcs s ! i) (procs s ! i) (turn_sem s ! i) (done_sem s) (pcb_lock s)"
    "pid (procs s ! i) = int i + 1"
    using th[OF i(1)] i(2) by (simp_all add: thread_ok_def)
  note ts = turn_step[OF st tok]
  have "sched_inv t"
    using len ok th w i(1) ts tok(2)
    by (auto simp: sched_inv_def t thread_ok_def counted_update nth_list_update)
  moreover have "?rs[i := r] = (map remaining_time ((procs s)[i := p]))[i := r]" for r
    by (simp add: map_update)
  then have "steps_left s = ev # steps_left t"
    using len w i(1) ts by (simp add: steps_left_def t Let_def)
  ultimately show ?thesis
    by (auto simp: t)
qed

lemma sched_step_inv:
  assumes "sched_inv s" "sched_step s t"
  shows "sched_inv t \<and> (\<exists>ev. out t = out s @ ev \<and> steps_left s = ev # steps_left t)"
  using assms(2) dispatcher_inv[OF assms(1)] process_inv[OF assms(1)] by (fastforce elim: sched_stepE)

text \<open>There is always a step until the dispatcher has returned, and then every thread has exited.\<close>

lemma sched_progress:
  assumes "sched_inv s" "\<not> sched_finished s"
  shows "\<exists>t. sched_step s t"
proof (cases "waited (disp s)")
  case None
  have "dispatcher_step s \<noteq> None"
  proof (cases "disp s")
    case D_Return
    then have "tpcs s ! j = T_Exit" if "j < length (tpcs s)" for j
      using assms(1) that by (auto simp: sched_inv_def thread_ok_def idle_def counted_def)
    then show ?thesis
      using assms(2) D_Return by (auto simp: sched_finished_def in_set_conv_nth)
  qed (use None assms(1) in \<open>auto simp: dispatcher_step_def sched_inv_def\<close>)
  then show ?thesis
    by (auto intro: by_dispatcher)
next
  case (Some i)
  then obtain f where w: "disp s = D_Wait f i"
    by (cases "disp s") auto
  then have i: "i < length (procs s)" "length (tpcs s) = length (procs s)"
    and tok: "turn_ok i (tpcs s ! i) (procs s ! i) (turn_sem s ! i) (done_sem s) (pcb_lock s)"
    using assms(1) Some by (auto simp: sched_inv_def thread_ok_def)
  show ?thesis
  proof (cases "done_sem s")
    case 0
    then have "process_step i s \<noteq> None"
      using turn_progress[of i "tpcs s ! i" "procs s ! i" "turn_sem s ! i" "pcb_lock s"] tok
      by (simp add: process_step_def)
    then show ?thesis
      using i by_process[of i s] by fastforce
  next
    case (Suc d)
    then have "dispatcher_step s \<noteq> None"
      by (simp add: dispatcher_step_def w)
    then show ?thesis
      by (auto intro: by_dispatcher)
  qed
qed

interpretation rr: finishing_system sched_step sched_inv "\<lambda>s. length (steps_left s)" sched_finished
  by unfold_locales (use sched_step_inv sched_progress in fastforce)+

lemma sched_inv_start: "list_all (\<lambda>b. 0 < b) bursts \<Longrightarrow> sched_inv (sched_start bursts)"
  by (auto simp: sched_inv_def sched_start_def thread_ok_def idle_def counted_def list_all_length)

text \<open>What has been printed, and what the steps left will print, never changes.\<close>

lemma trace_run: "sched_step\<^sup>*\<^sup>* s t \<Longrightarrow> sched_inv s \<Longrightarrow> out t @ concat (steps_left t) = out s @ concat (steps_left s)"
proof (induction rule: rtranclp_induct)
  case (step t u)
  then show ?case
    using sched_step_inv[OF rr.run_inv[OF step.hyps(1) step.prems] step.hyps(2)] by auto
qed simp

section \<open>The length of a run\<close>

lemma length_pass_steps: "length (pass_steps i rs) \<le> 16 * length rs"
  by (induction i rs rule: pass_steps.induct) (auto simp: turn_steps_def)

lemma length_rr_steps:
  "length (rr_steps rs) \<le> (sum_list (map nat rs) + 1) * (16 * length rs + 2)"
proof (induction rs rule: rr_steps.induct)
  case (1 rs)
  let ?c = "16 * length rs + 2"
  show ?case
  proof (cases "list_all (\<lambda>r. r \<le> 0) rs")
    case True
    then show ?thesis
      using length_pass_steps[of 0 rs] by (subst rr_steps.simps) simp
  next
    case False
    have "(sum_list (map (nat \<circ> leave) rs) + 1) * ?c \<le> sum_list (map nat rs) * ?c"
      using leave_smaller[OF False] by (intro mult_le_mono1) simp
    then show ?thesis
      using False 1 length_pass_steps[of 0 rs] by (subst rr_steps.simps) simp
  qed
qed

lemma map_remaining_start [simp]: "map remaining_time (procs (sched_start bursts)) = bursts"
  by (simp add: sched_start_def comp_def map_nth)

lemma steps_left_start:
  "steps_left (sched_start bursts) = [] # (if bursts = [] then [] else rr_steps bursts)"
proof -
  have "disp (sched_start bursts) = D_While 0"
    by (simp add: sched_start_def)
  then show ?thesis
    by (simp add: steps_left_def)
qed

lemma concat_steps_left_start: "concat (steps_left (sched_start bursts)) = round_robin bursts"
  by (simp add: steps_left_start concat_rr_steps round_robin.simps[of "[]"])

lemma finished_no_steps: "sched_finished s \<Longrightarrow> steps_left s = []"
  by (simp add: sched_finished_def steps_left_def)

lemma out_start [simp]: "out (sched_start bursts) = []"
  by (simp add: sched_start_def)

section \<open>What a process gets\<close>

definition units :: "int \<Rightarrow> shown list \<Rightarrow> int" where
  "units q evs = sum_list (map (\<lambda>e. case e of Ran p run before \<Rightarrow> if p = q then run else 0 | Finished p \<Rightarrow> 0) evs)"

definition slices :: "int \<Rightarrow> shown list \<Rightarrow> nat" where
  "slices q evs = length (filter (\<lambda>e. case e of Ran p run before \<Rightarrow> p = q | Finished p \<Rightarrow> False) evs)"

definition ends :: "int \<Rightarrow> shown list \<Rightarrow> nat" where
  "ends q evs = length (filter (\<lambda>e. e = Finished q) evs)"

lemmas share_defs = units_def slices_def ends_def

lemma shares_append [simp]:
  "units q (a @ b) = units q a + units q b" "slices q (a @ b) = slices q a + slices q b"
  "ends q (a @ b) = ends q a + ends q b"
  "units q [] = 0" "slices q [] = 0" "ends q [] = 0"
  by (simp_all add: share_defs)

lemma shares_slice:
  "units (int j + 1) (shown_slice i r) = (if i = j then slice r else 0)"
  "slices (int j + 1) (shown_slice i r) = (if i = j \<and> 0 < r then 1 else 0)"
  "ends (int j + 1) (shown_slice i r) = (if i = j \<and> 0 < r \<and> r \<le> TIME_QUANTUM then 1 else 0)"
  by (auto simp: share_defs shown_slice_def slice_def)

lemma shares_pass_before:
  "j < i \<Longrightarrow> units (int j + 1) (pass i rs) = 0 \<and> slices (int j + 1) (pass i rs) = 0 \<and> ends (int j + 1) (pass i rs) = 0"
  by (induction i rs rule: pass.induct) (simp_all add: shares_slice)

lemma shares_pass:
  "j < length rs \<Longrightarrow> units (int (i + j) + 1) (pass i rs) = slice (rs ! j) \<and>
     slices (int (i + j) + 1) (pass i rs) = (if 0 < rs ! j then 1 else 0) \<and>
     ends (int (i + j) + 1) (pass i rs) = (if 0 < rs ! j \<and> rs ! j \<le> TIME_QUANTUM then 1 else 0)"
proof (induction i rs arbitrary: j rule: pass.induct)
  case (2 i r rs)
  then show ?case
    by (cases j) (use shares_pass_before[of i "Suc i" rs] shares_slice in \<open>simp_all del: of_nat_add of_nat_Suc\<close>)
qed simp

lemma half_up: "0 < r \<Longrightarrow> Suc (nat ((r - min r 2 + 1) div 2)) = nat ((r + 1) div 2)"
proof (cases "r = 1")
  case False
  assume "0 < r"
  then have "min r 2 = 2" "0 \<le> (r - 1) div 2"
    using False by auto
  moreover have "(r + 1) div 2 = (r - 1) div 2 + 1"
    by presburger
  ultimately show ?thesis
    by (simp add: Suc_nat_eq_nat_zadd1 add.commute)
qed simp

lemma shares_round_robin:
  assumes "list_all (\<lambda>r. 0 \<le> r) rs" "j < length rs"
  shows "units (int j + 1) (round_robin rs) = rs ! j \<and>
    slices (int j + 1) (round_robin rs) = nat ((rs ! j + 1) div 2) \<and>
    ends (int j + 1) (round_robin rs) = (if 0 < rs ! j then 1 else 0)"
  using assms
proof (induction rs rule: round_robin.induct)
  case (1 rs)
  show ?case
  proof (cases "list_all (\<lambda>r. r \<le> 0) rs")
    case True
    then have "rs ! j = 0"
      using 1(2,3) by (auto simp: list_all_length intro: antisym)
    then show ?thesis
      using True by (simp add: round_robin.simps[of rs])
  next
    case False
    have "0 \<le> rs ! j"
      using 1(2,3) by (simp add: list_all_length)
    then have arith: "slice (rs ! j) + leave (rs ! j) = rs ! j"
      "(if 0 < rs ! j then 1 else 0) + nat ((leave (rs ! j) + 1) div 2) = nat ((rs ! j + 1) div 2)"
      "(if 0 < rs ! j \<and> rs ! j \<le> TIME_QUANTUM then 1 else 0) + (if 0 < leave (rs ! j) then 1 else (0::nat)) =
        (if 0 < rs ! j then 1 else 0)"
      by (auto simp: leave_def slice_def TIME_QUANTUM_def half_up)
    have "list_all (\<lambda>r. 0 \<le> r) (map leave rs)"
      using 1(2) by (simp add: list_all_iff)
    note ih = 1(1)[OF False this]
    have "round_robin rs = pass 0 rs @ round_robin (map leave rs)"
      using False by (simp add: round_robin.simps[of rs])
    then show ?thesis
      using ih 1(3) shares_pass[OF 1(3), of 0] arith by (simp only: shares_append length_map nth_map add_0)
  qed
qed

section \<open>Properties\<close>

text \<open>
  C5: The threads carry out the round-robin schedule. However the operating system interleaves the
  dispatcher and the process threads, what they have printed at any moment is a beginning of the
  sequential round-robin schedule of the burst times and, when all threads have been joined, the
  whole of it; the program cannot get stuck before, can always be completed, and never makes more
  than the given number of steps.
\<close>

theorem dispatcher_implements_round_robin:
  assumes "list_all (\<lambda>b. 0 < b) bursts" "sched_step\<^sup>*\<^sup>* (sched_start bursts) s"
  shows "(\<exists>rest. round_robin bursts = out s @ rest) \<and>
    (sched_finished s \<longrightarrow> out s = round_robin bursts) \<and>
    ((\<nexists>t. sched_step s t) \<longrightarrow> sched_finished s) \<and>
    (\<exists>t. sched_step\<^sup>*\<^sup>* s t \<and> sched_finished t) \<and>
    (\<forall>k t. (sched_step ^^ k) (sched_start bursts) t \<longrightarrow>
       k \<le> (sum_list (map nat bursts) + 1) * (16 * length bursts + 2) + 1)"
proof -
  note inv = sched_inv_start[OF assms(1)]
  have tr: "out s @ concat (steps_left s) = round_robin bursts"
    using trace_run[OF assms(2) inv] by (simp add: concat_steps_left_start)
  moreover have "k \<le> (sum_list (map nat bursts) + 1) * (16 * length bursts + 2) + 1"
    if "(sched_step ^^ k) (sched_start bursts) t" for k t
    using rr.run_length[OF that inv] length_rr_steps[of bursts] by (simp add: steps_left_start split: if_splits)
  moreover have "sched_inv s"
    by (rule rr.run_inv[OF assms(2) inv])
  ultimately show ?thesis
    using rr.progress[of s] rr.reaches_final[of s] finished_no_steps[of s] by (metis append_Nil2 concat.simps(1))
qed

text \<open>
  Every process gets exactly its burst time. When the simulation has finished, the slices shown for
  a process add up to its burst time, there are as many as quanta are needed for it, its end is
  shown once, and its PCB is \<open>DONE\<close> with no time remaining.
\<close>

theorem every_process_gets_its_burst:
  assumes "list_all (\<lambda>b. 0 < b) bursts" "sched_step\<^sup>*\<^sup>* (sched_start bursts) s" "sched_finished s"
    and "j < length bursts"
  shows "units (int j + 1) (out s) = bursts ! j \<and> slices (int j + 1) (out s) = nat ((bursts ! j + 1) div 2) \<and>
    ends (int j + 1) (out s) = 1 \<and> pstate (procs s ! j) = DONE \<and> remaining_time (procs s ! j) = 0"
proof -
  note inv = sched_inv_start[OF assms(1)]
  have "out s = round_robin bursts"
    using trace_run[OF assms(2) inv] finished_no_steps[OF assms(3)] by (simp add: concat_steps_left_start)
  moreover have "list_all (\<lambda>r. 0 \<le> r) bursts" "0 < bursts ! j"
    using assms(1,4) by (auto simp: list_all_length)
  moreover have "length (procs s) = length bursts"
    using assms(2) by (induction rule: rtranclp_induct)
      (auto simp: sched_start_def dispatcher_step_def process_step_def elim!: sched_stepE)
  then have "idle (tpcs s ! j) (procs s ! j) (turn_sem s ! j)" "tpcs s ! j = T_Exit"
    using rr.run_inv[OF assms(2) inv] assms(3,4) by (simp_all add: sched_inv_def thread_ok_def sched_finished_def)
  then have "served (procs s ! j) True"
    by (simp add: idle_def)
  ultimately show ?thesis
    using shares_round_robin[of bursts j] assms(4) by simp
qed

text \<open>The parts of the code between locking and unlocking \<open>pcb_lock\<close>.\<close>

fun in_critical :: "sched \<Rightarrow> tid \<Rightarrow> bool" where
  "in_critical s Dispatcher = (case disp s of D_Read f i \<Rightarrow> True | D_Unlock f i st \<Rightarrow> True | _ \<Rightarrow> False)"
| "in_critical s (Process i) = (i < length (tpcs s) \<and>
     (case tpcs s ! i of T_Crit1 \<Rightarrow> True | T_Unlock1 r b \<Rightarrow> True | T_Crit2 r \<Rightarrow> True | T_Unlock2 f \<Rightarrow> True | _ \<Rightarrow> False))"

text \<open>
  C31: Mutual exclusion. In every reachable state a thread inside its critical section owns the mutex, so
  there is at most one such thread. The dispatcher never changes the PCB array, and a step of a process
  thread that changes it is made inside that thread's own critical section, with the mutex its own, and
  changes its own entry only. At most one process is \<open>RUNNING\<close>, and all semaphores are binary.
\<close>

theorem mutual_exclusion:
  assumes "list_all (\<lambda>b. 0 < b) bursts" "sched_step\<^sup>*\<^sup>* (sched_start bursts) s"
  shows "(\<forall>a. in_critical s a \<longrightarrow> pcb_lock s = Some a) \<and>
    (\<forall>t. dispatcher_step s = Some t \<longrightarrow> procs t = procs s) \<and>
    (\<forall>i t. i < length (tpcs s) \<and> process_step i s = Some t \<and> procs t \<noteq> procs s \<longrightarrow>
       in_critical s (Process i) \<and> pcb_lock s = Some (Process i) \<and> (\<forall>j. j \<noteq> i \<longrightarrow> procs t ! j = procs s ! j)) \<and>
    (\<forall>i j. i < length (procs s) \<and> j < length (procs s) \<and> pstate (procs s ! i) = RUNNING \<and>
       pstate (procs s ! j) = RUNNING \<longrightarrow> i = j) \<and>
    done_sem s \<le> 1 \<and> (\<forall>k\<in>set (turn_sem s). k \<le> 1)"
proof -
  have inv: "sched_inv s"
    by (rule rr.run_inv[OF assms(2) sched_inv_start[OF assms(1)]])
  then have len: "length (turn_sem s) = length (procs s)" "length (tpcs s) = length (procs s)"
    and ok: "disp_ok (disp s) (procs s) (done_sem s) (pcb_lock s)"
    and th: "\<And>j. j < length (procs s) \<Longrightarrow> thread_ok j s"
    by (simp_all add: sched_inv_def)
  have other: "idle (tpcs s ! j) (procs s ! j) (turn_sem s ! j)" if "j < length (procs s)" "waited (disp s) \<noteq> Some j" for j
    using th[OF that(1)] that(2) by (simp add: thread_ok_def)
  have busy: "turn_ok j (tpcs s ! j) (procs s ! j) (turn_sem s ! j) (done_sem s) (pcb_lock s)"
    if "j < length (procs s)" "waited (disp s) = Some j" for j
    using th[OF that(1)] that(2) by (simp add: thread_ok_def)
  have lock: "pcb_lock s = Some a" if "in_critical s a" for a
  proof (cases a)
    case Dispatcher
    then show ?thesis
      using that ok by (auto split: dpc.splits)
  next
    case (Process j)
    then have j: "j < length (procs s)"
      using that len by simp
    have "waited (disp s) = Some j"
      using other[OF j] that Process by (rule_tac ccontr) (auto simp: idle_def)
    from busy[OF j this] show ?thesis
      using that Process by (cases "tpcs s ! j") auto
  qed
  have disp: "procs t = procs s" if "dispatcher_step s = Some t" for t
    using that by (auto simp: dispatcher_step_def)
  have proc: "in_critical s (Process i)" "\<forall>j. j \<noteq> i \<longrightarrow> procs t ! j = procs s ! j"
    if "i < length (tpcs s)" "process_step i s = Some t" "procs t \<noteq> procs s" for i t
    using that by (cases "tpcs s ! i"; auto simp: process_step_def Let_def split: if_splits)+
  have running: "waited (disp s) = Some j" if "j < length (procs s)" "pstate (procs s ! j) = RUNNING" for j
    using other[OF that(1)] that(2) by (auto simp: idle_def)
  have "turn_sem s ! j \<le> 1" if "j < length (procs s)" for j
    using other[OF that] busy[OF that]
    by (cases "waited (disp s) = Some j"; cases "tpcs s ! j") (auto simp: idle_def)
  then have sems: "\<forall>k\<in>set (turn_sem s). k \<le> 1"
    using len by (auto simp: in_set_conv_nth)
  have done_ok: "done_sem s \<le> 1"
  proof (cases "waited (disp s)")
    case None
    then show ?thesis
      using ok by (cases "disp s") auto
  next
    case (Some j)
    then have "j < length (procs s)"
      using ok by (cases "disp s") auto
    from busy[OF this Some] show ?thesis
      by (cases "tpcs s ! j") auto
  qed
  show ?thesis
  proof (intro conjI allI impI sems done_ok; (elim conjE)?)
    fix i j
    assume "i < length (procs s)" "j < length (procs s)" "pstate (procs s ! i) = RUNNING" "pstate (procs s ! j) = RUNNING"
    then show "i = j"
      using running[of i] running[of j] by simp
  qed (fact lock disp | rule proc(1), assumption+ | rule lock, rule proc(1), assumption+ | rule proc(2)[rule_format], assumption+)+
qed

section \<open>Witnesses\<close>

lemma burst_times_pos: "list_all (\<lambda>b. 0 < b) burst_times"
  by (simp add: burst_times_def)

text \<open>The run of the program itself.\<close>

theorem dispatcher_implements_round_robin_witness:
  "\<exists>s. sched_step\<^sup>*\<^sup>* (sched_start burst_times) s \<and> sched_finished s \<and>
     out s = [Ran 1 2 6, Ran 2 2 4, Ran 3 2 8, Ran 4 2 2, Finished 4, Ran 1 2 4, Ran 2 2 2, Finished 2,
       Ran 3 2 6, Ran 1 2 2, Finished 1, Ran 3 2 4, Ran 3 2 2, Finished 3]"
proof -
  have "round_robin burst_times = [Ran 1 2 6, Ran 2 2 4, Ran 3 2 8, Ran 4 2 2, Finished 4, Ran 1 2 4, Ran 2 2 2,
      Finished 2, Ran 3 2 6, Ran 1 2 2, Finished 1, Ran 3 2 4, Ran 3 2 2, Finished 3]"
    by (simp add: burst_times_def round_robin.simps shown_slice_def leave_def slice_def TIME_QUANTUM_def)
  then show ?thesis
    using rr.reaches_final[OF sched_inv_start[OF burst_times_pos]]
      dispatcher_implements_round_robin[OF burst_times_pos] by metis
qed

theorem every_process_gets_its_burst_witness:
  "\<exists>s. sched_step\<^sup>*\<^sup>* (sched_start burst_times) s \<and> units 3 (out s) = 8 \<and> slices 3 (out s) = 4 \<and> ends 3 (out s) = 1"
proof -
  obtain s where s: "sched_step\<^sup>*\<^sup>* (sched_start burst_times) s" "sched_finished s"
    using rr.reaches_final[OF sched_inv_start[OF burst_times_pos]] by blast
  then show ?thesis
    using every_process_gets_its_burst[OF burst_times_pos s, of 2] by (auto simp: burst_times_def)
qed

theorem mutual_exclusion_witness:
  "\<exists>s. sched_step\<^sup>*\<^sup>* (sched_start burst_times) s \<and> in_critical s Dispatcher \<and> \<not> in_critical s (Process 0)"
proof -
  let ?s = "\<lambda>c l. (sched_start burst_times)\<lparr>disp := c, pcb_lock := l\<rparr>"
  have "sched_step\<^sup>*\<^sup>* (sched_start burst_times) (?s (D_While 0) None)"
    by (simp add: sched_start_def)
  moreover have "sched_step (?s (D_While 0) None) (?s (D_For 0 0) None)"
    "sched_step (?s (D_For 0 0) None) (?s (D_Lock 0 0) None)"
    "sched_step (?s (D_Lock 0 0) None) (?s (D_Read 0 0) (Some Dispatcher))"
    by (rule by_dispatcher, simp add: dispatcher_step_def sched_start_def burst_times_def)+
  ultimately have r: "sched_step\<^sup>*\<^sup>* (sched_start burst_times) (?s (D_Read 0 0) (Some Dispatcher))"
    by (meson rtranclp.rtrancl_into_rtrancl)
  have "\<not> in_critical (?s (D_Read 0 0) (Some Dispatcher)) (Process 0)"
    using conjunct1[OF mutual_exclusion[OF burst_times_pos r], rule_format, of "Process 0"] by auto
  then show ?thesis
    using r by (intro exI[of _ "?s (D_Read 0 0) (Some Dispatcher)"]) simp
qed

end
