(* ===== verification/Race.thy ===== *)
theory Race
  imports Transitions
begin

text \<open>
  The race-condition demonstration of \<open>scheduler.c\<close>: \<open>NUM_PROCESSES\<close> threads run
  \<open>counter_worker\<close>, which increments one counter without a lock, in the steps read, yield and
  write, and another one under \<open>pcb_lock\<close>. A step is one step of one thread; the number of
  increments per thread is a parameter (\<open>INCREMENTS_PER_THREAD\<close> in the program).
\<close>

section \<open>The code\<close>

definition NUM_PROCESSES :: nat where "NUM_PROCESSES = 4"
definition INCREMENTS_PER_THREAD :: nat where "INCREMENTS_PER_THREAD = 2000"

datatype wpc = R_Loop | R_Yield | R_Store | R_Lock | R_Inc | R_Unlock | R_Return

record worker =
  w_i :: nat
  w_temp :: int
  w_pc :: wpc

record race =
  unsafe :: int
  safe :: int
  r_lock :: "nat option"
  workers :: "worker list"

text \<open>
  One step of the thread with number \<open>j\<close>: its locals, the two counters and the mutex afterwards;
  \<open>None\<close> when it is blocked or has returned.
\<close>

fun counter_worker :: "nat \<Rightarrow> nat \<Rightarrow> worker \<Rightarrow> int \<Rightarrow> int \<Rightarrow> nat option \<Rightarrow>
    (worker \<times> int \<times> int \<times> nat option) option" where
  "counter_worker inc j w u v l =
     (case w_pc w of
        R_Loop \<Rightarrow>
          if w_i w < inc then Some (w\<lparr>w_temp := u, w_pc := R_Yield\<rparr>, u, v, l)
          else Some (w\<lparr>w_pc := R_Return\<rparr>, u, v, l)
      | R_Yield \<Rightarrow> Some (w\<lparr>w_temp := w_temp w + 1, w_pc := R_Store\<rparr>, u, v, l)
      | R_Store \<Rightarrow> Some (w\<lparr>w_pc := R_Lock\<rparr>, w_temp w, v, l)
      | R_Lock \<Rightarrow> if l = None then Some (w\<lparr>w_pc := R_Inc\<rparr>, u, v, Some j) else None
      | R_Inc \<Rightarrow> Some (w\<lparr>w_pc := R_Unlock\<rparr>, u, v + 1, l)
      | R_Unlock \<Rightarrow> Some (w\<lparr>w_i := w_i w + 1, w_pc := R_Loop\<rparr>, u, v, None)
      | R_Return \<Rightarrow> None)"

definition worker_step :: "nat \<Rightarrow> nat \<Rightarrow> race \<Rightarrow> race option" where
  "worker_step inc j s =
     map_option (\<lambda>(w, u, v, l). \<lparr>unsafe = u, safe = v, r_lock = l, workers = (workers s)[j := w]\<rparr>)
       (counter_worker inc j (workers s ! j) (unsafe s) (safe s) (r_lock s))"

inductive race_step :: "nat \<Rightarrow> race \<Rightarrow> race \<Rightarrow> bool" for inc where
  "j < length (workers s) \<Longrightarrow> worker_step inc j s = Some t \<Longrightarrow> race_step inc s t"

inductive_cases race_stepE: "race_step inc s t"

definition race_start :: "nat \<Rightarrow> race" where
  "race_start n = \<lparr>unsafe = 0, safe = 0, r_lock = None,
     workers = replicate n \<lparr>w_i = 0, w_temp = 0, w_pc = R_Loop\<rparr>\<rparr>"

text \<open>All threads joined.\<close>

definition race_joined :: "race \<Rightarrow> bool" where
  "race_joined s \<longleftrightarrow> (\<forall>w\<in>set (workers s). w_pc w = R_Return)"

text \<open>
  The report of \<open>main\<close>: the expected value, the unsafe counter, the lost updates, the safe counter,
  and whether it matches. The counters never exceed the expected value, so a C \<open>long\<close> holds them.
\<close>

definition race_report :: "nat \<Rightarrow> nat \<Rightarrow> race \<Rightarrow> int \<times> int \<times> int \<times> int \<times> bool" where
  "race_report n inc s =
     (let expected = int n * int inc in
      (expected, unsafe s, expected - unsafe s, safe s, safe s = expected))"

section \<open>The invariant\<close>

lemma sum_list_update_map:
  "j < length xs \<Longrightarrow> sum_list (map f (xs[j := x])) + f (xs ! j) = sum_list (map f xs) + (f x :: nat)"
proof (induction xs arbitrary: j)
  case (Cons a xs)
  then show ?case
    by (cases j) auto
qed simp

text \<open>Writes to the two counters that a thread has made.\<close>

definition stores :: "worker \<Rightarrow> nat" where
  "stores w = w_i w + (if w_pc w \<in> {R_Lock, R_Inc, R_Unlock} then 1 else 0)"

definition incs :: "worker \<Rightarrow> nat" where
  "incs w = w_i w + (if w_pc w = R_Unlock then 1 else 0)"

definition worker_ok :: "nat \<Rightarrow> nat \<Rightarrow> worker \<Rightarrow> bool" where
  "worker_ok inc tot w \<longleftrightarrow> w_i w \<le> inc \<and> (w_pc w \<notin> {R_Loop, R_Return} \<longrightarrow> w_i w < inc) \<and>
     (w_pc w = R_Return \<longrightarrow> w_i w = inc) \<and>
     (w_pc w = R_Yield \<longrightarrow> 0 \<le> w_temp w \<and> w_temp w \<le> int tot) \<and>
     (w_pc w = R_Store \<longrightarrow> 1 \<le> w_temp w \<and> w_temp w \<le> int tot + 1)"

definition all_stores :: "race \<Rightarrow> nat" where
  "all_stores s = sum_list (map stores (workers s))"

definition race_inv :: "nat \<Rightarrow> race \<Rightarrow> bool" where
  "race_inv inc s \<longleftrightarrow>
     (\<forall>j. r_lock s = Some j \<longleftrightarrow> j < length (workers s) \<and> w_pc (workers s ! j) \<in> {R_Inc, R_Unlock}) \<and>
     safe s = int (sum_list (map incs (workers s))) \<and>
     0 \<le> unsafe s \<and> unsafe s \<le> int (all_stores s) \<and> (0 < all_stores s \<longrightarrow> 1 \<le> unsafe s) \<and>
     (\<forall>w\<in>set (workers s). worker_ok inc (all_stores s) w)"

fun pc_rank :: "wpc \<Rightarrow> nat" where
  "pc_rank R_Loop = 6" | "pc_rank R_Yield = 5" | "pc_rank R_Store = 4" | "pc_rank R_Lock = 3"
| "pc_rank R_Inc = 2" | "pc_rank R_Unlock = 1" | "pc_rank R_Return = 0"

definition worker_weight :: "nat \<Rightarrow> worker \<Rightarrow> nat" where
  "worker_weight inc w = 7 * (inc - w_i w) + pc_rank (w_pc w)"

definition race_weight :: "nat \<Rightarrow> race \<Rightarrow> nat" where
  "race_weight inc s = sum_list (map (worker_weight inc) (workers s))"

lemma worker_ok_mono: "worker_ok inc m w \<Longrightarrow> m \<le> n \<Longrightarrow> worker_ok inc n w"
  by (auto simp: worker_ok_def)

lemma race_inv_start: "race_inv inc (race_start n)"
  by (simp add: race_inv_def race_start_def all_stores_def stores_def incs_def worker_ok_def sum_list_replicate)

text \<open>A step as an update of one thread, with what it does to the counters and the mutex.\<close>

lemma race_stepD:
  assumes "race_step inc s t"
  obtains j w' where "j < length (workers s)" "workers t = (workers s)[j := w']"
    "counter_worker inc j (workers s ! j) (unsafe s) (safe s) (r_lock s) = Some (w', unsafe t, safe t, r_lock t)"
proof -
  obtain j where j: "j < length (workers s)" "worker_step inc j s = Some t"
    using assms by (auto elim: race_stepE)
  then obtain x where "counter_worker inc j (workers s ! j) (unsafe s) (safe s) (r_lock s) = Some x"
      "t = (\<lambda>(w, u, v, l). \<lparr>unsafe = u, safe = v, r_lock = l, workers = (workers s)[j := w]\<rparr>) x"
    by (auto simp: worker_step_def simp del: counter_worker.simps)
  then show thesis
    using j(1) by (cases x) (auto intro: that simp del: counter_worker.simps)
qed

lemma worker_counts:
  assumes "counter_worker inc j w u v l = Some (w', u', v', l')" "worker_ok inc n w"
    and "0 \<le> u" "u \<le> int n" "0 < n \<longrightarrow> 1 \<le> u"
  shows "stores w \<le> stores w'" "v' + int (incs w) = v + int (incs w')"
    "worker_ok inc (n + stores w' - stores w) w'" "0 \<le> u'" "u' \<le> int (n + stores w' - stores w)"
    "0 < n + stores w' - stores w \<longrightarrow> 1 \<le> u'"
    "worker_weight inc w' < worker_weight inc w"
  using assms by (cases "w_pc w"; auto simp: stores_def incs_def worker_ok_def worker_weight_def split: if_splits)+

lemma worker_locks:
  assumes "counter_worker inc j w u v l = Some (w', u', v', l')" "l = Some j \<longleftrightarrow> w_pc w \<in> {R_Inc, R_Unlock}"
  shows "l' = Some j \<longleftrightarrow> w_pc w' \<in> {R_Inc, R_Unlock}" "i \<noteq> j \<Longrightarrow> l' = Some i \<longleftrightarrow> l = Some i"
  using assms by (cases "w_pc w"; auto split: if_splits)+

lemma race_inv_step:
  assumes "race_inv inc s" "race_step inc s t"
  shows "race_inv inc t" "race_weight inc t < race_weight inc s"
proof -
  obtain j w' where j: "j < length (workers s)" "workers t = (workers s)[j := w']"
    and c: "counter_worker inc j (workers s ! j) (unsafe s) (safe s) (r_lock s) = Some (w', unsafe t, safe t, r_lock t)"
    using race_stepD[OF assms(2)] .
  define w where "w = workers s ! j"
  have inv: "worker_ok inc (all_stores s) w" "0 \<le> unsafe s" "unsafe s \<le> int (all_stores s)"
    "0 < all_stores s \<longrightarrow> 1 \<le> unsafe s" "r_lock s = Some j \<longleftrightarrow> w_pc w \<in> {R_Inc, R_Unlock}"
    using assms(1) j(1) by (auto simp: race_inv_def w_def)
  note wc = worker_counts[OF c[folded w_def] inv(1-4)] and wl = worker_locks[OF c[folded w_def] inv(5)]
  have st: "all_stores t = all_stores s + stores w' - stores w"
    using sum_list_update_map[OF j(1), of stores w'] by (simp add: all_stores_def j(2) w_def)
  have incs: "sum_list (map incs (workers t)) + incs w = sum_list (map incs (workers s)) + incs w'"
    using sum_list_update_map[OF j(1), of incs w'] by (simp add: j(2) w_def)
  have lock: "r_lock t = Some i \<longleftrightarrow> i < length (workers t) \<and> w_pc (workers t ! i) \<in> {R_Inc, R_Unlock}" for i
    using wl assms(1) j by (cases "i = j") (auto simp: race_inv_def)
  have "worker_ok inc (all_stores t) x" if "x \<in> set (workers t)" for x
  proof -
    have "x = w' \<or> x \<in> set (workers s)"
      using that set_update_subset_insert[of "workers s" j w'] j(2) by auto
    moreover have "all_stores s \<le> all_stores t"
      using wc(1) by (simp add: st)
    ultimately show ?thesis
      using wc(3) assms(1) worker_ok_mono[of inc "all_stores s" x "all_stores t"]
      by (auto simp: race_inv_def simp flip: st)
  qed
  moreover have "safe t = int (sum_list (map incs (workers t)))"
    using incs wc(2) assms(1) by (simp add: race_inv_def)
  ultimately show "race_inv inc t"
    using lock wc(4-6) by (simp add: race_inv_def st)
  show "race_weight inc t < race_weight inc s"
    using sum_list_update_map[OF j(1), of "worker_weight inc" w'] wc(7) by (simp add: race_weight_def j(2) w_def)
qed

lemma race_progress:
  assumes "race_inv inc s" "\<not> race_joined s"
  shows "\<exists>t. race_step inc s t"
proof -
  have move: "\<exists>t. race_step inc s t"
    if "j < length (workers s)" "w_pc (workers s ! j) \<noteq> R_Return" "w_pc (workers s ! j) = R_Lock \<Longrightarrow> r_lock s = None" for j
  proof -
    have "worker_step inc j s \<noteq> None"
      using that by (cases "w_pc (workers s ! j)") (auto simp: worker_step_def)
    then show ?thesis
      using that(1) race_step.intros by fastforce
  qed
  obtain j where j: "j < length (workers s)" "w_pc (workers s ! j) \<noteq> R_Return"
    using assms(2) by (auto simp: race_joined_def in_set_conv_nth)
  show ?thesis
  proof (cases "r_lock s")
    case None
    then show ?thesis
      using move[OF j] by blast
  next
    case (Some k)
    then have "k < length (workers s)" "w_pc (workers s ! k) \<in> {R_Inc, R_Unlock}"
      using assms(1) by (auto simp: race_inv_def)
    then show ?thesis
      using move[of k] by auto
  qed
qed

interpretation rc: finishing_system "race_step inc" "race_inv inc" "race_weight inc" race_joined for inc
  by unfold_locales (blast intro: race_inv_step race_progress)+

lemma length_workers: "race_step inc s t \<Longrightarrow> length (workers t) = length (workers s)"
  by (auto elim: race_stepD)

lemma length_workers_run: "(race_step inc)\<^sup>*\<^sup>* s t \<Longrightarrow> length (workers t) = length (workers s)"
  by (induction rule: rtranclp_induct) (auto dest: length_workers)

text \<open>The counters when all threads have been joined.\<close>

lemma race_at_end:
  assumes "(race_step inc)\<^sup>*\<^sup>* (race_start n) s" "race_joined s"
  shows "race_report n inc s = (int (n * inc), unsafe s, int (n * inc) - unsafe s, int (n * inc), True) \<and>
    safe s = int (n * inc) \<and> unsafe s \<le> safe s \<and> (0 < n * inc \<longrightarrow> 1 \<le> unsafe s)"
proof -
  have inv: "race_inv inc s"
    by (rule rc.run_inv[OF assms(1) race_inv_start])
  have len: "length (workers s) = n"
    using length_workers_run[OF assms(1)] by (simp add: race_start_def)
  have fin: "incs w = inc \<and> stores w = inc" if "w \<in> set (workers s)" for w
    using that inv assms(2) by (auto simp: race_inv_def race_joined_def worker_ok_def incs_def stores_def)
  have "map incs (workers s) = replicate n inc" "map stores (workers s) = replicate n inc"
    using fin len by (auto simp: map_replicate_const[symmetric] intro: map_cong)
  then have "sum_list (map incs (workers s)) = n * inc" "all_stores s = n * inc"
    by (simp_all add: all_stores_def sum_list_replicate)
  then show ?thesis
    using inv by (auto simp: race_inv_def race_report_def Let_def)
qed

section \<open>Properties\<close>

text \<open>
  The counter under the mutex is exact and the other one is not above it. Whatever the
  interleaving, the program of n threads finishes, and then the safe counter is exactly n times the
  number of increments, while the unsafe counter lies between 1 and that value; so the report of
  \<open>main\<close> says that the safe counter matches, and never a negative number of lost updates.
\<close>

theorem counters_at_the_end:
  assumes "(race_step inc)\<^sup>*\<^sup>* (race_start n) s" "race_joined s"
  shows "race_report n inc s = (int (n * inc), unsafe s, int (n * inc) - unsafe s, int (n * inc), True) \<and>
    safe s = int (n * inc) \<and> unsafe s \<le> safe s \<and> (0 < n * inc \<longrightarrow> 1 \<le> unsafe s) \<and>
    (\<exists>t. (race_step inc)\<^sup>*\<^sup>* (race_start n) t \<and> race_joined t) \<and>
    (\<forall>k t. (race_step inc ^^ k) (race_start n) t \<longrightarrow> k \<le> n * (7 * inc + 6))"
proof -
  have "k \<le> n * (7 * inc + 6)" if "(race_step inc ^^ k) (race_start n) t" for k t
    using rc.run_length[OF that race_inv_start]
    by (simp add: race_weight_def race_start_def worker_weight_def sum_list_replicate)
  then show ?thesis
    using race_at_end[OF assms] rc.reaches_final[OF race_inv_start[of inc n]] by blast
qed

section \<open>Lost updates\<close>

lemma step_at:
  assumes "j < length ws" "counter_worker inc j w u v l = Some (w', u', v', l')"
  shows "race_step inc \<lparr>unsafe = u, safe = v, r_lock = l, workers = ws[j := w]\<rparr>
    \<lparr>unsafe = u', safe = v', r_lock = l', workers = ws[j := w']\<rparr>"
  using assms by (intro race_step.intros[of j]) (auto simp: worker_step_def simp del: counter_worker.simps)

abbreviation at :: "worker list \<Rightarrow> nat \<Rightarrow> nat \<Rightarrow> int \<Rightarrow> wpc \<Rightarrow> int \<Rightarrow> int \<Rightarrow> race" where
  "at ws j i tmp pc u v \<equiv> \<lparr>unsafe = u, safe = v, r_lock = (if pc \<in> {R_Inc, R_Unlock} then Some j else None),
     workers = ws[j := \<lparr>w_i = i, w_temp = tmp, w_pc = pc\<rparr>]\<rparr>"

lemma after_read:
  assumes "j < length ws"
  shows "(race_step inc)\<^sup>*\<^sup>* (at ws j i tmp R_Yield u v) (at ws j (Suc i) (tmp + 1) R_Loop (tmp + 1) (v + 1))"
proof -
  have st: "(race_step inc)\<^sup>*\<^sup>* \<lparr>unsafe = a, safe = b, r_lock = l, workers = ws[j := w]\<rparr> t"
    if "counter_worker inc j w a b l = Some (w', a', b', l')"
      "(race_step inc)\<^sup>*\<^sup>* \<lparr>unsafe = a', safe = b', r_lock = l', workers = ws[j := w']\<rparr> t"
    for w a b l w' a' b' l' t
    using converse_rtranclp_into_rtranclp[OF step_at[OF assms that(1)] that(2)] .
  let ?w = "\<lambda>p. \<lparr>w_i = i, w_temp = tmp + 1, w_pc = p\<rparr>"
  have "(race_step inc)\<^sup>*\<^sup>* \<lparr>unsafe = tmp + 1, safe = v + 1, r_lock = Some j, workers = ws[j := ?w R_Unlock]\<rparr>
      (at ws j (Suc i) (tmp + 1) R_Loop (tmp + 1) (v + 1))"
    by (rule st[OF _ rtranclp.rtrancl_refl]) simp
  then have "(race_step inc)\<^sup>*\<^sup>* \<lparr>unsafe = tmp + 1, safe = v, r_lock = Some j, workers = ws[j := ?w R_Inc]\<rparr>
      (at ws j (Suc i) (tmp + 1) R_Loop (tmp + 1) (v + 1))"
    by (rule st[rotated]) simp
  then have "(race_step inc)\<^sup>*\<^sup>* \<lparr>unsafe = tmp + 1, safe = v, r_lock = None, workers = ws[j := ?w R_Lock]\<rparr>
      (at ws j (Suc i) (tmp + 1) R_Loop (tmp + 1) (v + 1))"
    by (rule st[rotated]) simp
  then have "(race_step inc)\<^sup>*\<^sup>* \<lparr>unsafe = u, safe = v, r_lock = None, workers = ws[j := ?w R_Store]\<rparr>
      (at ws j (Suc i) (tmp + 1) R_Loop (tmp + 1) (v + 1))"
    by (rule st[rotated]) simp
  then have "(race_step inc)\<^sup>*\<^sup>* \<lparr>unsafe = u, safe = v, r_lock = None,
        workers = ws[j := \<lparr>w_i = i, w_temp = tmp, w_pc = R_Yield\<rparr>]\<rparr>
      (at ws j (Suc i) (tmp + 1) R_Loop (tmp + 1) (v + 1))"
    by (rule st[rotated]) simp
  then show ?thesis
    by simp
qed

text \<open>A thread left to itself adds what is left of its loop.\<close>

lemma solo:
  assumes "j < length ws" "i \<le> inc"
  shows "\<exists>tmp'. (race_step inc)\<^sup>*\<^sup>* (at ws j i tmp R_Loop u v)
    (at ws j inc tmp' R_Return (u + int (inc - i)) (v + int (inc - i)))"
  using assms(2)
proof (induction "inc - i" arbitrary: i tmp u v)
  case 0
  then have "race_step inc (at ws j i tmp R_Loop u v) (at ws j inc tmp R_Return u v)"
    using step_at[OF assms(1), of inc "\<lparr>w_i = i, w_temp = tmp, w_pc = R_Loop\<rparr>" u v None] by simp
  then show ?case
    using 0 by (intro exI[of _ tmp]) auto
next
  case (Suc m)
  then have i: "i < inc" "m = inc - Suc i" "inc - i = Suc (inc - Suc i)"
    by auto
  have "race_step inc (at ws j i tmp R_Loop u v) (at ws j i u R_Yield u v)"
    using step_at[OF assms(1), of inc "\<lparr>w_i = i, w_temp = tmp, w_pc = R_Loop\<rparr>" u v None] i by simp
  then have "(race_step inc)\<^sup>*\<^sup>* (at ws j i tmp R_Loop u v) (at ws j (Suc i) (u + 1) R_Loop (u + 1) (v + 1))"
    using after_read[OF assms(1), where inc = inc and i = i and tmp = u and u = u and v = v] by (rule converse_rtranclp_into_rtranclp)
  moreover obtain tmp' where "(race_step inc)\<^sup>*\<^sup>* (at ws j (Suc i) (u + 1) R_Loop (u + 1) (v + 1))
      (at ws j inc tmp' R_Return (u + 1 + int (inc - Suc i)) (v + 1 + int (inc - Suc i)))"
    using Suc.hyps(1)[of "Suc i" "u + 1" "v + 1" "u + 1"] i by auto
  ultimately show ?case
    using i by (intro exI[of _ tmp']) (simp add: algebra_simps)
qed

text \<open>All threads from number \<open>k\<close> on, one after the other.\<close>

lemma others_finish:
  assumes "k \<le> length ws" "\<And>i. k \<le> i \<Longrightarrow> i < length ws \<Longrightarrow> ws ! i = \<lparr>w_i = 0, w_temp = 0, w_pc = R_Loop\<rparr>"
  shows "\<exists>u' v' ws'. (race_step inc)\<^sup>*\<^sup>* \<lparr>unsafe = u, safe = v, r_lock = None, workers = ws\<rparr>
      \<lparr>unsafe = u', safe = v', r_lock = None, workers = ws'\<rparr> \<and> length ws' = length ws \<and>
    (\<forall>i < k. ws' ! i = ws ! i) \<and> (\<forall>i. k \<le> i \<and> i < length ws \<longrightarrow> w_pc (ws' ! i) = R_Return)"
  using assms
proof (induction "length ws - k" arbitrary: k ws u v)
  case 0
  then show ?case
    by (intro exI[of _ u] exI[of _ v] exI[of _ ws]) auto
next
  case (Suc m)
  then have k: "k < length ws" "ws ! k = \<lparr>w_i = 0, w_temp = 0, w_pc = R_Loop\<rparr>"
    by auto
  then have "at ws k 0 0 R_Loop u v = \<lparr>unsafe = u, safe = v, r_lock = None, workers = ws\<rparr>"
    by (simp flip: k(2))
  then obtain tmp where r: "(race_step inc)\<^sup>*\<^sup>* \<lparr>unsafe = u, safe = v, r_lock = None, workers = ws\<rparr>
      (at ws k inc tmp R_Return (u + int inc) (v + int inc))"
    using solo[OF k(1), where i = 0 and inc = inc and tmp = 0 and u = u and v = v] by auto
  let ?ws = "ws[k := \<lparr>w_i = inc, w_temp = tmp, w_pc = R_Return\<rparr>]"
  have "m = length ws - Suc k" "Suc k \<le> length ws"
    using Suc.hyps(2) k(1) by arith+
  then obtain u' v' ws' where n: "(race_step inc)\<^sup>*\<^sup>* \<lparr>unsafe = u + int inc, safe = v + int inc, r_lock = None, workers = ?ws\<rparr>
      \<lparr>unsafe = u', safe = v', r_lock = None, workers = ws'\<rparr>" "length ws' = length ws"
    "\<forall>i < Suc k. ws' ! i = ?ws ! i" "\<forall>i. Suc k \<le> i \<and> i < length ws \<longrightarrow> w_pc (ws' ! i) = R_Return"
    using Suc.hyps(1)[of ?ws "Suc k" "u + int inc" "v + int inc"] Suc.prems(2) by auto
  have "w_pc (ws' ! i) = R_Return" if "k \<le> i" "i < length ws" for i
    using that n(3,4) k(1) by (cases "i = k") auto
  moreover have "\<forall>i < k. ws' ! i = ws ! i"
    using n(3) by auto
  ultimately show ?case
    using rtranclp_trans[OF r] n(1,2) by (intro exI[of _ u'] exI[of _ v'] exI[of _ ws']) simp
qed

text \<open>
  C37: Updates can be lost. With two or more threads there is an interleaving in which all threads
  finish and the unsafe counter ends at the number of increments of a single thread (2000 instead of
  8000 in the program): one thread reads 0, the others run to their end, and it then goes on from
  its stale value.
\<close>

theorem unsafe_counter_loses_updates:
  assumes "2 \<le> n" "0 < inc"
  shows "\<exists>s. (race_step inc)\<^sup>*\<^sup>* (race_start n) s \<and> race_joined s \<and> unsafe s = int inc \<and> unsafe s < int (n * inc)"
proof -
  let ?w = "\<lparr>w_i = 0, w_temp = 0, w_pc = R_Loop\<rparr>" and ?y = "\<lparr>w_i = 0, w_temp = 0, w_pc = R_Yield\<rparr>"
  let ?ws = "(replicate n ?w)[0 := ?y]"
  have "race_start n = \<lparr>unsafe = 0, safe = 0, r_lock = None, workers = (replicate n ?w)[0 := ?w]\<rparr>"
    using assms by (cases n) (simp_all add: race_start_def)
  then have first: "race_step inc (race_start n) \<lparr>unsafe = 0, safe = 0, r_lock = None, workers = ?ws\<rparr>"
    using step_at[of 0 "replicate n ?w" inc ?w 0 0 None ?y 0 0 None] assms by simp
  obtain u v ws where o: "(race_step inc)\<^sup>*\<^sup>* \<lparr>unsafe = 0, safe = 0, r_lock = None, workers = ?ws\<rparr>
      \<lparr>unsafe = u, safe = v, r_lock = None, workers = ws\<rparr>" "length ws = n" "ws ! 0 = ?y"
    "\<forall>i. 1 \<le> i \<and> i < n \<longrightarrow> w_pc (ws ! i) = R_Return"
    using others_finish[of 1 ?ws inc 0 0] assms by auto
  have "at ws 0 0 0 R_Yield u v = \<lparr>unsafe = u, safe = v, r_lock = None, workers = ws\<rparr>"
    using o(3) by (simp flip: o(3))
  then have s: "(race_step inc)\<^sup>*\<^sup>* \<lparr>unsafe = u, safe = v, r_lock = None, workers = ws\<rparr> (at ws 0 1 1 R_Loop 1 (v + 1))"
    using after_read[where j = 0 and ws = ws and inc = inc and i = 0 and tmp = 0 and u = u and v = v] assms o(2) by simp
  obtain tmp where f: "(race_step inc)\<^sup>*\<^sup>* (at ws 0 1 1 R_Loop 1 (v + 1))
      (at ws 0 inc tmp R_Return (1 + int (inc - 1)) (v + 1 + int (inc - 1)))"
    using solo[where j = 0 and ws = ws and i = 1 and inc = inc and tmp = 1 and u = 1 and v = "v + 1"] assms o(2) by auto
  let ?s = "at ws 0 inc tmp R_Return (1 + int (inc - 1)) (v + 1 + int (inc - 1))"
  have "(race_step inc)\<^sup>*\<^sup>* (race_start n) ?s"
    using rtranclp_trans[OF rtranclp_trans[OF converse_rtranclp_into_rtranclp[OF first o(1)] s] f] .
  moreover have "w_pc (ws[0 := \<lparr>w_i = inc, w_temp = tmp, w_pc = R_Return\<rparr>] ! i) = R_Return" if "i < n" for i
    using o(2,4) that by (cases i) auto
  then have "race_joined ?s"
    using o(2) by (auto simp: race_joined_def in_set_conv_nth)
  moreover have "unsafe ?s = int inc" "int inc < int (n * inc)"
    using assms by auto
  ultimately show ?thesis
    by (intro exI[of _ ?s]) simp
qed

theorem unsafe_counter_loses_updates_witness:
  "\<exists>s. (race_step INCREMENTS_PER_THREAD)\<^sup>*\<^sup>* (race_start NUM_PROCESSES) s \<and> race_joined s \<and> unsafe s = 2000"
  using unsafe_counter_loses_updates[of NUM_PROCESSES INCREMENTS_PER_THREAD]
  by (auto simp: NUM_PROCESSES_def INCREMENTS_PER_THREAD_def)

theorem counters_at_the_end_witness:
  "\<exists>s. (race_step INCREMENTS_PER_THREAD)\<^sup>*\<^sup>* (race_start NUM_PROCESSES) s \<and> race_joined s \<and> safe s = 8000"
proof -
  obtain s where s: "(race_step INCREMENTS_PER_THREAD)\<^sup>*\<^sup>* (race_start NUM_PROCESSES) s" "race_joined s"
    using rc.reaches_final[OF race_inv_start] by blast
  then show ?thesis
    using counters_at_the_end[OF s] by (intro exI[of _ s]) (simp add: NUM_PROCESSES_def INCREMENTS_PER_THREAD_def)
qed

end
