(* ===== verification/Deadlock.thy ===== *)
theory Deadlock
  imports Transitions
begin

text \<open>
  \<open>deadlock_demo.c\<close>: two threads and two mutexes, in the safe build (every thread locks
  \<open>resource_1\<close> before \<open>resource_2\<close>) and in the unsafe one. A thread is the list of the
  calls it still has to make; a step is one call of one thread, and a lock is blocked while the
  mutex is held. The lock-ordering argument is made once for any number of threads and mutexes.
\<close>

section \<open>The code\<close>

datatype instr = Print string | Sleep | Lock nat | Unlock nat

record threads =
  code :: "instr list list"
  owner :: "nat \<Rightarrow> nat option"
  printed :: "string list"

definition resource_1 :: nat where "resource_1 = 1"
definition resource_2 :: nat where "resource_2 = 2"

definition thread_a_safe :: "instr list" where
  "thread_a_safe =
     [Print ''[Thread A] locking resource_1...'', Lock resource_1,
      Print ''[Thread A] got resource_1, sleeping briefly...'', Sleep,
      Print ''[Thread A] locking resource_2...'', Lock resource_2,
      Print ''[Thread A] got both locks!'', Unlock resource_2, Unlock resource_1]"

definition thread_b_safe :: "instr list" where
  "thread_b_safe =
     [Print ''[Thread B] locking resource_1...'', Lock resource_1,
      Print ''[Thread B] got resource_1, sleeping briefly...'', Sleep,
      Print ''[Thread B] locking resource_2...'', Lock resource_2,
      Print ''[Thread B] got both locks!'', Unlock resource_2, Unlock resource_1]"

definition thread_a_unsafe :: "instr list" where
  "thread_a_unsafe =
     [Print ''[Thread A] locking resource_1...'', Lock resource_1,
      Print ''[Thread A] got resource_1, sleeping briefly...'', Sleep,
      Print ''[Thread A] locking resource_2...'', Lock resource_2,
      Print ''[Thread A] got both locks!'', Unlock resource_2, Unlock resource_1]"

definition thread_b_unsafe :: "instr list" where
  "thread_b_unsafe =
     [Print ''[Thread B] locking resource_2...'', Lock resource_2,
      Print ''[Thread B] got resource_2, sleeping briefly...'', Sleep,
      Print ''[Thread B] locking resource_1...'', Lock resource_1,
      Print ''[Thread B] got both locks!'', Unlock resource_1, Unlock resource_2]"

text \<open>The next call of thread \<open>i\<close>; \<open>None\<close> when it has returned or is blocked.\<close>

definition thread_step :: "nat \<Rightarrow> threads \<Rightarrow> threads option" where
  "thread_step i s =
     (case code s ! i of
        [] \<Rightarrow> None
      | c # cs \<Rightarrow>
          let s1 = s\<lparr>code := (code s)[i := cs]\<rparr> in
          (case c of
             Print x \<Rightarrow> Some (s1\<lparr>printed := printed s @ [x]\<rparr>)
           | Sleep \<Rightarrow> Some s1
           | Lock r \<Rightarrow> (if owner s r = None then Some (s1\<lparr>owner := (owner s)(r \<mapsto> i)\<rparr>) else None)
           | Unlock r \<Rightarrow> Some (s1\<lparr>owner := (owner s)(r := None)\<rparr>)))"

inductive threads_step :: "threads \<Rightarrow> threads \<Rightarrow> bool" where
  "i < length (code s) \<Longrightarrow> thread_step i s = Some t \<Longrightarrow> threads_step s t"

inductive_cases threads_stepE: "threads_step s t"

definition start :: "instr list list \<Rightarrow> threads" where
  "start ps = \<lparr>code = ps, owner = Map.empty, printed = []\<rparr>"

definition demo_safe :: threads where "demo_safe = start [thread_a_safe, thread_b_safe]"
definition demo_unsafe :: threads where "demo_unsafe = start [thread_a_unsafe, thread_b_unsafe]"

text \<open>\<open>pthread_join\<close> of every thread returns.\<close>

definition joined :: "threads \<Rightarrow> bool" where
  "joined s \<longleftrightarrow> (\<forall>p\<in>set (code s). p = [])"

text \<open>No thread can move, and not all have returned.\<close>

definition deadlocked :: "threads \<Rightarrow> bool" where
  "deadlocked s \<longleftrightarrow> \<not> joined s \<and> (\<forall>i < length (code s). thread_step i s = None)"

text \<open>A run given by the threads that move, in their order.\<close>

fun schedule :: "nat list \<Rightarrow> threads \<Rightarrow> threads option" where
  "schedule [] s = Some s"
| "schedule (i # ids) s =
     (if i < length (code s) then Option.bind (thread_step i s) (schedule ids) else None)"

lemma schedule_run: "schedule ids s = Some t \<Longrightarrow> threads_step\<^sup>*\<^sup>* s t"
proof (induction ids arbitrary: s)
  case (Cons i ids)
  then obtain u where "i < length (code s)" "thread_step i s = Some u" "schedule ids u = Some t"
    by (auto split: if_splits Option.bind_splits)
  then show ?case
    using Cons.IH threads_step.intros by (meson converse_rtranclp_into_rtranclp)
qed simp

section \<open>Lock ordering\<close>

text \<open>
  The rest of a thread that holds the mutexes \<open>h\<close>: it locks only what is above everything it
  holds, unlocks only what it holds, and holds nothing when it returns.
\<close>

fun ordered :: "nat set \<Rightarrow> instr list \<Rightarrow> bool" where
  "ordered h [] \<longleftrightarrow> h = {}"
| "ordered h (Lock r # cs) \<longleftrightarrow> (\<forall>x\<in>h. x < r) \<and> ordered (insert r h) cs"
| "ordered h (Unlock r # cs) \<longleftrightarrow> r \<in> h \<and> ordered (h - {r}) cs"
| "ordered h (_ # cs) \<longleftrightarrow> ordered h cs"

definition held :: "threads \<Rightarrow> nat \<Rightarrow> nat set" where
  "held s i = {r. owner s r = Some i}"

definition order_inv :: "threads \<Rightarrow> bool" where
  "order_inv s \<longleftrightarrow> (\<forall>i < length (code s). ordered (held s i) (code s ! i)) \<and>
     (\<forall>r i. owner s r = Some i \<longrightarrow> i < length (code s)) \<and> finite (dom (owner s))"

definition calls_left :: "threads \<Rightarrow> nat" where
  "calls_left s = sum_list (map length (code s))"

lemma thread_step_code:
  assumes "thread_step i s = Some t" "i < length (code s)"
  obtains c cs where "code s ! i = c # cs" "code t = (code s)[i := cs]"
  using assms by (cases "code s ! i") (auto simp: thread_step_def Let_def split: instr.splits if_splits)

lemma order_inv_step:
  assumes "order_inv s" "threads_step s t"
  shows "order_inv t"
proof -
  obtain i where 1: "i < length (code s)" "thread_step i s = Some t"
    using assms(2) by (auto elim: threads_stepE)
  then obtain c cs where c: "code s ! i = c # cs" "code t = (code s)[i := cs]"
    using thread_step_code by metis
  have o: "ordered (held s j) (code s ! j)" if "j < length (code s)" for j
    using assms(1) that by (simp add: order_inv_def)
  have own: "owner s r = Some j \<Longrightarrow> j < length (code s)" for r j
    using assms(1) by (auto simp: order_inv_def)
  have step: "ordered (held t i) cs \<and> (\<forall>j. j \<noteq> i \<longrightarrow> held t j = held s j) \<and>
      (\<forall>r j. owner t r = Some j \<longrightarrow> j < length (code s)) \<and> finite (dom (owner t))"
  proof (cases c)
    case (Lock r)
    then have free: "owner s r = None" and t: "owner t = (owner s)(r \<mapsto> i)"
      using 1 c by (auto simp: thread_step_def Let_def split: if_splits)
    have "held t i = insert r (held s i)" "\<And>j. j \<noteq> i \<Longrightarrow> held t j = held s j"
      using free t by (auto simp: held_def)
    then show ?thesis
      using o[OF 1(1)] c Lock t own 1(1) assms(1) by (auto simp: order_inv_def)
  next
    case (Unlock r)
    then have t: "owner t = (owner s)(r := None)"
      using 1 c by (auto simp: thread_step_def Let_def)
    have mine: "owner s r = Some i"
      using o[OF 1(1)] c Unlock by (simp add: held_def)
    have "held t i = held s i - {r}" "\<And>j. j \<noteq> i \<Longrightarrow> held t j = held s j"
      using t mine by (auto simp: held_def)
    then show ?thesis
      using o[OF 1(1)] c Unlock t own assms(1) by (auto simp: order_inv_def split: if_splits)
  qed (use 1 c o[OF 1(1)] own assms(1) in \<open>auto simp: thread_step_def held_def Let_def order_inv_def\<close>)
  have "ordered (held t j) (code t ! j)" if "j < length (code s)" for j
    using step o[OF that] that c by (cases "j = i") auto
  then show ?thesis
    using step c by (simp add: order_inv_def)
qed

lemma calls_left_step: "threads_step s t \<Longrightarrow> calls_left t < calls_left s"
proof -
  assume "threads_step s t"
  then obtain i where 1: "i < length (code s)" "thread_step i s = Some t"
    by (auto elim: threads_stepE)
  then obtain c cs where c: "code s ! i = c # cs" "code t = (code s)[i := cs]"
    using thread_step_code by metis
  have "code s = take i (code s) @ (c # cs) # drop (Suc i) (code s)"
    using id_take_nth_drop[OF 1(1)] c by simp
  moreover have "code t = take i (code s) @ cs # drop (Suc i) (code s)"
    unfolding c(2) by (rule upd_conv_take_nth_drop[OF 1(1)])
  moreover have "sum_list (map length (xs @ cs # ys)) < sum_list (map length (xs @ (c # cs) # ys))" for xs ys
    by simp
  ultimately show ?thesis
    unfolding calls_left_def by metis
qed

text \<open>The lock-ordering argument: of the mutexes waited for, the greatest has a holder that can move.\<close>

lemma ordered_progress:
  assumes "order_inv s" "\<not> joined s"
  shows "\<exists>t. threads_step s t"
proof (rule ccontr)
  assume stuck: "\<not> (\<exists>t. threads_step s t)"
  have blocked: "\<exists>r cs j. code s ! i = Lock r # cs \<and> owner s r = Some j"
    if i: "i < length (code s)" "code s ! i \<noteq> []" for i
  proof -
    have "thread_step i s = None"
      using stuck i(1) threads_step.intros by (cases "thread_step i s") auto
    then show ?thesis
      using i by (cases "code s ! i") (auto simp: thread_step_def Let_def split: instr.splits if_splits)
  qed
  define waited where "waited = {r. \<exists>i cs. i < length (code s) \<and> code s ! i = Lock r # cs}"
  obtain i where i: "i < length (code s)" "code s ! i \<noteq> []"
    using assms(2) by (auto simp: joined_def in_set_conv_nth)
  then have ne: "waited \<noteq> {}"
    using blocked[OF i] by (auto simp: waited_def)
  have "waited \<subseteq> dom (owner s)"
    using blocked by (fastforce simp: waited_def)
  then have fin: "finite waited"
    using assms(1) finite_subset by (auto simp: order_inv_def)
  define r where "r = Max waited"
  have "r \<in> waited"
    using ne fin by (simp add: r_def)
  then obtain j cs where "j < length (code s)" "code s ! j = Lock r # cs"
    by (auto simp: waited_def)
  then obtain h where h: "owner s r = Some h"
    using blocked[of j] by auto
  then have h_len: "h < length (code s)" "ordered (held s h) (code s ! h)" "r \<in> held s h"
    using assms(1) by (auto simp: order_inv_def held_def)
  then have "code s ! h \<noteq> []"
    by auto
  then obtain r' ds where "code s ! h = Lock r' # ds"
    using blocked[OF h_len(1)] by blast
  then have "r < r'" "r' \<in> waited"
    using h_len by (auto simp: waited_def)
  then show False
    using Max_ge[OF fin, of r'] by (simp add: r_def)
qed

interpretation lo: finishing_system threads_step order_inv calls_left joined
  by unfold_locales (blast intro: order_inv_step calls_left_step ordered_progress)+

lemma start_ordered: "list_all (ordered {}) ps \<Longrightarrow> order_inv (start ps)"
  by (auto simp: order_inv_def start_def held_def list_all_length)

lemma demo_ordered: "list_all (ordered {}) [thread_a_safe, thread_b_safe]"
  by (simp add: thread_a_safe_def thread_b_safe_def resource_1_def resource_2_def insert_Diff_if)

section \<open>Properties\<close>

text \<open>
  C15: Lock ordering prevents deadlock. Take any number of threads each of which locks a mutex only
  while every mutex it holds is smaller, unlocks only what it holds, and holds nothing when it returns.
  Whatever the interleaving, they never deadlock: no reachable state is stuck before all threads have
  returned, no run makes more calls than the threads contain, and all threads can return. Both threads
  of the safe build are such threads.
\<close>

theorem lock_ordering_prevents_deadlock:
  assumes "list_all (ordered {}) ps"
  shows "list_all (ordered {}) [thread_a_safe, thread_b_safe] \<and>
    (\<forall>s. threads_step\<^sup>*\<^sup>* (start ps) s \<longrightarrow> \<not> deadlocked s) \<and>
    (\<forall>n s. (threads_step ^^ n) (start ps) s \<longrightarrow> n \<le> sum_list (map length ps)) \<and>
    (\<exists>s. threads_step\<^sup>*\<^sup>* (start ps) s \<and> joined s)"
proof -
  note inv = start_ordered[OF assms]
  have "\<not> deadlocked s" if "threads_step\<^sup>*\<^sup>* (start ps) s" for s
    using lo.progress[OF lo.run_inv[OF that inv]] by (auto simp: deadlocked_def elim!: threads_stepE)
  moreover have "n \<le> sum_list (map length ps)" if "(threads_step ^^ n) (start ps) s" for n s
    using lo.run_length[OF that inv] by (simp add: calls_left_def start_def)
  ultimately show ?thesis
    using lo.reaches_final[OF inv] demo_ordered by blast
qed

text \<open>
  The safe build never hangs: both threads of \<open>deadlock_demo.c\<close> lock \<open>resource_1\<close> before
  \<open>resource_2\<close>; no interleaving gets stuck, none makes more than 18 calls, and both threads join.
\<close>

theorem safe_demo_finishes:
  "(\<forall>s. threads_step\<^sup>*\<^sup>* demo_safe s \<longrightarrow> \<not> deadlocked s) \<and>
   (\<forall>n s. (threads_step ^^ n) demo_safe s \<longrightarrow> n \<le> 18) \<and>
   (\<exists>s. threads_step\<^sup>*\<^sup>* demo_safe s \<and> joined s)"
proof -
  note inv = start_ordered[OF demo_ordered]
  have "\<not> deadlocked s" if "threads_step\<^sup>*\<^sup>* demo_safe s" for s
    using lo.progress[OF lo.run_inv[OF that[unfolded demo_safe_def] inv]]
    by (auto simp: deadlocked_def elim!: threads_stepE)
  moreover have "n \<le> 18" if "(threads_step ^^ n) demo_safe s" for n s
    using lo.run_length[OF that[unfolded demo_safe_def] inv]
    by (simp add: calls_left_def start_def thread_a_safe_def thread_b_safe_def)
  ultimately show ?thesis
    using lo.reaches_final[OF inv] unfolding demo_safe_def by blast
qed

text \<open>
  The unsafe build can hang: there is an interleaving in which each thread locks its first
  mutex and then waits for the other's, and no thread can ever move again.
\<close>

theorem unsafe_demo_deadlocks:
  "\<exists>s. threads_step\<^sup>*\<^sup>* demo_unsafe s \<and> deadlocked s"
proof -
  define ids where "ids = [0, 0, 0, 0, 0, 1, 1, 1, 1, 1::nat]"
  have "\<exists>s. schedule ids demo_unsafe = Some s \<and> deadlocked s"
    by (simp add: ids_def demo_unsafe_def start_def thread_a_unsafe_def thread_b_unsafe_def thread_step_def
        deadlocked_def joined_def resource_1_def resource_2_def less_Suc_eq)
  then show ?thesis
    using schedule_run by blast
qed

text \<open>Thread B asks for the mutex that thread A holds: B waits, and A can go on.\<close>

theorem safe_demo_finishes_witness:
  "\<exists>s. schedule [0, 0, 1] demo_safe = Some s \<and> thread_step 1 s = None \<and> \<not> deadlocked s"
proof -
  have "\<exists>s. schedule [0, 0, 1] demo_safe = Some s \<and> thread_step 1 s = None"
    by (simp add: demo_safe_def start_def thread_a_safe_def thread_b_safe_def thread_step_def resource_1_def)
  then show ?thesis
    using schedule_run safe_demo_finishes by blast
qed

theorem lock_ordering_prevents_deadlock_witness:
  "\<exists>s. threads_step\<^sup>*\<^sup>* (start [[Lock 1, Lock 3, Unlock 3, Unlock 1], [Lock 2, Unlock 2]]) s \<and> joined s"
proof -
  have "list_all (ordered {}) [[Lock 1, Lock 3, Unlock 3, Unlock 1], [Lock 2, Unlock 2]]"
    by (simp add: insert_Diff_if)
  from lock_ordering_prevents_deadlock[OF this] show ?thesis
    by blast
qed

end
