(* ===== verification/Demo_Main.thy ===== *)
theory Demo_Main
  imports Prelude Scheduler Race Deadlock
begin

text \<open>
  The two \<open>main\<close> functions of \<open>task1_process_threading\<close>: what the programs print, from the first line
  to the last, over all interleavings of their threads. \<open>scheduler.c\<close> runs the scheduler and then
  the counter threads; \<open>deadlock_demo.c\<close> prints its last line only if both threads can be joined.
\<close>

section \<open>The scheduler program\<close>

fun shown_line :: "shown \<Rightarrow> string" where
  "shown_line (Ran p run before) = ''[P'' @ int_text p @ ''] running for '' @ int_text run @
     '' unit(s) (remaining before run: '' @ int_text before @ '')'' @ [NL]"
| "shown_line (Finished p) = ''[P'' @ int_text p @ ''] FINISHED'' @ [NL]"

definition sched_text :: "sched \<Rightarrow> string" where
  "sched_text s = ''=== Round-Robin Scheduler Simulation (quantum = '' @ int_text TIME_QUANTUM @ '') ==='' @ [NL] @
     concat (map shown_line (out s)) @ ''=== All processes completed ==='' @ [NL, NL]"

definition race_text :: "nat \<Rightarrow> nat \<Rightarrow> race \<Rightarrow> string" where
  "race_text n inc s =
     (case race_report n inc s of (expected, u, lost, v, ok) \<Rightarrow>
        ''=== Race Condition Demo ('' @ decimal n @ '' threads x '' @ decimal inc @ '' increments) ==='' @ [NL] @
        ''Expected value:            '' @ int_text expected @ [NL] @
        ''Unsafe counter (no lock):  '' @ int_text u @ ''  (lost updates = '' @ int_text lost @ '')'' @ [NL] @
        ''Safe counter (with mutex): '' @ int_text v @ ''  (matches expected: '' @
          (if ok then ''YES'' else ''NO'') @ '')'' @ [NL])"

text \<open>
  The end of \<open>main\<close> destroys the semaphores and the mutex and returns 0. To destroy a semaphore at
  which a thread waits, or a locked mutex, is undefined (\<open>None\<close>). The mutex is the one of the
  scheduler, which has to leave it unlocked for the counter threads.
\<close>

definition waiting_at_semaphore :: "sched \<Rightarrow> bool" where
  "waiting_at_semaphore s \<longleftrightarrow> list_ex (\<lambda>c. c = T_Wait) (tpcs s) \<or> waited (disp s) \<noteq> None"

definition main_cleanup :: "sched \<Rightarrow> race \<Rightarrow> int option" where
  "main_cleanup s r =
     (if waiting_at_semaphore s \<or> pcb_lock s \<noteq> None \<or> r_lock r \<noteq> None then None else Some 0)"

text \<open>What a run of the program may print and return: one result for every pair of interleavings.\<close>

inductive scheduler_main :: "int list \<Rightarrow> nat \<Rightarrow> string \<Rightarrow> int option \<Rightarrow> bool" for bursts inc where
  "\<lbrakk>sched_step\<^sup>*\<^sup>* (sched_start bursts) s; sched_finished s;
    (race_step inc)\<^sup>*\<^sup>* (race_start (length bursts)) r; race_joined r\<rbrakk>
   \<Longrightarrow> scheduler_main bursts inc (sched_text s @ race_text (length bursts) inc r) (main_cleanup s r)"

inductive_cases scheduler_mainE: "scheduler_main bursts inc shown_text result"

lemma main_cleanup_ok:
  assumes "list_all (\<lambda>b. 0 < b) bursts" "sched_step\<^sup>*\<^sup>* (sched_start bursts) s" "sched_finished s"
    and "(race_step inc)\<^sup>*\<^sup>* (race_start n) r" "race_joined r"
  shows "main_cleanup s r = Some 0"
proof -
  have "sched_inv s"
    by (rule rr.run_inv[OF assms(2) sched_inv_start[OF assms(1)]])
  then have "pcb_lock s = None" "\<not> waiting_at_semaphore s"
    using assms(3) by (auto simp: sched_inv_def sched_finished_def waiting_at_semaphore_def list_ex_iff)
  moreover have "race_inv inc r"
    by (rule rc.run_inv[OF assms(4) race_inv_start])
  then have "\<And>j. r_lock r \<noteq> Some j"
    using assms(5) unfolding race_inv_def race_joined_def by (metis insertE nth_mem singletonD wpc.distinct(39,41))
  ultimately show ?thesis
    by (simp add: main_cleanup_def)
qed

lemma scheduler_out:
  assumes "list_all (\<lambda>b. 0 < b) bursts" "sched_step\<^sup>*\<^sup>* (sched_start bursts) s" "sched_finished s"
  shows "out s = round_robin bursts"
  using trace_run[OF assms(2) sched_inv_start[OF assms(1)]] finished_no_steps[OF assms(3)]
  by (simp add: concat_steps_left_start)

definition demo_slices :: "shown list" where
  "demo_slices = [Ran 1 2 6, Ran 2 2 4, Ran 3 2 8, Ran 4 2 2, Finished 4, Ran 1 2 4, Ran 2 2 2, Finished 2,
     Ran 3 2 6, Ran 1 2 2, Finished 1, Ran 3 2 4, Ran 3 2 2, Finished 3]"

lemma demo_round_robin: "round_robin burst_times = demo_slices"
  by (simp add: burst_times_def demo_slices_def round_robin.simps shown_slice_def leave_def slice_def TIME_QUANTUM_def)

text \<open>
  C23: The output of the scheduler program. Whatever the operating system does with its threads, the
  program of \<open>scheduler.c\<close> can be run to its end, and then it has printed exactly this text (P1 to
  P4 with 6, 4, 8 and 2 units of work, a quantum of 2), but for one number: the value of the unsafe
  counter, which lies between 1 and 8000 and is followed by what is missing to 8000. Its last part
  destroys no semaphore a thread waits at and no locked mutex, and it returns 0.
\<close>

theorem scheduler_program_prints:
  "(\<exists>shown_text. scheduler_main burst_times INCREMENTS_PER_THREAD shown_text (Some 0)) \<and>
   (\<forall>shown_text result. scheduler_main burst_times INCREMENTS_PER_THREAD shown_text result \<longrightarrow> result = Some 0 \<and> (\<exists>u. 1 \<le> u \<and> u \<le> 8000 \<and>
      shown_text = ''=== Round-Robin Scheduler Simulation (quantum = 2) ==='' @ [NL] @
        concat (map shown_line demo_slices) @
        ''=== All processes completed ==='' @ [NL, NL] @
        ''=== Race Condition Demo (4 threads x 2000 increments) ==='' @ [NL] @
        ''Expected value:            8000'' @ [NL] @
        ''Unsafe counter (no lock):  '' @ int_text u @ ''  (lost updates = '' @ int_text (8000 - u) @ '')'' @ [NL] @
        ''Safe counter (with mutex): 8000  (matches expected: YES)'' @ [NL]))"
proof (rule conjI)
  show "\<exists>shown_text. scheduler_main burst_times INCREMENTS_PER_THREAD shown_text (Some 0)"
    using rr.reaches_final[OF sched_inv_start[OF burst_times_pos]]
      rc.reaches_final[OF race_inv_start[of INCREMENTS_PER_THREAD "length burst_times"]]
    by (metis scheduler_main.intros main_cleanup_ok[OF burst_times_pos])
  show "\<forall>shown_text result. scheduler_main burst_times INCREMENTS_PER_THREAD shown_text result \<longrightarrow> result = Some 0 \<and> (\<exists>u. 1 \<le> u \<and> u \<le> 8000 \<and>
      shown_text = ''=== Round-Robin Scheduler Simulation (quantum = 2) ==='' @ [NL] @
        concat (map shown_line demo_slices) @
        ''=== All processes completed ==='' @ [NL, NL] @
        ''=== Race Condition Demo (4 threads x 2000 increments) ==='' @ [NL] @
        ''Expected value:            8000'' @ [NL] @
        ''Unsafe counter (no lock):  '' @ int_text u @ ''  (lost updates = '' @ int_text (8000 - u) @ '')'' @ [NL] @
        ''Safe counter (with mutex): 8000  (matches expected: YES)'' @ [NL])"
  proof (intro allI impI, elim scheduler_mainE)
    fix shown_text result s r
    assume s: "sched_step\<^sup>*\<^sup>* (sched_start burst_times) s" "sched_finished s"
      and r: "(race_step INCREMENTS_PER_THREAD)\<^sup>*\<^sup>* (race_start (length burst_times)) r" "race_joined r"
      and shown_text: "shown_text = sched_text s @ race_text (length burst_times) INCREMENTS_PER_THREAD r"
      and result: "result = main_cleanup s r"
    have n: "length burst_times * INCREMENTS_PER_THREAD = 8000" "length burst_times = 4" "INCREMENTS_PER_THREAD = 2000"
      by (simp_all add: burst_times_def INCREMENTS_PER_THREAD_def)
    have o: "out s = demo_slices"
      using scheduler_out[OF burst_times_pos s] demo_round_robin by simp
    have rep: "race_report (length burst_times) INCREMENTS_PER_THREAD r = (8000, unsafe r, 8000 - unsafe r, 8000, True)"
      "1 \<le> unsafe r" "unsafe r \<le> 8000"
      using race_at_end[OF r] n by auto
    have num: "int_text 8000 = ''8000''" "decimal 4 = ''4''" "decimal 2000 = ''2000''" "int_text TIME_QUANTUM = ''2''"
      by (simp_all add: int_text_def decimal.simps TIME_QUANTUM_def)
    have "shown_text = ''=== Round-Robin Scheduler Simulation (quantum = 2) ==='' @ [NL] @
        concat (map shown_line demo_slices) @
        ''=== All processes completed ==='' @ [NL, NL] @
        ''=== Race Condition Demo (4 threads x 2000 increments) ==='' @ [NL] @
        ''Expected value:            8000'' @ [NL] @
        ''Unsafe counter (no lock):  '' @ int_text (unsafe r) @ ''  (lost updates = '' @ int_text (8000 - unsafe r) @ '')'' @ [NL] @
        ''Safe counter (with mutex): 8000  (matches expected: YES)'' @ [NL]"
      unfolding shown_text sched_text_def race_text_def rep(1)[unfolded n(2,3)] n(2,3) o num prod.case if_True by simp
    then show "result = Some 0 \<and> (\<exists>u. 1 \<le> u \<and> u \<le> 8000 \<and>
      shown_text = ''=== Round-Robin Scheduler Simulation (quantum = 2) ==='' @ [NL] @
        concat (map shown_line demo_slices) @
        ''=== All processes completed ==='' @ [NL, NL] @
        ''=== Race Condition Demo (4 threads x 2000 increments) ==='' @ [NL] @
        ''Expected value:            8000'' @ [NL] @
        ''Unsafe counter (no lock):  '' @ int_text u @ ''  (lost updates = '' @ int_text (8000 - u) @ '')'' @ [NL] @
        ''Safe counter (with mutex): 8000  (matches expected: YES)'' @ [NL])"
      using rep(2,3) main_cleanup_ok[OF burst_times_pos s r] result by blast
  qed
qed

theorem scheduler_program_prints_witness:
  "\<exists>u all_text before. scheduler_main burst_times INCREMENTS_PER_THREAD all_text (Some 0) \<and> 1 \<le> u \<and> u \<le> 8000 \<and>
     all_text = before @ ''Unsafe counter (no lock):  '' @ int_text u @ ''  (lost updates = '' @ int_text (8000 - u) @ '')'' @ [NL] @
        ''Safe counter (with mutex): 8000  (matches expected: YES)'' @ [NL]"
proof -
  obtain t where t: "scheduler_main burst_times INCREMENTS_PER_THREAD t (Some 0)"
    using scheduler_program_prints by blast
  obtain u where u: "1 \<le> u" "u \<le> 8000" "t =
      (''=== Round-Robin Scheduler Simulation (quantum = 2) ==='' @ [NL] @ concat (map shown_line demo_slices) @
        ''=== All processes completed ==='' @ [NL, NL] @
        ''=== Race Condition Demo (4 threads x 2000 increments) ==='' @ [NL] @
        ''Expected value:            8000'' @ [NL]) @
      ''Unsafe counter (no lock):  '' @ int_text u @ ''  (lost updates = '' @ int_text (8000 - u) @ '')'' @ [NL] @
        ''Safe counter (with mutex): 8000  (matches expected: YES)'' @ [NL]"
    using scheduler_program_prints t by (auto simp only: append_assoc)
  show ?thesis
    by (rule exI[of _ u], rule exI[of _ t], rule exI, intro conjI, rule t, rule u(1), rule u(2), rule u(3))
qed

section \<open>Waiting\<close>

definition is_run :: "shown \<Rightarrow> bool" where
  "is_run e = (case e of Ran _ _ _ \<Rightarrow> True | Finished _ \<Rightarrow> False)"

text \<open>The slices that are run, by all processes, until the given process has finished.\<close>

definition slices_until :: "int \<Rightarrow> shown list \<Rightarrow> nat" where
  "slices_until q evs = length (filter is_run (takeWhile (\<lambda>e. e \<noteq> Finished q) evs))"

lemma runs_pass: "length (filter is_run (pass i rs)) \<le> length rs"
  by (induction i rs rule: pass.induct) (auto simp: shown_slice_def is_run_def)

lemma ends_mem: "Finished q \<in> set evs \<longleftrightarrow> 0 < ends q evs"
  by (induction evs) (auto simp: ends_def)

lemma length_filter_takeWhile: "length (filter P (takeWhile Q xs)) \<le> length (filter P xs)"
  by (induction xs) auto

lemma waiting:
  assumes "list_all (\<lambda>r. 0 \<le> r) rs" "j < length rs" "0 < rs ! j"
  shows "slices_until (int j + 1) (round_robin rs) \<le> length rs * nat ((rs ! j + 1) div 2)"
  using assms
proof (induction rs rule: round_robin.induct)
  case (1 rs)
  have rr: "round_robin rs = pass 0 rs @ round_robin (map leave rs)" and not_done: "\<not> list_all (\<lambda>r. r \<le> 0) rs"
    using "1.prems"(2,3) by (subst round_robin.simps, auto simp: list_all_length not_le)
  have e: "ends (int j + 1) (pass 0 rs) = (if rs ! j \<le> TIME_QUANTUM then 1 else 0)"
    using shares_pass[of j rs 0] "1.prems"(2,3) by simp
  show ?case
  proof (cases "rs ! j \<le> 2")
    case True
    then have "Finished (int j + 1) \<in> set (pass 0 rs)"
      using e by (simp add: ends_mem TIME_QUANTUM_def)
    then have "slices_until (int j + 1) (round_robin rs) \<le> length rs"
      using le_trans[OF length_filter_takeWhile runs_pass[of 0 rs]]
      by (simp add: slices_until_def rr takeWhile_append1)
    moreover have "1 \<le> nat ((rs ! j + 1) div 2)"
      using "1.prems"(3) by linarith
    ultimately show ?thesis
      using le_trans mult_le_mono2[of 1 "nat ((rs ! j + 1) div 2)" "length rs"] by fastforce
  next
    case False
    then have "\<forall>x\<in>set (pass 0 rs). x \<noteq> Finished (int j + 1)"
      using e ends_mem[of "int j + 1" "pass 0 rs"] by (auto simp: TIME_QUANTUM_def)
    then have "slices_until (int j + 1) (round_robin rs) =
        length (filter is_run (pass 0 rs)) + slices_until (int j + 1) (round_robin (map leave rs))"
      by (simp add: slices_until_def rr takeWhile_append2)
    also have "\<dots> \<le> length rs + length rs * nat ((leave (rs ! j) + 1) div 2)"
    proof (rule add_mono[OF runs_pass])
      have "leave (rs ! j) = rs ! j - 2"
        using False by (simp add: leave_def slice_def TIME_QUANTUM_def)
      then show "slices_until (int j + 1) (round_robin (map leave rs)) \<le> length rs * nat ((leave (rs ! j) + 1) div 2)"
        using "1.IH"[OF not_done] "1.prems" False by (simp add: list_all_length)
    qed
    also have "\<dots> = length rs * nat ((rs ! j + 1) div 2)"
    proof -
      have "Suc (nat ((leave (rs ! j) + 1) div 2)) = nat ((rs ! j + 1) div 2)"
        using half_up[OF "1.prems"(3)] False by (simp add: leave_def slice_def TIME_QUANTUM_def)
      then show ?thesis
        by (metis mult_Suc_right)
    qed
    finally show ?thesis .
  qed
qed

text \<open>
  C29: Nobody waits for long. In every finished run of the scheduler, started with n processes of
  positive bursts, each of them finishes, and one with a burst of b units has done so by the time
  n times b/2 (rounded up) slices, of all processes together, have been run.
\<close>

theorem no_process_starves:
  assumes "list_all (\<lambda>b. 0 < b) bursts" "sched_step\<^sup>*\<^sup>* (sched_start bursts) s" "sched_finished s"
    and "j < length bursts"
  shows "Finished (int j + 1) \<in> set (out s) \<and>
    slices_until (int j + 1) (out s) \<le> length bursts * nat ((bursts ! j + 1) div 2)"
proof -
  have b: "list_all (\<lambda>r. 0 \<le> r) bursts" "0 < bursts ! j"
    using assms(1,4) by (auto simp: list_all_length)
  have "ends (int j + 1) (round_robin bursts) = 1"
    using shares_round_robin[OF b(1) assms(4)] b(2) by simp
  then have "Finished (int j + 1) \<in> set (round_robin bursts)"
    by (simp add: ends_mem)
  then show ?thesis
    using waiting[OF b(1) assms(4) b(2)] scheduler_out[OF assms(1-3)] by simp
qed

theorem no_process_starves_witness:
  "\<exists>s. sched_step\<^sup>*\<^sup>* (sched_start burst_times) s \<and> sched_finished s \<and> slices_until 4 (out s) \<le> 4 \<and>
     slices_until 3 (out s) \<le> 16"
proof -
  obtain s where s: "sched_step\<^sup>*\<^sup>* (sched_start burst_times) s" "sched_finished s"
    using rr.reaches_final[OF sched_inv_start[OF burst_times_pos]] by blast
  then show ?thesis
    using no_process_starves[OF burst_times_pos s, of 3] no_process_starves[OF burst_times_pos s, of 2]
    by (intro exI[of _ s]) (simp add: burst_times_def)
qed

section \<open>The deadlock program\<close>

definition safe_header :: string where
  "safe_header = ''=== SAFE MODE: consistent lock ordering (deadlock-free) ===''"

definition unsafe_header :: string where
  "unsafe_header = ''=== UNSAFE MODE: inconsistent lock ordering (may deadlock) ===''"

definition completed :: string where
  "completed = ''=== Program completed without hanging ===''"

text \<open>
  The lines printed when the threads have come to a state: \<open>main\<close> prints the first line before it
  creates them, waits in \<open>pthread_join\<close>, and prints the last line once both have returned.
\<close>

definition demo_lines :: "string \<Rightarrow> threads \<Rightarrow> string list" where
  "demo_lines header s = header # printed s @ (if joined s then [completed] else [])"

definition stuck :: "threads \<Rightarrow> bool" where
  "stuck s \<longleftrightarrow> list_all (\<lambda>i. thread_step i s = None) [0..<length (code s)]"

lemma stuck_no_step: "stuck s \<longleftrightarrow> (\<nexists>t. threads_step s t)"
  by (auto simp: stuck_def list_all_iff intro: threads_step.intros elim!: threads_stepE)
    (metis atLeastLessThan_iff not_None_eq threads_step.intros zero_le)

text \<open>
  Where the unsafe build can be: thread A has made \<open>k\<close> of its nine calls, thread B \<open>m\<close>, and the owners of
  the two mutexes follow from that.
\<close>

definition unsafe_at :: "nat \<Rightarrow> nat \<Rightarrow> threads \<Rightarrow> bool" where
  "unsafe_at k m s \<longleftrightarrow> k \<le> 9 \<and> m \<le> 9 \<and> code s = [drop k thread_a_unsafe, drop m thread_b_unsafe] \<and>
     owner s resource_1 = (if k \<in> {2..8} then Some 0 else if m \<in> {6, 7} then Some 1 else None) \<and>
     owner s resource_2 = (if m \<in> {2..8} then Some 1 else if k \<in> {6, 7} then Some 0 else None) \<and>
     \<not> (k \<in> {2..8} \<and> m \<in> {6, 7}) \<and> \<not> (m \<in> {2..8} \<and> k \<in> {6, 7})"

definition unsafe_inv :: "threads \<Rightarrow> bool" where
  "unsafe_inv s \<longleftrightarrow> (\<exists>k m. unsafe_at k m s)"

lemma nine: "k \<le> 9 \<longleftrightarrow> k \<in> {0, 1, 2, 3, 4, 5, 6, 7, 8, 9 :: nat}"
  by auto

lemma resources_differ [simp]: "resource_1 \<noteq> resource_2" "resource_2 \<noteq> resource_1"
  by (simp_all add: resource_1_def resource_2_def)

lemma step_a:
  assumes "unsafe_at k m s" "thread_step 0 s = Some t"
  shows "unsafe_at (Suc k) m t"
proof -
  have k: "k \<in> {0, 1, 2, 3, 4, 5, 6, 7, 8, 9}"
    using assms(1) nine by (auto simp: unsafe_at_def)
  show ?thesis
    using k assms
    by (elim insertE emptyE)
      (auto simp: unsafe_at_def thread_step_def thread_a_unsafe_def Let_def split: if_splits)
qed

lemma step_b:
  assumes "unsafe_at k m s" "thread_step 1 s = Some t"
  shows "unsafe_at k (Suc m) t"
proof -
  have m: "m \<in> {0, 1, 2, 3, 4, 5, 6, 7, 8, 9}"
    using assms(1) nine by (auto simp: unsafe_at_def)
  show ?thesis
    using m assms
    by (elim insertE emptyE)
      (auto simp: unsafe_at_def thread_step_def thread_b_unsafe_def Let_def split: if_splits)
qed

lemma unsafe_step:
  assumes "unsafe_at k m s" "threads_step s t"
  shows "unsafe_at (Suc k) m t \<or> unsafe_at k (Suc m) t"
proof -
  obtain i where i: "i < length (code s)" "thread_step i s = Some t"
    using assms(2) by (auto elim: threads_stepE)
  then have "i = 0 \<or> i = 1"
    using assms(1) by (auto simp: unsafe_at_def)
  then show ?thesis
    using i(2) step_a[OF assms(1)] step_b[OF assms(1)] by auto
qed

lemma unsafe_run: "threads_step\<^sup>*\<^sup>* demo_unsafe s \<Longrightarrow> unsafe_inv s"
proof (induction rule: rtranclp_induct)
  case base
  have "unsafe_at 0 0 demo_unsafe"
    by (simp add: unsafe_at_def demo_unsafe_def start_def)
  then show ?case
    by (auto simp: unsafe_inv_def)
next
  case (step s t)
  then show ?case
    using unsafe_step unfolding unsafe_inv_def by blast
qed

lemma a_blocked:
  assumes "unsafe_at k m s" "thread_step 0 s = None"
  shows "k = 9 \<or> k = 1 \<and> m \<in> {6, 7} \<or> k = 5 \<and> m \<in> {2..8}"
proof -
  have "k \<in> {0, 1, 2, 3, 4, 5, 6, 7, 8, 9}"
    using assms(1) nine by (auto simp: unsafe_at_def)
  then show ?thesis
    using assms
    by (elim insertE emptyE)
      (auto simp: unsafe_at_def thread_step_def thread_a_unsafe_def Let_def split: if_splits)
qed

lemma b_blocked:
  assumes "unsafe_at k m s" "thread_step 1 s = None"
  shows "m = 9 \<or> m = 1 \<and> k \<in> {6, 7} \<or> m = 5 \<and> k \<in> {2..8}"
proof -
  have "m \<in> {0, 1, 2, 3, 4, 5, 6, 7, 8, 9}"
    using assms(1) nine by (auto simp: unsafe_at_def)
  then show ?thesis
    using assms
    by (elim insertE emptyE)
      (auto simp: unsafe_at_def thread_step_def thread_b_unsafe_def Let_def split: if_splits)
qed

text \<open>Each thread waits for the mutex that the other one holds.\<close>

definition each_waits :: "threads \<Rightarrow> bool" where
  "each_waits s \<longleftrightarrow> owner s resource_1 = Some 0 \<and> owner s resource_2 = Some 1 \<and>
     take 1 (code s ! 0) = [Lock resource_2] \<and> take 1 (code s ! 1) = [Lock resource_1]"

lemma unsafe_stuck:
  assumes "unsafe_inv s" "stuck s"
  shows "joined s \<or> each_waits s"
proof -
  obtain k m where u: "unsafe_at k m s"
    using assms(1) by (auto simp: unsafe_inv_def)
  then have "length (code s) = 2"
    by (simp add: unsafe_at_def)
  then have none: "thread_step 0 s = None" "thread_step 1 s = None"
    using assms(2) by (simp_all add: stuck_def upt_rec)
  then consider "k = 9" "m = 9" | "k = 5" "m = 5"
    using a_blocked[OF u] b_blocked[OF u] by auto
  then show ?thesis
  proof cases
    case 1
    then show ?thesis
      using u by (auto simp: unsafe_at_def joined_def thread_a_unsafe_def thread_b_unsafe_def)
  next
    case 2
    then show ?thesis
      using u by (auto simp: unsafe_at_def each_waits_def thread_a_unsafe_def thread_b_unsafe_def)
  qed
qed

text \<open>Once each thread has its first mutex and has still to lock its second, the last line is out of reach.\<close>

definition each_has_first :: "threads \<Rightarrow> bool" where
  "each_has_first s \<longleftrightarrow> owner s resource_1 = Some 0 \<and> owner s resource_2 = Some 1 \<and>
     Lock resource_2 \<in> set (code s ! 0) \<and> Lock resource_1 \<in> set (code s ! 1)"

lemma first_locks:
  assumes "unsafe_at k m s" "each_has_first s"
  shows "k \<in> {2..5}" "m \<in> {2..5}"
proof -
  have "k \<in> {0, 1, 2, 3, 4, 5, 6, 7, 8, 9}" "m \<in> {0, 1, 2, 3, 4, 5, 6, 7, 8, 9}"
    using assms(1) nine by (auto simp: unsafe_at_def)
  moreover have "Lock resource_2 \<in> set (drop k thread_a_unsafe)" "Lock resource_1 \<in> set (drop m thread_b_unsafe)"
      "k \<in> {2..8}" "m \<in> {2..8}"
    using assms by (auto simp: unsafe_at_def each_has_first_def split: if_splits)
  ultimately show "k \<in> {2..5}" "m \<in> {2..5}"
    by (auto simp: thread_a_unsafe_def thread_b_unsafe_def)
qed

lemma doomed:
  assumes "threads_step\<^sup>*\<^sup>* s t" "unsafe_inv s" "each_has_first s"
  shows "\<not> joined t"
proof -
  have "\<exists>k m. unsafe_at k m t \<and> k \<in> {2..5} \<and> m \<in> {2..5}"
    using assms
  proof (induction rule: rtranclp_induct)
    case base
    then obtain k m where u: "unsafe_at k m s"
      by (auto simp: unsafe_inv_def)
    then show ?case
      using first_locks[OF u base(2)] by blast
  next
    case (step t v)
    then obtain k m where u: "unsafe_at k m t" "k \<in> {2..5}" "m \<in> {2..5}"
      by blast
    from unsafe_step[OF u(1) step.hyps(2)] show ?case
    proof
      assume v: "unsafe_at (Suc k) m v"
      then have "Suc k \<noteq> 6"
        using u(3) by (auto simp: unsafe_at_def)
      then show ?case
        using v u(2,3) by (intro exI[of _ "Suc k"] exI[of _ m]) auto
    next
      assume v: "unsafe_at k (Suc m) v"
      then have "Suc m \<noteq> 6"
        using u(2) by (auto simp: unsafe_at_def)
      then show ?case
        using v u(2,3) by (intro exI[of _ k] exI[of _ "Suc m"]) auto
    qed
  qed
  then show ?thesis
    by (auto simp: unsafe_at_def joined_def thread_a_unsafe_def)
qed

text \<open>The threads print nothing but their own lines.\<close>

definition lines_of :: "threads \<Rightarrow> string set" where
  "lines_of s = set (printed s) \<union> {x. \<exists>p\<in>set (code s). Print x \<in> set p}"

lemma lines_of_run: "threads_step\<^sup>*\<^sup>* s t \<Longrightarrow> lines_of t \<subseteq> lines_of s"
proof (induction rule: rtranclp_induct)
  case (step t v)
  then obtain i where i: "i < length (code t)" "thread_step i t = Some v"
    by (auto elim: threads_stepE)
  then obtain c cs where c: "code t ! i = c # cs" "code v = (code t)[i := cs]"
    using thread_step_code by metis
  have "set (code v) \<subseteq> insert cs (set (code t))" "c # cs \<in> set (code t)"
    using c i(1) set_update_subset_insert[of "code t" i cs] nth_mem[OF i(1)] by simp_all
  moreover have "set (printed v) \<subseteq> set (printed t) \<union> {x. c = Print x}"
    using i(2) c by (auto simp: thread_step_def Let_def split: instr.splits if_splits)
  moreover have "\<exists>p\<in>set (code t). Print x \<in> set p" if "c = Print x \<or> Print x \<in> set cs" for x
    using calculation(2) that by (intro bexI[of _ "c # cs"]) auto
  ultimately have "lines_of v \<subseteq> lines_of t"
    unfolding lines_of_def by blast
  then show ?case
    using step.IH by blast
qed simp

lemma completed_printed: "threads_step\<^sup>*\<^sup>* demo_unsafe s \<Longrightarrow> completed \<notin> set (printed s)"
proof -
  assume "threads_step\<^sup>*\<^sup>* demo_unsafe s"
  then have "set (printed s) \<subseteq> lines_of demo_unsafe"
    using lines_of_run[of demo_unsafe s] by (auto simp: lines_of_def)
  moreover have "completed \<notin> lines_of demo_unsafe"
    by (simp add: lines_of_def demo_unsafe_def start_def thread_a_unsafe_def thread_b_unsafe_def completed_def)
  ultimately show ?thesis
    by blast
qed

text \<open>
  C30: How the unsafe build ends. Whatever the interleaving, when no thread of it can move any more,
  either both threads have returned and the program has printed its last line, that it completed
  without hanging, or thread A holds \<open>resource_1\<close> and is blocked at \<open>resource_2\<close> while thread B holds
  \<open>resource_2\<close> and is blocked at \<open>resource_1\<close>, and the last line is never printed. Both endings occur; as
  soon as each thread holds its first mutex and has still to lock its second, only the second ending is
  left. So the deadlock is possible but not
  certain, although the comments at the locks (\<open>will block\<close>) and the design document (\<open>reliably
  deadlocks\<close>) say so. The safe build has only the first ending.
\<close>

theorem only_the_safe_build_always_completes:
  "(\<forall>s. threads_step\<^sup>*\<^sup>* demo_unsafe s \<and> stuck s \<longrightarrow>
      joined s \<and> last (demo_lines unsafe_header s) = completed \<or>
      each_waits s \<and> completed \<notin> set (demo_lines unsafe_header s)) \<and>
   (\<exists>s. threads_step\<^sup>*\<^sup>* demo_unsafe s \<and> stuck s \<and> joined s) \<and>
   (\<exists>s. threads_step\<^sup>*\<^sup>* demo_unsafe s \<and> stuck s \<and> each_waits s) \<and>
   (\<forall>s t. threads_step\<^sup>*\<^sup>* demo_unsafe s \<and> each_has_first s \<and> threads_step\<^sup>*\<^sup>* s t \<longrightarrow> \<not> joined t) \<and>
   (\<forall>s. threads_step\<^sup>*\<^sup>* demo_safe s \<and> stuck s \<longrightarrow> last (demo_lines safe_header s) = completed)"
proof (intro conjI allI impI)
  fix s
  assume s: "threads_step\<^sup>*\<^sup>* demo_unsafe s \<and> stuck s"
  have w: "each_waits s \<Longrightarrow> \<not> joined s"
    using unsafe_run[of s] s by (auto simp: each_waits_def joined_def unsafe_inv_def unsafe_at_def)
  show "joined s \<and> last (demo_lines unsafe_header s) = completed \<or>
      each_waits s \<and> completed \<notin> set (demo_lines unsafe_header s)"
    using unsafe_stuck[OF unsafe_run, of s] w completed_printed[of s] s
    by (auto simp: demo_lines_def) (simp_all add: completed_def unsafe_header_def)
next
  define ids where "ids = replicate 9 0 @ replicate 9 (1::nat)"
  have "\<exists>s. schedule ids demo_unsafe = Some s \<and> stuck s \<and> joined s"
    by (simp add: ids_def demo_unsafe_def start_def thread_a_unsafe_def thread_b_unsafe_def thread_step_def
        stuck_def joined_def resource_1_def resource_2_def numeral_eq_Suc)
  then show "\<exists>s. threads_step\<^sup>*\<^sup>* demo_unsafe s \<and> stuck s \<and> joined s"
    using schedule_run by blast
next
  define ids where "ids = replicate 5 0 @ replicate 5 (1::nat)"
  have "\<exists>s. schedule ids demo_unsafe = Some s \<and> stuck s \<and> each_waits s"
    by (simp add: ids_def demo_unsafe_def start_def thread_a_unsafe_def thread_b_unsafe_def thread_step_def
        stuck_def each_waits_def resource_1_def resource_2_def numeral_eq_Suc)
  then show "\<exists>s. threads_step\<^sup>*\<^sup>* demo_unsafe s \<and> stuck s \<and> each_waits s"
    using schedule_run by blast
next
  fix s t
  assume "threads_step\<^sup>*\<^sup>* demo_unsafe s \<and> each_has_first s \<and> threads_step\<^sup>*\<^sup>* s t"
  then show "\<not> joined t"
    using doomed unsafe_run by blast
next
  fix s
  assume s: "threads_step\<^sup>*\<^sup>* demo_safe s \<and> stuck s"
  note inv = start_ordered[OF demo_ordered, folded demo_safe_def]
  have "joined s"
    using lo.stuck_final[OF inv, of s] s by (auto simp: stuck_no_step)
  then show "last (demo_lines safe_header s) = completed"
    by (simp add: demo_lines_def)
qed

theorem only_the_safe_build_always_completes_witness:
  "\<exists>s. schedule (replicate 2 0 @ replicate 2 1) demo_unsafe = Some s \<and> each_has_first s \<and>
     (\<forall>t. threads_step\<^sup>*\<^sup>* s t \<longrightarrow> \<not> joined t)"
proof -
  have "\<exists>s. schedule (replicate 2 0 @ replicate 2 1) demo_unsafe = Some s \<and> each_has_first s"
    by (simp add: demo_unsafe_def start_def thread_a_unsafe_def thread_b_unsafe_def thread_step_def
        each_has_first_def resource_1_def resource_2_def numeral_eq_Suc)
  then show ?thesis
    using schedule_run only_the_safe_build_always_completes by blast
qed

end
