(* ===== verification/Spec2Isabelle.thy ===== *)
theory Spec2Isabelle
  imports Fms_Audit Fms_Defined Paging_Competitive Paging_Output Server_Rounds Startup Client_Lockout Demo_Main
begin

text \<open>
  A verification library for the four C programs of the repository: the process and thread
  demonstrations (\<open>src/task1_process_threading\<close>), the paging simulator
  (\<open>src/task2_memory_management\<close>), the secure file-management system
  (\<open>src/task3_filesystem_security\<close>) and the networked key-value store
  (\<open>src/task4_network_ipc\<close>). The programs share no code; within task 3 and task 4 the parts call
  each other as described below. Every function of the sources is a definition of the same name where
  Isabelle allows it; the definitions compute.

  Shared vocabulary.
  \<^item> \<open>Prelude\<close>: C strings and fixed-size character arrays, \<open>strncmp\<close>, \<open>strncpy\<close>, bytes
    and characters, the named collections of rewrite rules.
  \<^item> \<open>Stdio\<close>: \<open>fgets\<close> and typed lines. \<open>Disk\<close>: files, \<open>fopen\<close>, \<open>fread\<close> of records,
    \<open>remove\<close>, \<open>mkdir\<close>, path resolution, \<open>rand\<close> and the clock, with the locale \<open>record_file\<close> for
    files of fixed-size records. Whether an \<open>fopen\<close> or \<open>malloc\<close> succeeds, the values of \<open>rand\<close> and
    the time are fields of the \<open>world\<close> that no operation changes: the theorems hold for all of them.
  \<^item> \<open>Refinement\<close>: the locale \<open>data_refinement\<close> (an operation on a concrete state simulates one on an
    abstract state; then so do all histories). \<open>Transitions\<close>: the locale \<open>finishing_system\<close> (an
    invariant, a measure and progress; then runs are bounded and can always be completed).

  Task 3.
  \<^item> \<open>Common\<close> (\<open>common.h\<close>): sizes, file names, the records \<open>User\<close> and \<open>FileMeta\<close> with their byte
    layout (interpretations of \<open>record_file\<close>).
  \<^item> \<open>Audit_Log\<close> (\<open>audit.c\<close>); \<open>Sha256\<close>, \<open>Sha256_Correct\<close>, \<open>Crypto\<close> (\<open>crypto.c\<close>): SHA-256 on 32-bit
    words equals the specification of FIPS 180-4, whose constants are defined from the roots of the
    first primes; salts, salted hashes, the XOR cipher (an interpretation of \<open>keystream_cipher\<close>).
  \<^item> \<open>Auth\<close> (\<open>auth.c\<close>): registration and login over the bytes of \<open>users.dat\<close>.
  \<^item> \<open>Perms\<close>, \<open>Perm_Table\<close> (\<open>perms.c\<close>): the metadata file refines a finite map from names to owner,
    group, permissions and flag, up to 1024 records (an interpretation of \<open>data_refinement\<close>).
  \<^item> \<open>Fileops\<close>, \<open>Fileops_Correct\<close>, \<open>Fileops_Props\<close> (\<open>fileops.c\<close>): the file operations on top of
    these: access control, round trips, and what each operation leaves alone.
  \<^item> \<open>Fms\<close>, \<open>Fms_Props\<close> (\<open>main.c\<close>): login screen, session menu and main loop. The loops are partial
    functions into \<open>option\<close>: \<open>None\<close> is a run that never ends, \<open>Some None\<close> undefined behaviour.
  \<^item> \<open>Fms_Session\<close>: one whole run, in which two users register, one creates a file and the other reads
    it, for all names, texts and permissions. \<open>Fms_Invariants\<close>: what every run keeps, if no typed name
    holds a \<open>/\<close>: whole records, unique names, well-formed fields, an audit log that only grows. Each
    operation preserves a relation between worlds, the loops keep it by induction over their rounds.
    \<open>Fms_Audit\<close>: accountability, one entry of the audit log for each file operation of a session, with
    the action chosen, the file typed and the result shown. \<open>Fms_Defined\<close>: no run has undefined behaviour
    unless some file can be read but not written, or a record of \<open>users.dat\<close> has an array without
    terminator, which the welcome line prints.

  Task 4.
  \<^item> \<open>Server\<close>, \<open>Server_Correct\<close>, \<open>Server_Props\<close> (\<open>server.c\<close>): the store refines a finite map of at most
    128 keys; lines, parsing, and the rounds of \<open>handle_client\<close>; all threads as arbitrary
    interleavings of rounds.
  \<^item> \<open>Store_Lock\<close>: the store operations again, one statement at a time, by threads that interleave under
    \<open>store_lock\<close> (an interpretation of \<open>finishing_system\<close>); they are linearizable in the order in which
    the lock is taken. \<open>Server_Rounds\<close>: a round is at most one store call and a reply to its answer, so
    interleaved statements amount to rounds one after the other, the semantics of \<open>Server\<close>; and what
    the threads print through the three unlocked calls of \<open>log_msg\<close>.
  \<^item> \<open>Client\<close> (\<open>client.c\<close>): the client against any peer, and connected to the model of the server.
    When the client sends to a server that has closed the connection, what it can still read is a
    parameter (all that was waiting, or a part and a failed \<open>recv\<close> after a reset).
    \<open>Client_Lockout\<close>: what the client shows when the server has locked its user out.
    \<open>Startup\<close>: the first part of both \<open>main\<close>s, with every error exit, and the client's \<open>main\<close> as a whole.

  Task 2.
  \<^item> \<open>Paging\<close>, \<open>Paging_Correct\<close>, \<open>Paging_Props\<close> (\<open>paging_sim.c\<close>): address translation with C division
    and overflow as \<open>None\<close>; the FIFO simulation refines a queue and the LRU simulation a recency list
    (interpretations of \<open>data_refinement\<close>); bounds, absence of Belady's anomaly for LRU, the test cases.
    \<open>Paging_Competitive\<close>: against any schedule, also one that knows the future, both algorithms fault at
    most n times as often. \<open>Paging_Output\<close>: the printed text; the ratios, quotients of doubles shown with
    two decimals, are computed on integers with both roundings, and are nearest to the exact ratios.

  Task 1.
  \<^item> \<open>Scheduler\<close> (\<open>scheduler.c\<close>, dispatcher and process threads), \<open>Race\<close> (\<open>counter_worker\<close> of
    \<open>scheduler.c\<close>) and \<open>Deadlock\<close> (\<open>deadlock_demo.c\<close>): interleaving semantics in which a step is one
    statement or one pthread call of one thread; each interprets \<open>finishing_system\<close>. The scheduler is
    shown to print the sequential round-robin schedule whatever the interleaving; the numbers of
    processes, threads and increments and the burst times are arbitrary. \<open>Demo_Main\<close>: the two \<open>main\<close>
    functions and the text they print, for every interleaving; how long a process waits; the clean-up
    destroys nothing that is in use; the ways in which the unsafe build of the deadlock program ends.

  Bounds. No fuel is used: the loops of the sources are structural, have a measure, or are partial
  functions. Buffers keep their sizes; where a theorem needs a name, key or line to fit its buffer,
  or the metadata file to hold at most 1024 records, it says so, and a theorem of its own shows what
  happens beyond.

  Not modelled. Failures of \<open>pthread_create\<close> in task 1 and of the server's \<open>malloc\<close> (the sources do not
  check them); the Windows rule that a backslash separates path components (paths are those of POSIX); \<open>srand\<close> and the
  formatting of times (the \<open>rand\<close> sequence and the formatted time are arbitrary); \<open>usleep\<close> and
  \<open>sched_yield\<close> are steps without effect; a write to an opened file does not fail; the statements behind
  the endless loop of the server's \<open>main\<close>, which are never reached. The interleaving semantics is sequentially consistent.
  The headers other than \<open>common.h\<close> hold prototypes only.
\<close>

end
